(* ===== verification/Prelude.thy ===== *)
theory Prelude
  imports Main "HOL-Library.Word"
begin

text \<open>
  Shared vocabulary of the development: bytes, error numbers, the result types of the fallible
  operations, positional access to byte buffers, and the list lemmas the components share.

  The C++ sources report failures in two ways. Cold paths throw \<open>obd::error\<close> or
  \<open>obd::format_error\<close> with an errno value; hot paths return a negative errno. Both become the
  left injection of a sum: \<open>Inl e\<close> stands for a thrown \<open>errno = e\<close> and for a returned \<open>-e\<close>.
\<close>

named_theorems buf_simps \<open>positional reads and writes of byte buffers\<close>
named_theorems seg_simps \<open>lookup and shape of segment lists\<close>

type_synonym byte = "8 word"
type_synonym bytes = "byte list"

text \<open>Errno values named as in \<open>errno.h\<close>.\<close>

datatype errno =
    EINVAL | EIO | ERANGE | EFBIG | EBUSY | EROFS | EBADF | EOVERFLOW
  | ENOMEM | ENOENT | EEXIST | EALREADY | Errno nat

type_synonym 'a result = "errno + 'a"

text \<open>
  The result of a positional read: an error, or the bytes transferred into the caller's buffer
  (their number is the C++ return value).
\<close>

type_synonym io = "bytes result"

text \<open>A positional reader: \<open>pread count offset\<close>.\<close>

type_synonym reader = "nat \<Rightarrow> nat \<Rightarrow> io"

text \<open>Sequencing of fallible steps: an exception or an early error return skips the rest.\<close>

definition bindR :: "'a result \<Rightarrow> ('a \<Rightarrow> 'b result) \<Rightarrow> 'b result" where
  "bindR r f = (case r of Inl e \<Rightarrow> Inl e | Inr x \<Rightarrow> f x)"

definition U64 :: nat where "U64 = 2 ^ 64"

text \<open>Sector size and region constants shared by the LSMT sources (\<open>lsmt_format.hpp\<close>).\<close>

definition kSpace :: nat where "kSpace = 4096"
definition kAlignment :: nat where "kAlignment = 512"
definition kHeaderSize :: nat where "kHeaderSize = 390"
definition kMaxRoIndexSize :: nat where "kMaxRoIndexSize = 1000000"
definition kMaxStackLayers :: nat where "kMaxStackLayers = 255"
definition kDataStartSector :: nat where "kDataStartSector = kSpace div kAlignment"

text \<open>
  \<open>get_bytes off n b\<close> is the C++ range \<open>[b + off, b + off + n)\<close>; \<open>put_bytes off bs b\<close> is
  \<open>memcpy(b + off, bs)\<close> on a buffer that is long enough.
\<close>

definition get_bytes :: "nat \<Rightarrow> nat \<Rightarrow> bytes \<Rightarrow> bytes" where
  "get_bytes off n b = take n (drop off b)"

definition put_bytes :: "nat \<Rightarrow> bytes \<Rightarrow> bytes \<Rightarrow> bytes" where
  "put_bytes off bs b = take off b @ bs @ drop (off + length bs) b"

definition zeros :: "nat \<Rightarrow> bytes" where
  "zeros n = replicate n 0"

text \<open>
  \<open>std::upper_bound(v, x, \<lambda>x s. x < key s)\<close> on a range partitioned by the predicate: the
  iterator to the first element whose key exceeds \<open>x\<close>, here the suffix that starts there.
\<close>

definition upper_bound :: "('a \<Rightarrow> nat) \<Rightarrow> nat \<Rightarrow> 'a list \<Rightarrow> 'a list" where
  "upper_bound key x v = dropWhile (\<lambda>s. key s \<le> x) v"

lemma bindR_simps [simp]: "bindR (Inl e) f = Inl e" "bindR (Inr x) f = f x"
  by (simp_all add: bindR_def)

lemma bindR_Inr [simp]: "bindR r f = Inr y \<longleftrightarrow> (\<exists>x. r = Inr x \<and> f x = Inr y)"
  by (cases r) (auto simp: bindR_def)

lemma bindR_cong [fundef_cong]:
  "r = r' \<Longrightarrow> (\<And>x. r' = Inr x \<Longrightarrow> f x = g x) \<Longrightarrow> bindR r f = bindR r' g"
  by (cases r') (auto simp: bindR_def)

section \<open>Buffers\<close>

lemma length_get_bytes [buf_simps]: "off + n \<le> length b \<Longrightarrow> length (get_bytes off n b) = n"
  by (simp add: get_bytes_def)

lemma length_put_bytes [buf_simps]:
  "off + length bs \<le> length b \<Longrightarrow> length (put_bytes off bs b) = length b"
  by (simp add: put_bytes_def)

lemma length_zeros [simp]: "length (zeros n) = n"
  by (simp add: zeros_def)

lemma zeros_0 [simp]: "zeros 0 = []"
  by (simp add: zeros_def)

lemma nth_zeros [simp]: "i < n \<Longrightarrow> zeros n ! i = 0"
  by (simp add: zeros_def)

lemma takeWhile_zeros [simp]: "takeWhile (\<lambda>c. c \<noteq> 0) (zeros n) = []"
  by (cases n) (simp_all add: zeros_def)

lemma take_zeros [simp]: "take n (zeros m) = zeros (min n m)"
  by (simp add: zeros_def min_def)

lemma drop_zeros [simp]: "drop n (zeros m) = zeros (m - n)"
  by (simp add: zeros_def)

lemma zeros_append [simp]: "zeros a @ zeros b = zeros (a + b)"
  by (simp add: zeros_def replicate_add)

lemma get_put_same [buf_simps]:
  "off + length bs \<le> length b \<Longrightarrow> n = length bs \<Longrightarrow> get_bytes off n (put_bytes off bs b) = bs"
  by (simp add: get_bytes_def put_bytes_def)

lemma get_put_before [buf_simps]:
  assumes "off' + n \<le> off" and "off + length bs \<le> length b"
  shows "get_bytes off' n (put_bytes off bs b) = get_bytes off' n b"
proof -
  have "take (off' + n) (put_bytes off bs b) = take (off' + n) b"
    using assms by (simp add: put_bytes_def min_def)
  then have "drop off' (take (off' + n) (put_bytes off bs b)) = drop off' (take (off' + n) b)"
    by simp
  then show ?thesis by (simp add: get_bytes_def drop_take)
qed

lemma get_put_after [buf_simps]:
  assumes "off + length bs \<le> off'" and "off + length bs \<le> length b"
  shows "get_bytes off' n (put_bytes off bs b) = get_bytes off' n b"
proof -
  have "drop (off + length bs) (put_bytes off bs b) = drop (off + length bs) b"
    using assms by (simp add: put_bytes_def)
  then have "drop (off' - (off + length bs)) (drop (off + length bs) (put_bytes off bs b))
      = drop (off' - (off + length bs)) (drop (off + length bs) b)" by simp
  then have "drop off' (put_bytes off bs b) = drop off' b"
    using assms by (simp only: drop_drop) simp
  then show ?thesis by (simp add: get_bytes_def)
qed

lemma get_bytes_append: "get_bytes off (m + n) b = get_bytes off m b @ get_bytes (off + m) n b"
  by (simp add: get_bytes_def take_add add.commute)

lemma get_get_bytes: "i + n \<le> m \<Longrightarrow> get_bytes i n (get_bytes off m b) = get_bytes (off + i) n b"
  by (simp add: get_bytes_def drop_take min_def add.commute)

lemma get_bytes_nth: "i < n \<Longrightarrow> off + n \<le> length b \<Longrightarrow> get_bytes off n b ! i = b ! (off + i)"
  by (simp add: get_bytes_def)

lemma get_bytes_0 [simp]: "get_bytes off 0 b = []"
  by (simp add: get_bytes_def)

lemma get_bytes_clamp: "get_bytes off (min n (length b - off)) b = get_bytes off n b"
  by (simp add: get_bytes_def min_def)

lemma get_bytes_beyond: "length b \<le> off \<Longrightarrow> get_bytes off n b = []"
  by (simp add: get_bytes_def)

section \<open>Partition points\<close>

lemma upper_bound_Nil [simp]: "upper_bound key x [] = []"
  by (simp add: upper_bound_def)

lemma upper_bound_split: "\<exists>pre. v = pre @ upper_bound key x v \<and> (\<forall>s \<in> set pre. key s \<le> x)"
  by (rule exI [of _ "takeWhile (\<lambda>s. key s \<le> x) v"])
    (auto simp: upper_bound_def dest: set_takeWhileD)

lemma upper_bound_hd: "upper_bound key x v = s # rest \<Longrightarrow> x < key s"
  unfolding upper_bound_def by (metis dropWhile_eq_Cons_conv not_le)

lemma unat_u64: "unat (w :: 64 word) < U64"
proof -
  have "unat w < 2 ^ LENGTH(64)" by (rule unsigned_less)
  then show ?thesis by (simp add: U64_def)
qed

lemma unat_of_u64: "n < U64 \<Longrightarrow> unat (of_nat n :: 64 word) = n"
  by (simp add: U64_def unsigned_of_nat take_bit_nat_eq_self)

end
