(* ===== verification/Bytes.thy ===== *)
theory Bytes
  imports Prelude
begin

unbundle bit_operations_syntax

text \<open>
  \<open>src/common/bytes.hpp\<close>: little-endian accessors on raw buffers and the 16-byte LSMT segment
  mapping. Loads and stores are the shift-and-or expressions of the source on words of the
  source's width. The fields of a \<open>segment_mapping\<close> are natural numbers: they come from bit
  fields of 50, 14 and 55 bits (\<open>seg_fits\<close>), so every sum the code forms with them stays far
  below \<open>2 ^ 64\<close> (\<open>seg_end_no_wrap\<close>).
\<close>

section \<open>Fixed-width loads and stores\<close>

definition load_u16_le :: "bytes \<Rightarrow> 16 word" where
  "load_u16_le b = ucast (b ! 0) OR push_bit 8 (ucast (b ! 1))"

definition load_u32_le :: "bytes \<Rightarrow> 32 word" where
  "load_u32_le b = ucast (b ! 0) OR push_bit 8 (ucast (b ! 1)) OR
     push_bit 16 (ucast (b ! 2)) OR push_bit 24 (ucast (b ! 3))"

definition load_u64_le :: "bytes \<Rightarrow> 64 word" where
  "load_u64_le b = ucast (b ! 0) OR push_bit 8 (ucast (b ! 1)) OR
     push_bit 16 (ucast (b ! 2)) OR push_bit 24 (ucast (b ! 3)) OR
     push_bit 32 (ucast (b ! 4)) OR push_bit 40 (ucast (b ! 5)) OR
     push_bit 48 (ucast (b ! 6)) OR push_bit 56 (ucast (b ! 7))"

definition store_u16_le :: "16 word \<Rightarrow> bytes" where
  "store_u16_le v = [ucast v, ucast (drop_bit 8 v)]"

definition store_u32_le :: "32 word \<Rightarrow> bytes" where
  "store_u32_le v = [ucast v, ucast (drop_bit 8 v), ucast (drop_bit 16 v), ucast (drop_bit 24 v)]"

definition store_u64_le :: "64 word \<Rightarrow> bytes" where
  "store_u64_le v = [ucast v, ucast (drop_bit 8 v), ucast (drop_bit 16 v), ucast (drop_bit 24 v),
     ucast (drop_bit 32 v), ucast (drop_bit 40 v), ucast (drop_bit 48 v), ucast (drop_bit 56 v)]"

section \<open>Segment mappings\<close>

text \<open>The members of \<open>struct segment_mapping\<close>, prefixed because \<open>length\<close> is taken.\<close>

record segment_mapping =
  s_offset :: nat
  s_length :: nat
  s_moffset :: nat
  s_zeroed :: bool
  s_tag :: nat

definition kMaxOffset :: nat where "kMaxOffset = 2 ^ 50 - 1"
definition kMaxLength :: nat where "kMaxLength = 2 ^ 14 - 1"
definition kMaxMoffset :: nat where "kMaxMoffset = 2 ^ 55 - 1"
definition kInvalidOffset :: nat where "kInvalidOffset = kMaxOffset"
definition kEncodedSize :: nat where "kEncodedSize = 16"

definition seg_end :: "segment_mapping \<Rightarrow> nat" where
  "seg_end s = s_offset s + s_length s"

definition seg_mend :: "segment_mapping \<Rightarrow> nat" where
  "seg_mend s = (if s_zeroed s then s_moffset s else s_moffset s + s_length s)"

definition load_segment_le :: "bytes \<Rightarrow> segment_mapping" where
  "load_segment_le p =
     (let w0 = load_u64_le p; w1 = load_u64_le (drop 8 p)
      in \<lparr>s_offset = unat (w0 AND of_nat kMaxOffset),
          s_length = unat ((ucast (drop_bit 50 w0) :: 32 word) AND of_nat kMaxLength),
          s_moffset = unat (w1 AND of_nat kMaxMoffset),
          s_zeroed = (drop_bit 55 w1 AND 1 = 1),
          s_tag = unat (ucast (drop_bit 56 w1) :: byte)\<rparr>)"

definition store_segment_le :: "segment_mapping \<Rightarrow> bytes" where
  "store_segment_le s =
     (let w0 = (of_nat (s_offset s) AND of_nat kMaxOffset) OR
               push_bit 50 (ucast ((of_nat (s_length s) :: 32 word) AND of_nat kMaxLength));
          w1 = (of_nat (s_moffset s) AND of_nat kMaxMoffset) OR
               push_bit 55 (if s_zeroed s then 1 else 0) OR
               push_bit 56 (ucast (of_nat (s_tag s) :: byte))
      in store_u64_le w0 @ store_u64_le w1)"

text \<open>A mapping whose fields fit the bit fields of the on-disk record.\<close>

definition seg_fits :: "segment_mapping \<Rightarrow> bool" where
  "seg_fits s \<longleftrightarrow> s_offset s \<le> kMaxOffset \<and> s_length s \<le> kMaxLength \<and>
     s_moffset s \<le> kMaxMoffset \<and> s_tag s < 256"

section \<open>Loads invert stores\<close>

lemma length_store_le [simp]:
  "length (store_u16_le a) = 2" "length (store_u32_le b) = 4" "length (store_u64_le c) = 8"
  by (simp_all add: store_u16_le_def store_u32_le_def store_u64_le_def)

lemma ucast_byte: "(ucast (ucast w :: byte) :: 'a::len word) = take_bit 8 w"
  by (rule bit_word_eqI) (auto simp: bit_simps)

lemma take_bit_byte_step:
  "take_bit (k + 8) v = take_bit k v OR push_bit k (take_bit 8 (drop_bit k v))"
  for v :: "'a::len word"
  by (rule bit_word_eqI) (auto simp: bit_simps)

lemma load_store_u16: "load_u16_le (store_u16_le v @ rest) = v"
proof -
  have "v = take_bit (8 + 8) v" by (simp add: take_bit_word_eq_self)
  then show ?thesis
    unfolding take_bit_byte_step
    by (simp add: load_u16_le_def store_u16_le_def ucast_byte)
qed

lemma load_store_u32: "load_u32_le (store_u32_le v @ rest) = v"
proof -
  have "v = take_bit (24 + 8) v" by (simp add: take_bit_word_eq_self)
  then show ?thesis
    using take_bit_byte_step [of 8 v] take_bit_byte_step [of 16 v] take_bit_byte_step [of 24 v]
    by (simp add: load_u32_le_def store_u32_le_def ucast_byte or.assoc)
qed

lemma load_store_u64: "load_u64_le (store_u64_le v @ rest) = v"
proof -
  have "v = take_bit (56 + 8) v" by (simp add: take_bit_word_eq_self)
  then show ?thesis
    using take_bit_byte_step [of 8 v] take_bit_byte_step [of 16 v] take_bit_byte_step [of 24 v]
      take_bit_byte_step [of 32 v] take_bit_byte_step [of 40 v] take_bit_byte_step [of 48 v]
      take_bit_byte_step [of 56 v]
    by (simp add: load_u64_le_def store_u64_le_def ucast_byte or.assoc)
qed

lemmas load_store_le [simp] = load_store_u16 load_store_u32 load_store_u64
  load_store_u16 [of _ "[]", simplified] load_store_u32 [of _ "[]", simplified]
  load_store_u64 [of _ "[]", simplified]

lemma store_load_u64: "8 \<le> length b \<Longrightarrow> store_u64_le (load_u64_le b) = take 8 b"
proof -
  assume "8 \<le> length b"
  then obtain b0 b1 b2 b3 b4 b5 b6 b7 rest where b: "b = b0 # b1 # b2 # b3 # b4 # b5 # b6 # b7 # rest"
    by (auto simp: numeral_eq_Suc Suc_le_length_iff)
  show ?thesis unfolding b load_u64_le_def store_u64_le_def
    by (simp, intro conjI; intro bit_word_eqI; auto simp: bit_simps dest: bit_imp_le_length)
qed

text \<open>A load depends on the leading bytes only, so it reads a field out of a longer buffer.\<close>

lemma load_u16_get [buf_simps]: "off + 2 \<le> length b \<Longrightarrow>
    load_u16_le (drop off b) = load_u16_le (get_bytes off 2 b)"
  by (simp add: load_u16_le_def get_bytes_def)

lemma load_u32_get [buf_simps]: "off + 4 \<le> length b \<Longrightarrow>
    load_u32_le (drop off b) = load_u32_le (get_bytes off 4 b)"
  by (simp add: load_u32_le_def get_bytes_def)

lemma load_u64_get [buf_simps]: "off + 8 \<le> length b \<Longrightarrow>
    load_u64_le (drop off b) = load_u64_le (get_bytes off 8 b)"
  by (simp add: load_u64_le_def get_bytes_def)

section \<open>Segment mappings round-trip\<close>

lemma max_as_mask:
  "(of_nat kMaxOffset :: 64 word) = mask 50" "(of_nat kMaxLength :: 32 word) = mask 14"
  "(of_nat kMaxMoffset :: 64 word) = mask 55"
  by (simp_all add: kMaxOffset_def kMaxLength_def kMaxMoffset_def mask_eq_exp_minus_1)

lemma unat_take_bit_of_nat:
  assumes "n < 2 ^ k" and "k \<le> LENGTH('a)"
  shows "unat (take_bit k (of_nat n :: 'a::len word)) = n"
proof -
  have "n < 2 ^ LENGTH('a)"
    using assms by (meson less_le_trans one_le_numeral power_increasing)
  then show ?thesis
    using assms by (simp add: unat_of_nat unsigned_take_bit_eq take_bit_nat_eq_self)
qed

lemma word0_offset:
  "(of_nat a AND mask 50 OR push_bit 50 (ucast (l AND mask 14 :: 32 word)) :: 64 word) AND mask 50
   = take_bit 50 (of_nat a)"
  by (rule bit_word_eqI) (auto simp: bit_simps)

lemma word0_length:
  "(ucast (drop_bit 50 (a AND mask 50 OR push_bit 50 (ucast (l AND mask 14 :: 32 word)) :: 64 word))
     :: 32 word) AND mask 14 = take_bit 14 l"
  by (rule bit_word_eqI) (auto simp: bit_simps)

lemma word1_moffset:
  "(m AND mask 55 OR push_bit 55 (if z then 1 else 0) OR push_bit 56 (ucast (t :: byte)) :: 64 word)
     AND mask 55 = take_bit 55 m"
  by (rule bit_word_eqI) (auto simp: bit_simps)

lemma word1_zeroed:
  "(drop_bit 55 (m AND mask 55 OR push_bit 55 (if z then 1 else 0) OR
      push_bit 56 (ucast (t :: byte)) :: 64 word) AND 1 = 1) = z"
proof -
  have "drop_bit 55 (m AND mask 55 OR push_bit 55 (if z then 1 else 0) OR
      push_bit 56 (ucast t) :: 64 word) AND 1 = (if z then 1 else 0)"
    by (rule bit_word_eqI) (auto simp: bit_simps)
  then show ?thesis by simp
qed

lemma word1_tag:
  "(ucast (drop_bit 56 (m AND mask 55 OR push_bit 55 (if z then 1 else 0) OR
      push_bit 56 (ucast (t :: byte)) :: 64 word)) :: byte) = t"
  by (rule bit_word_eqI) (auto simp: bit_simps)

lemma length_store_segment [simp]: "length (store_segment_le s) = kEncodedSize"
  by (simp add: store_segment_le_def kEncodedSize_def Let_def)

lemma drop_store_u64: "drop 8 (store_u64_le a @ rest) = rest"
  by (simp add: drop_append)

lemma load_store_segment_append:
  assumes "seg_fits s"
  shows "load_segment_le (store_segment_le s @ rest) = s"
proof -
  have "s_offset s < 2 ^ 50" "s_length s < 2 ^ 14" "s_moffset s < 2 ^ 55" "s_tag s < 2 ^ 8"
    using assms by (simp_all add: seg_fits_def kMaxOffset_def kMaxLength_def kMaxMoffset_def)
  moreover from this(4) have "unat (of_nat (s_tag s) :: byte) = s_tag s"
    by (simp add: unat_of_nat take_bit_nat_eq_self)
  ultimately show ?thesis
    unfolding load_segment_le_def store_segment_le_def Let_def append_assoc load_store_u64
      drop_store_u64 max_as_mask word0_offset word0_length word1_moffset word1_zeroed word1_tag
    by (simp add: unat_take_bit_of_nat)
qed

lemma unat_and_mask_le: "unat (w AND mask k :: 'a::len word) \<le> 2 ^ k - 1"
proof -
  have "unat (take_bit k w) = take_bit k (unat w)" by (simp add: unsigned_take_bit_eq)
  also have "\<dots> < 2 ^ k" by simp
  finally show ?thesis by (simp add: take_bit_eq_mask)
qed

lemma load_segment_fits: "seg_fits (load_segment_le p)"
proof -
  have "unat (ucast (drop_bit 56 (load_u64_le (drop 8 p))) :: byte) < 2 ^ LENGTH(8)"
    by (rule unsigned_less)
  then show ?thesis
    using unat_and_mask_le [of "load_u64_le p" 50] unat_and_mask_le [of "load_u64_le (drop 8 p)" 55]
      unat_and_mask_le [of "ucast (drop_bit 50 (load_u64_le p)) :: 32 word" 14]
    unfolding seg_fits_def load_segment_le_def Let_def max_as_mask
    by (simp add: kMaxOffset_def kMaxLength_def kMaxMoffset_def)
qed

text \<open>None of the sums formed from a mapping's fields wraps.\<close>

lemma seg_end_no_wrap: "seg_fits s \<Longrightarrow> seg_end s < U64 \<and> seg_mend s < U64"
  by (auto simp: seg_fits_def seg_end_def seg_mend_def U64_def kMaxOffset_def kMaxLength_def
      kMaxMoffset_def)

end
