(* ===== verification/LsmtFormat.thy ===== *)
theory LsmtFormat
  imports Bytes
begin

unbundle bit_operations_syntax

text \<open>
  \<open>src/format/lsmt_format.hpp\<close> and \<open>lsmt_format.cpp\<close>: the LSMT header/trailer region. A region is
  a 4096-byte buffer; \<open>parse\<close> reads the fields at their offsets, \<open>serialize\<close> clears a region and
  writes them there. C++ strings are byte lists. A thrown \<open>format_error\<close> is \<open>Inl EINVAL\<close>.
\<close>

definition kMagic0 :: bytes where
  "kMagic0 = [0x4C, 0x53, 0x4D, 0x54, 0x00, 0x01, 0x02, 0x00]"

definition kMagic1 :: bytes where
  "kMagic1 = [0x65, 0x7E, 0x63, 0xD2, 0x94, 0x44, 0x08, 0x4C,
              0xA2, 0xD2, 0xC8, 0xEC, 0x4F, 0xCF, 0xAE, 0x8A]"

definition kFlagShiftHeader :: nat where "kFlagShiftHeader = 0"
definition kFlagShiftType :: nat where "kFlagShiftType = 1"
definition kFlagShiftSealed :: nat where "kFlagShiftSealed = 2"
definition kFlagShiftGcLayer :: nat where "kFlagShiftGcLayer = 3"
definition kFlagShiftSparseRw :: nat where "kFlagShiftSparseRw = 4"
definition kFlagShiftHybridRw :: nat where "kFlagShiftHybridRw = 5"

lemmas flag_shifts = kFlagShiftHeader_def kFlagShiftType_def kFlagShiftSealed_def
  kFlagShiftGcLayer_def kFlagShiftSparseRw_def kFlagShiftHybridRw_def

record HeaderTrailer =
  ht_size :: "32 word"
  ht_flags :: "32 word"
  ht_index_offset :: "64 word"
  ht_index_size :: "64 word"
  ht_virtual_size :: "64 word"
  ht_uuid :: bytes
  ht_parent_uuid :: bytes
  ht_reserved :: "16 word"
  ht_version :: byte
  ht_sub_version :: byte
  ht_user_tag :: bytes

text \<open>The member initializers of the struct.\<close>

definition default_ht :: HeaderTrailer where
  "default_ht = \<lparr>ht_size = of_nat kHeaderSize, ht_flags = 0, ht_index_offset = 0, ht_index_size = 0,
     ht_virtual_size = 0, ht_uuid = [], ht_parent_uuid = [], ht_reserved = 0, ht_version = 1,
     ht_sub_version = 1, ht_user_tag = []\<rparr>"

definition get_flag_bit :: "HeaderTrailer \<Rightarrow> nat \<Rightarrow> bool" where
  "get_flag_bit ht shift \<longleftrightarrow> drop_bit shift (ht_flags ht) AND 1 = 1"

definition set_flag_bit :: "nat \<Rightarrow> HeaderTrailer \<Rightarrow> HeaderTrailer" where
  "set_flag_bit shift ht = ht\<lparr>ht_flags := ht_flags ht OR push_bit shift 1\<rparr>"

definition clr_flag_bit :: "nat \<Rightarrow> HeaderTrailer \<Rightarrow> HeaderTrailer" where
  "clr_flag_bit shift ht = ht\<lparr>ht_flags := ht_flags ht AND NOT (push_bit shift 1)\<rparr>"

definition is_header :: "HeaderTrailer \<Rightarrow> bool" where
  "is_header ht \<longleftrightarrow> get_flag_bit ht kFlagShiftHeader"

definition is_trailer :: "HeaderTrailer \<Rightarrow> bool" where
  "is_trailer ht \<longleftrightarrow> \<not> is_header ht"

definition is_data_file :: "HeaderTrailer \<Rightarrow> bool" where
  "is_data_file ht \<longleftrightarrow> get_flag_bit ht kFlagShiftType"

definition is_sealed :: "HeaderTrailer \<Rightarrow> bool" where
  "is_sealed ht \<longleftrightarrow> get_flag_bit ht kFlagShiftSealed"

definition read_cstr :: "bytes \<Rightarrow> nat \<Rightarrow> bytes" where
  "read_cstr b maxlen = takeWhile (\<lambda>c. c \<noteq> 0) (take maxlen b)"

definition write_cstr :: "nat \<Rightarrow> nat \<Rightarrow> bytes \<Rightarrow> bytes \<Rightarrow> bytes result" where
  "write_cstr off maxlen s b =
     (if length s \<ge> maxlen then Inl EINVAL
      else Inr (put_bytes off s (put_bytes off (zeros maxlen) b)))"

definition parse_ht :: "bytes \<Rightarrow> HeaderTrailer result" where
  "parse_ht b =
     (if get_bytes 0 8 b \<noteq> kMagic0 \<or> get_bytes 8 16 b \<noteq> kMagic1 then Inl EINVAL
      else if load_u32_le (drop 24 b) \<noteq> of_nat kHeaderSize then Inl EINVAL
      else Inr \<lparr>ht_size = load_u32_le (drop 24 b),
                ht_flags = load_u32_le (drop 28 b),
                ht_index_offset = load_u64_le (drop 32 b),
                ht_index_size = load_u64_le (drop 40 b),
                ht_virtual_size = load_u64_le (drop 48 b),
                ht_uuid = read_cstr (drop 56 b) 37,
                ht_parent_uuid = read_cstr (drop 93 b) 37,
                ht_reserved = load_u16_le (drop 130 b),
                ht_version = b ! 132,
                ht_sub_version = b ! 133,
                ht_user_tag = read_cstr (drop 134 b) 256\<rparr>)"

definition serialize_ht :: "HeaderTrailer \<Rightarrow> bytes result" where
  "serialize_ht ht =
     (let b = zeros kSpace;
          b = put_bytes 0 kMagic0 b;
          b = put_bytes 8 kMagic1 b;
          b = put_bytes 24 (store_u32_le (of_nat kHeaderSize)) b;
          b = put_bytes 28 (store_u32_le (ht_flags ht)) b;
          b = put_bytes 32 (store_u64_le (ht_index_offset ht)) b;
          b = put_bytes 40 (store_u64_le (ht_index_size ht)) b;
          b = put_bytes 48 (store_u64_le (ht_virtual_size ht)) b
      in case write_cstr 56 37 (ht_uuid ht) b of Inl e \<Rightarrow> Inl e | Inr b \<Rightarrow>
        (case write_cstr 93 37 (ht_parent_uuid ht) b of Inl e \<Rightarrow> Inl e | Inr b \<Rightarrow>
          (let b = put_bytes 130 (store_u16_le (ht_reserved ht)) b;
               b = put_bytes 132 [ht_version ht] b;
               b = put_bytes 133 [ht_sub_version ht] b
           in write_cstr 134 256 (ht_user_tag ht) b)))"

section \<open>Flag bits\<close>

lemma get_flag_bit_iff: "get_flag_bit ht shift \<longleftrightarrow> bit (ht_flags ht) shift"
proof -
  have "drop_bit shift (ht_flags ht) AND 1 = of_bool (bit (ht_flags ht) shift)"
    by (rule bit_word_eqI) (auto simp: bit_simps)
  then show ?thesis by (simp add: get_flag_bit_def)
qed

lemma set_flag_bit_get: "shift < 32 \<Longrightarrow>
    get_flag_bit (set_flag_bit shift ht) k \<longleftrightarrow> k = shift \<or> get_flag_bit ht k"
  by (auto simp: get_flag_bit_iff set_flag_bit_def bit_simps)

lemma clr_flag_bit_get:
  "get_flag_bit (clr_flag_bit shift ht) k \<longleftrightarrow> k \<noteq> shift \<and> get_flag_bit ht k"
  by (auto simp: get_flag_bit_iff clr_flag_bit_def bit_simps dest: bit_imp_le_length)

section \<open>Strings in fixed fields\<close>

text \<open>A string that survives: no NUL inside.\<close>

definition cstr_ok :: "bytes \<Rightarrow> bool" where
  "cstr_ok s \<longleftrightarrow> 0 \<notin> set s"

lemma read_cstr_padded:
  assumes "cstr_ok s" "length s < n"
  shows "read_cstr (s @ zeros (n - length s) @ rest) n = s"
proof -
  have "take n (s @ zeros (n - length s) @ rest) = s @ zeros (n - length s)"
    using assms by simp
  moreover have "takeWhile (\<lambda>c. c \<noteq> 0) (s @ zeros (n - length s)) = s"
  proof -
    have "zeros (n - length s) = 0 # zeros (n - length s - 1)"
      using assms(2) by (cases "n - length s") (simp_all add: zeros_def)
    moreover have "takeWhile (\<lambda>c. c \<noteq> 0) (s @ 0 # r) = s" for r
      using assms(1) unfolding cstr_ok_def by (induction s) auto
    ultimately show ?thesis by simp
  qed
  ultimately show ?thesis by (simp add: read_cstr_def)
qed

lemma read_cstr_get: "off + n \<le> length b \<Longrightarrow> read_cstr (drop off b) n = read_cstr (get_bytes off n b) n"
  by (simp add: read_cstr_def get_bytes_def)

section \<open>Round trip\<close>

lemma write_cstr_cases:
  "write_cstr off maxlen s b = Inr b' \<longleftrightarrow>
     length s < maxlen \<and> b' = put_bytes off s (put_bytes off (zeros maxlen) b)"
  by (auto simp: write_cstr_def)

lemma write_cstr_field:
  assumes "off + maxlen \<le> length b" "length s < maxlen"
  shows "put_bytes off s (put_bytes off (zeros maxlen) b) =
         put_bytes off (s @ zeros (maxlen - length s)) b"
  using assms by (simp add: put_bytes_def zeros_def min_def)

lemma read_cstr_field:
  assumes "get_bytes off n b = s @ zeros (n - length s)" "off + n \<le> length b"
    "cstr_ok s" "length s < n"
  shows "read_cstr (drop off b) n = s"
  using read_cstr_padded [of s n "[]"] assms by (simp add: read_cstr_get)

definition ht_strings_ok :: "HeaderTrailer \<Rightarrow> bool" where
  "ht_strings_ok ht \<longleftrightarrow> length (ht_uuid ht) < 37 \<and> length (ht_parent_uuid ht) < 37 \<and>
     length (ht_user_tag ht) < 256"

definition ht_cstrs_ok :: "HeaderTrailer \<Rightarrow> bool" where
  "ht_cstrs_ok ht \<longleftrightarrow> cstr_ok (ht_uuid ht) \<and> cstr_ok (ht_parent_uuid ht) \<and> cstr_ok (ht_user_tag ht)"

text \<open>The region \<open>serialize\<close> produces, field after field.\<close>

definition ht_fields :: "HeaderTrailer \<Rightarrow> bytes" where
  "ht_fields ht = kMagic0 @ kMagic1 @ store_u32_le (of_nat kHeaderSize) @ store_u32_le (ht_flags ht) @
     store_u64_le (ht_index_offset ht) @ store_u64_le (ht_index_size ht) @
     store_u64_le (ht_virtual_size ht) @
     (ht_uuid ht @ zeros (37 - length (ht_uuid ht))) @
     (ht_parent_uuid ht @ zeros (37 - length (ht_parent_uuid ht))) @
     store_u16_le (ht_reserved ht) @ [ht_version ht] @ [ht_sub_version ht] @
     (ht_user_tag ht @ zeros (256 - length (ht_user_tag ht))) @ zeros (kSpace - kHeaderSize)"

lemma put_at_end: "length b = off \<Longrightarrow> put_bytes off bs (b @ zeros n) = (b @ bs) @ zeros (n - length bs)"
  by (simp add: put_bytes_def)

lemma length_magic [simp]: "length kMagic0 = 8" "length kMagic1 = 16"
  by (simp_all add: kMagic0_def kMagic1_def)

lemma write_cstr_at_end:
  assumes "length b = off" "length s < maxlen" "maxlen \<le> n"
  shows "write_cstr off maxlen s (b @ zeros n) = Inr ((b @ (s @ zeros (maxlen - length s))) @ zeros (n - maxlen))"
  using assms by (simp add: write_cstr_cases write_cstr_field put_at_end)

lemma serialize_ht_ok:
  assumes "ht_strings_ok ht"
  shows "serialize_ht ht = Inr (ht_fields ht)"
proof -
  have z: "zeros kSpace = [] @ zeros 4096" by (simp add: kSpace_def)
  show ?thesis
    using assms unfolding serialize_ht_def Let_def ht_strings_ok_def z
    by (simp add: put_at_end write_cstr_at_end ht_fields_def kSpace_def kHeaderSize_def
        del: append.simps append_assoc)
qed

lemma ht_fields_offsets:
  assumes "ht_strings_ok ht"
  shows "get_bytes 0 8 (ht_fields ht) = kMagic0" "get_bytes 8 16 (ht_fields ht) = kMagic1"
    "load_u32_le (drop 24 (ht_fields ht)) = of_nat kHeaderSize"
    "load_u32_le (drop 28 (ht_fields ht)) = ht_flags ht"
    "load_u64_le (drop 32 (ht_fields ht)) = ht_index_offset ht"
    "load_u64_le (drop 40 (ht_fields ht)) = ht_index_size ht"
    "load_u64_le (drop 48 (ht_fields ht)) = ht_virtual_size ht"
    "load_u16_le (drop 130 (ht_fields ht)) = ht_reserved ht"
  using assms
  by (simp_all add: ht_fields_def ht_strings_ok_def get_bytes_def)

lemma length_ht_fields: "ht_strings_ok ht \<Longrightarrow> length (ht_fields ht) = kSpace"
  by (simp add: ht_fields_def ht_strings_ok_def kSpace_def kHeaderSize_def)

lemma ht_fields_versions:
  assumes "ht_strings_ok ht"
  shows "ht_fields ht ! 132 = ht_version ht" "ht_fields ht ! 133 = ht_sub_version ht"
proof -
  have "drop 132 (ht_fields ht) ! 0 = ht_version ht" "drop 132 (ht_fields ht) ! 1 = ht_sub_version ht"
    using assms by (simp_all add: ht_fields_def ht_strings_ok_def)
  then show "ht_fields ht ! 132 = ht_version ht" "ht_fields ht ! 133 = ht_sub_version ht"
    using length_ht_fields [OF assms] by (simp_all add: kSpace_def)
qed

lemma ht_fields_strings:
  assumes "ht_strings_ok ht" "ht_cstrs_ok ht"
  shows "read_cstr (drop 56 (ht_fields ht)) 37 = ht_uuid ht"
    "read_cstr (drop 93 (ht_fields ht)) 37 = ht_parent_uuid ht"
    "read_cstr (drop 134 (ht_fields ht)) 256 = ht_user_tag ht"
  using assms
  by (simp_all add: ht_fields_def ht_strings_ok_def ht_cstrs_ok_def read_cstr_padded del: zeros_append)

lemma parse_serialize_ht:
  assumes "ht_strings_ok ht" "ht_cstrs_ok ht" "ht_size ht = of_nat kHeaderSize"
  shows "parse_ht (ht_fields ht) = Inr ht"
  using assms by (simp add: parse_ht_def ht_fields_offsets ht_fields_versions ht_fields_strings)

lemma serialize_ht_error:
  assumes "\<not> ht_strings_ok ht"
  shows "serialize_ht ht = Inl EINVAL"
  using assms unfolding serialize_ht_def Let_def ht_strings_ok_def
  by (auto simp: write_cstr_def)

lemma parse_ht_error: "parse_ht b = Inl e \<Longrightarrow> e = EINVAL"
  by (auto simp: parse_ht_def split: if_splits)

lemma parse_ht_size: "parse_ht b = Inr ht \<Longrightarrow> ht_size ht = of_nat kHeaderSize"
  by (auto simp: parse_ht_def split: if_splits)

lemma read_cstr_ok: "cstr_ok (read_cstr b n)"
  by (auto simp: cstr_ok_def read_cstr_def dest: set_takeWhileD)

text \<open>C28: Writing a header or trailer and reading it back. \<open>serialize\<close> throws exactly when one of the
  three string fields does not fit with its terminating NUL; otherwise it fills one 4096-byte
  region, and \<open>parse\<close> of that region returns every field unchanged, for every header whose size
  field is the format's constant and whose strings contain no NUL.\<close>

theorem header_roundtrip:
  "if ht_strings_ok ht
   then \<exists>region. serialize_ht ht = Inr region \<and> length region = kSpace \<and>
          (ht_cstrs_ok ht \<and> ht_size ht = of_nat kHeaderSize \<longrightarrow> parse_ht region = Inr ht)
   else serialize_ht ht = Inl EINVAL"
  using serialize_ht_error [of ht] serialize_ht_ok [of ht] parse_serialize_ht [of ht]
    length_ht_fields [of ht] by simp

theorem header_roundtrip_witness:
  "let ht = set_flag_bit kFlagShiftHeader (default_ht\<lparr>ht_uuid := [0x61, 0x62]\<rparr>)
   in ht_strings_ok ht \<and> ht_cstrs_ok ht \<and>
      (\<exists>region. serialize_ht ht = Inr region \<and> parse_ht region = Inr ht)"
  using header_roundtrip [of "set_flag_bit kFlagShiftHeader (default_ht\<lparr>ht_uuid := [0x61, 0x62]\<rparr>)"]
  by (auto simp: Let_def ht_strings_ok_def ht_cstrs_ok_def cstr_ok_def set_flag_bit_def default_ht_def)

end
