(* ===== verification/Segments.thy ===== *)
theory Segments
  imports Bytes
begin

text \<open>
  The meaning of a segment index, shared by every component that keeps one. An index is a list
  of mappings; \<open>lookup\<close> says for each logical sector which mapping owns it and where its payload
  is. The invariant \<open>wf_segs\<close> (sorted, disjoint, no empty mapping) is the contract of
  \<open>WritableLayer::segments()\<close> and \<open>LsmtLayer::segments()\<close>; under it the order of the list does
  not matter for \<open>lookup\<close>, binary search is sound, and cutting or joining mappings is described
  by \<open>lookup\<close> alone.
\<close>

definition covers :: "segment_mapping \<Rightarrow> nat \<Rightarrow> bool" where
  "covers s x \<longleftrightarrow> s_offset s \<le> x \<and> x < seg_end s"

text \<open>The physical sector behind logical sector \<open>x\<close>: none for a zeroed mapping.\<close>

definition place :: "segment_mapping \<Rightarrow> nat \<Rightarrow> nat option" where
  "place s x = (if s_zeroed s then None else Some (s_moffset s + (x - s_offset s)))"

type_synonym owner = "nat \<times> nat option"

primrec lookup :: "segment_mapping list \<Rightarrow> nat \<Rightarrow> owner option" where
  "lookup [] x = None"
| "lookup (s # ss) x = (if covers s x then Some (s_tag s, place s x) else lookup ss x)"

definition wf_segs :: "segment_mapping list \<Rightarrow> bool" where
  "wf_segs v \<longleftrightarrow> sorted_wrt (\<lambda>a b. seg_end a \<le> s_offset b) v \<and> (\<forall>s \<in> set v. 0 < s_length s)"

section \<open>Lookup in a list\<close>

lemma lookup_append [seg_simps]:
  "lookup (a @ b) x = (case lookup a x of None \<Rightarrow> lookup b x | Some v \<Rightarrow> Some v)"
  by (induction a) auto

lemma lookup_None_iff: "lookup v x = None \<longleftrightarrow> (\<forall>s \<in> set v. \<not> covers s x)"
  by (induction v) auto

lemma lookup_SomeD: "lookup v x = Some w \<Longrightarrow> \<exists>s \<in> set v. covers s x \<and> w = (s_tag s, place s x)"
  by (induction v) (auto split: if_splits)

lemma lookup_below: "\<forall>s \<in> set v. x < s_offset s \<Longrightarrow> lookup v x = None"
  by (auto simp: lookup_None_iff covers_def)

lemma lookup_above: "\<forall>s \<in> set v. seg_end s \<le> x \<Longrightarrow> lookup v x = None"
  by (auto simp: lookup_None_iff covers_def)

lemma seg_end_gt: "0 < s_length s \<Longrightarrow> s_offset s < seg_end s"
  by (simp add: seg_end_def)

section \<open>Well-formed indexes\<close>

lemma wf_segs_Nil [simp, intro]: "wf_segs []"
  by (simp add: wf_segs_def)

lemma wf_segs_Cons [seg_simps]:
  "wf_segs (s # v) \<longleftrightarrow> 0 < s_length s \<and> (\<forall>t \<in> set v. seg_end s \<le> s_offset t) \<and> wf_segs v"
  by (auto simp: wf_segs_def)

lemma wf_segs_append [seg_simps]:
  "wf_segs (a @ b) \<longleftrightarrow> wf_segs a \<and> wf_segs b \<and> (\<forall>s \<in> set a. \<forall>t \<in> set b. seg_end s \<le> s_offset t)"
  by (auto simp: wf_segs_def sorted_wrt_append)

lemma wf_segs_single [simp]: "wf_segs [s] \<longleftrightarrow> 0 < s_length s"
  by (simp add: wf_segs_def)

lemma wf_segs_pos: "wf_segs v \<Longrightarrow> s \<in> set v \<Longrightarrow> 0 < s_length s"
  by (simp add: wf_segs_def)

text \<open>In a well-formed index at most one mapping covers a sector, and \<open>lookup\<close> finds it.\<close>

lemma lookup_memI:
  "wf_segs v \<Longrightarrow> s \<in> set v \<Longrightarrow> covers s x \<Longrightarrow> lookup v x = Some (s_tag s, place s x)"
proof (induction v)
  case (Cons t v)
  then show ?case by (fastforce simp: wf_segs_Cons covers_def)
qed simp

lemma lookup_before_head: "wf_segs (s # v) \<Longrightarrow> x < s_offset s \<Longrightarrow> lookup (s # v) x = None"
  by (rule lookup_below) (force simp: wf_segs_Cons seg_end_def)

text \<open>Binary search for the first mapping that ends after \<open>x\<close> skips nothing that matters.\<close>

lemma lookup_upper_bound: "lo \<le> x \<Longrightarrow> lookup (upper_bound seg_end lo v) x = lookup v x"
proof -
  assume "lo \<le> x"
  obtain pre where v: "v = pre @ upper_bound seg_end lo v" and le: "\<forall>s \<in> set pre. seg_end s \<le> lo"
    using upper_bound_split [of v seg_end lo] by blast
  have "lookup pre x = None"
    using le \<open>lo \<le> x\<close> by (force intro: lookup_above)
  then have "lookup (pre @ upper_bound seg_end lo v) x = lookup (upper_bound seg_end lo v) x"
    by (simp add: lookup_append)
  then show ?thesis using v by simp
qed

lemma upper_bound_wf:
  assumes "wf_segs v"
  shows "wf_segs (upper_bound key lo v)"
proof -
  obtain pre where "v = pre @ upper_bound key lo v"
    using upper_bound_split [of v key lo] by blast
  with assms have "wf_segs (pre @ upper_bound key lo v)" by simp
  then show ?thesis by (simp add: wf_segs_append)
qed

lemma upper_bound_subset: "set (upper_bound key lo v) \<subseteq> set v"
  unfolding upper_bound_def using set_dropWhileD by fastforce

lemma wf_segs_ends_gt:
  "wf_segs (s # v) \<Longrightarrow> lo < seg_end s \<Longrightarrow> t \<in> set (s # v) \<Longrightarrow> lo < seg_end t"
  by (fastforce simp: wf_segs_Cons seg_end_def)

lemma upper_bound_ends:
  assumes "wf_segs v" and "s \<in> set (upper_bound seg_end lo v)"
  shows "lo < seg_end s"
proof (cases "upper_bound seg_end lo v")
  case (Cons t u)
  have "lo < seg_end t" using Cons by (rule upper_bound_hd)
  then show ?thesis
    using wf_segs_ends_gt [of t u lo s] upper_bound_wf [OF assms(1), of seg_end lo] assms(2) Cons
    by simp
qed (use assms in simp)

section \<open>Sub-ranges of a mapping\<close>

text \<open>
  Every operation that trims a mapping does it the same way: the physical offset advances with
  the logical one, except in a zeroed mapping, which has no payload.
\<close>

definition clip :: "nat \<Rightarrow> nat \<Rightarrow> segment_mapping \<Rightarrow> segment_mapping" where
  "clip lo hi s =
     (let a = max lo (s_offset s); b = min hi (seg_end s)
      in s\<lparr>s_offset := a, s_length := b - a,
           s_moffset := (if s_zeroed s then s_moffset s else s_moffset s + (a - s_offset s))\<rparr>)"

lemma clip_simps [simp]:
  "s_offset (clip lo hi s) = max lo (s_offset s)"
  "s_length (clip lo hi s) = min hi (seg_end s) - max lo (s_offset s)"
  "s_zeroed (clip lo hi s) = s_zeroed s" "s_tag (clip lo hi s) = s_tag s"
  by (simp_all add: clip_def Let_def)

lemma seg_end_clip:
  "max lo (s_offset s) < min hi (seg_end s) \<Longrightarrow> seg_end (clip lo hi s) = min hi (seg_end s)"
  by (simp add: seg_end_def clip_def Let_def)

lemma covers_clip: "covers (clip lo hi s) x \<longleftrightarrow> lo \<le> x \<and> x < hi \<and> covers s x"
  by (auto simp: covers_def clip_def Let_def seg_end_def)

lemma place_clip: "covers (clip lo hi s) x \<Longrightarrow> place (clip lo hi s) x = place s x"
  by (auto simp: place_def covers_def clip_def Let_def)

section \<open>Inserting and replacing ranges\<close>

definition seg_disj :: "segment_mapping \<Rightarrow> segment_mapping \<Rightarrow> bool" where
  "seg_disj s t \<longleftrightarrow> seg_end s \<le> s_offset t \<or> seg_end t \<le> s_offset s"

lemma seg_disj_sym: "seg_disj s t \<longleftrightarrow> seg_disj t s"
  by (auto simp: seg_disj_def)

text \<open>In a well-formed index the order does not matter for \<open>lookup\<close>, only the set.\<close>

lemma lookup_set_cong:
  assumes "wf_segs u" "set v = set u"
  shows "lookup v x = lookup u x"
proof (cases "lookup v x")
  case None
  then show ?thesis using assms(2) lookup_None_iff [of v x] lookup_None_iff [of u x] by simp
next
  case (Some w)
  then obtain s where "s \<in> set u" "covers s x" "w = (s_tag s, place s x)"
    using lookup_SomeD assms(2) by blast
  then show ?thesis using lookup_memI [OF assms(1)] Some by simp
qed

text \<open>Insertion by offset, as into an ordered map.\<close>

fun emplace :: "segment_mapping \<Rightarrow> segment_mapping list \<Rightarrow> segment_mapping list" where
  "emplace s [] = [s]"
| "emplace s (t # v) =
     (if s_offset s < s_offset t then s # t # v
      else if s_offset s = s_offset t then t # v
      else t # emplace s v)"

lemma emplace_disjoint:
  assumes "wf_segs v" "0 < s_length s" "\<forall>t \<in> set v. seg_disj s t"
  shows "wf_segs (emplace s v) \<and> set (emplace s v) = insert s (set v)"
  using assms
proof (induction v)
  case (Cons t v)
  have ends: "s_offset t < seg_end t" "s_offset s < seg_end s"
    using Cons.prems by (auto simp: wf_segs_Cons seg_end_def)
  have disj: "seg_disj s t" "\<forall>u \<in> set v. seg_disj s u" using Cons.prems(3) by auto
  consider (lt) "s_offset s < s_offset t" | (gt) "s_offset s > s_offset t" | (eq) "s_offset s = s_offset t"
    by linarith
  then show ?case
  proof cases
    case lt
    then have st: "seg_end s \<le> s_offset t" using disj(1) ends by (auto simp: seg_disj_def)
    moreover have "seg_end s \<le> s_offset u" if "u \<in> set v" for u
      using st ends Cons.prems(1) that by (force simp: wf_segs_Cons)
    ultimately show ?thesis using lt Cons.prems(1,2) by (auto simp: wf_segs_Cons)
  next
    case gt
    have "wf_segs (emplace s v)" "set (emplace s v) = insert s (set v)"
      using Cons.IH Cons.prems(1,2) disj(2) by (auto simp: wf_segs_Cons)
    moreover have "seg_end t \<le> s_offset s" using gt disj(1) ends by (auto simp: seg_disj_def)
    ultimately show ?thesis using gt Cons.prems(1) by (auto simp: wf_segs_Cons)
  next
    case eq
    then show ?thesis using disj(1) ends by (auto simp: seg_disj_def)
  qed
qed simp

lemma fold_emplace_disjoint:
  assumes "wf_segs v" "\<forall>s \<in> set ps. 0 < s_length s" "sorted_wrt seg_disj ps"
    "\<forall>s \<in> set ps. \<forall>t \<in> set v. seg_disj s t"
  shows "wf_segs (fold emplace ps v) \<and> set (fold emplace ps v) = set ps \<union> set v"
  using assms
proof (induction ps arbitrary: v)
  case (Cons s ps)
  have e: "wf_segs (emplace s v)" "set (emplace s v) = insert s (set v)"
    using emplace_disjoint [of v s] Cons.prems by auto
  then show ?case using Cons.IH [of "emplace s v"] Cons.prems by (auto simp: seg_disj_sym)
qed simp

text \<open>A well-formed index is determined by its set of mappings.\<close>

lemma wf_segs_unique:
  assumes "wf_segs u" "wf_segs v" "set u = set v"
  shows "u = v"
  using assms
proof (induction u arbitrary: v)
  case (Cons s u)
  then obtain t w where v: "v = t # w" by (cases v) auto
  have "s = t"
  proof (rule ccontr)
    assume "s \<noteq> t"
    then have "s \<in> set w" "t \<in> set u" using Cons.prems(3) v by auto
    then have "seg_end t \<le> s_offset s" "seg_end s \<le> s_offset t"
      using Cons.prems(1,2) by (auto simp: v wf_segs_Cons)
    moreover have "0 < s_length s" using Cons.prems(1) by (simp add: wf_segs_Cons)
    ultimately show False by (simp add: seg_end_def)
  qed
  moreover have "s \<notin> set u" "t \<notin> set w"
    using Cons.prems(1,2) by (force simp: v wf_segs_Cons seg_end_def)+
  ultimately have "set u = set w" using Cons.prems(3) by (auto simp: v insert_ident)
  then show ?case using Cons.IH [of w] Cons.prems(1,2) \<open>s = t\<close> by (simp add: v wf_segs_Cons)
qed simp

end
