(* ===== verification/LsmtRwIndex.thy ===== *)
theory LsmtRwIndex
  imports LsmtFormat Segments "HOL-Library.Product_Lexorder"
begin

text \<open>
  \<open>src/format/lsmt_rw_index.cpp\<close>: validation of a writable data/index pair and \<open>Replay\<close>, which
  rebuilds the live mappings from the append-only log. The \<open>std::map\<close> keyed by offset is the list
  of its values in key order and \<open>emplace\<close> its insertion. The specification of a log is \<open>log_owner\<close>: the last record that
  covers a sector owns it.
\<close>

definition kMaxLogRecords :: nat where "kMaxLogRecords = 4 * kMaxRoIndexSize"

section \<open>Pair validation\<close>

definition isxdigit :: "byte \<Rightarrow> bool" where
  "isxdigit c \<longleftrightarrow> (0x30 \<le> c \<and> c \<le> 0x39) \<or> (0x41 \<le> c \<and> c \<le> 0x46) \<or> (0x61 \<le> c \<and> c \<le> 0x66)"

definition valid_uuid :: "bytes \<Rightarrow> bool" where
  "valid_uuid uuid \<longleftrightarrow> length uuid = 36 \<and>
     (\<forall>i < 36. if i = 8 \<or> i = 13 \<or> i = 18 \<or> i = 23 then uuid ! i = 0x2D else isxdigit (uuid ! i))"

definition validate_pair :: "HeaderTrailer \<Rightarrow> HeaderTrailer \<Rightarrow> nat \<Rightarrow> nat \<Rightarrow> nat result" where
  "validate_pair data index data_bytes index_bytes =
     (if ht_flags data \<noteq> 3 \<or> ht_flags index \<noteq> 1 \<or> ht_version data \<noteq> 1 \<or> ht_version index \<noteq> 1 \<or>
         ht_sub_version data \<noteq> 1 \<or> ht_sub_version index \<noteq> 1 \<or>
         ht_reserved data \<noteq> 0 \<or> ht_reserved index \<noteq> 0 then Inl EINVAL
      else if \<not> valid_uuid (ht_uuid data) \<or> ht_uuid data \<noteq> ht_uuid index \<or>
         ht_parent_uuid data \<noteq> ht_parent_uuid index \<or>
         (ht_parent_uuid data \<noteq> [] \<and> \<not> valid_uuid (ht_parent_uuid data)) \<or>
         ht_virtual_size data \<noteq> ht_virtual_size index then Inl EINVAL
      else if unat (ht_virtual_size data) = 0 \<or> unat (ht_virtual_size data) mod kAlignment \<noteq> 0 \<or>
         unat (ht_virtual_size data) div kAlignment > kMaxOffset \<or>
         data_bytes < kSpace \<or> data_bytes mod kAlignment \<noteq> 0 \<or>
         data_bytes div kAlignment \<ge> kMaxMoffset then Inl EINVAL
      else if ht_index_offset data \<noteq> 0 \<or> ht_index_size data \<noteq> 0 \<or>
         unat (ht_index_offset index) \<noteq> kSpace \<or> ht_index_size index \<noteq> 0 \<or>
         index_bytes < kSpace \<or> (index_bytes - kSpace) mod kEncodedSize \<noteq> 0 then Inl EINVAL
      else let count = (index_bytes - kSpace) div kEncodedSize in
        if count > kMaxLogRecords then Inl EINVAL else Inr count)"

section \<open>Replay of the log\<close>

record Replay =
  r_sectors :: nat
  r_data_sectors :: nat
  r_records :: nat
  r_live :: "segment_mapping list"

definition replay_new :: "nat \<Rightarrow> nat \<Rightarrow> Replay result" where
  "replay_new virtual_size data_bytes =
     (let sectors = virtual_size div kAlignment; data_sectors = data_bytes div kAlignment in
      if virtual_size = 0 \<or> virtual_size mod kAlignment \<noteq> 0 \<or> sectors > kMaxOffset \<or>
         data_bytes < kSpace \<or> data_bytes mod kAlignment \<noteq> 0 \<or> data_sectors \<ge> kMaxMoffset
      then Inl EINVAL
      else Inr \<lparr>r_sectors = sectors, r_data_sectors = data_sectors, r_records = 0, r_live = []\<rparr>)"

text \<open>What remains of an old mapping around the new one.\<close>

definition retained :: "segment_mapping \<Rightarrow> segment_mapping \<Rightarrow> segment_mapping list" where
  "retained m old =
     (if s_offset old < s_offset m then [old\<lparr>s_length := s_offset m - s_offset old\<rparr>] else []) @
     (if seg_end old > seg_end m then
        [old\<lparr>s_offset := seg_end m, s_length := seg_end old - seg_end m,
             s_moffset := (if \<not> s_zeroed old then s_moffset old + (seg_end m - s_offset old)
                           else s_moffset old)\<rparr>] else [])"

text \<open>Locating a range in an ordered map: \<open>lower_bound\<close> of the start, one step back when the entry
  before it reaches into the range, then the entries that start before the end of the range. The
  result is what lies before, what is hit, and the rest.\<close>

definition cut_range :: "('a \<Rightarrow> nat) \<Rightarrow> ('a \<Rightarrow> nat) \<Rightarrow> nat \<Rightarrow> nat \<Rightarrow> 'a list \<Rightarrow> 'a list \<times> 'a list \<times> 'a list" where
  "cut_range key fin lo hi live =
     (let before = takeWhile (\<lambda>s. key s < lo) live;
          it = dropWhile (\<lambda>s. key s < lo) live;
          back = (before \<noteq> [] \<and> fin (last before) > lo);
          kept = (if back then butlast before else before);
          it' = (if back then last before # it else it)
      in (kept, takeWhile (\<lambda>s. key s < hi) it', dropWhile (\<lambda>s. key s < hi) it'))"

definition map_replace :: "segment_mapping \<Rightarrow> segment_mapping list \<Rightarrow> segment_mapping list" where
  "map_replace m live =
     (let (kept, hit, rest) = cut_range s_offset seg_end (s_offset m) (seg_end m) live
      in emplace m (fold emplace (concat (map (retained m) hit)) (kept @ rest)))"

definition replay_step :: "Replay \<Rightarrow> segment_mapping \<Rightarrow> Replay result" where
  "replay_step r m =
     (if s_offset m = kInvalidOffset then Inr r
      else if s_length m = 0 \<or> s_offset m \<ge> r_sectors r \<or> s_length m > r_sectors r - s_offset m
      then Inl EINVAL
      else if \<not> s_zeroed m \<and> (s_moffset m < kDataStartSector \<or> s_moffset m \<ge> r_data_sectors r \<or>
              s_length m > r_data_sectors r - s_moffset m) then Inl EINVAL
      else let m' = (if s_zeroed m then m\<lparr>s_moffset := kDataStartSector\<rparr> else m)\<lparr>s_tag := 0\<rparr>;
               live = map_replace m' (r_live r)
           in if length live > kMaxRoIndexSize then Inl EINVAL else Inr (r\<lparr>r_live := live\<rparr>))"

function replay_loop :: "Replay \<Rightarrow> bytes \<Rightarrow> Replay result" where
  "replay_loop r records =
     (if records = [] then Inr r
      else bindR (replay_step r (load_segment_le records)) (\<lambda>r'. replay_loop r' (drop kEncodedSize records)))"
  by pat_completeness auto
termination by (relation "measure (\<lambda>(r, records). length records)") (auto simp: kEncodedSize_def)

declare replay_loop.simps [simp del]

definition replay_append :: "Replay \<Rightarrow> bytes \<Rightarrow> Replay result" where
  "replay_append r records =
     (if length records mod kEncodedSize \<noteq> 0 \<or>
         length records div kEncodedSize > kMaxLogRecords - r_records r then Inl EINVAL
      else replay_loop (r\<lparr>r_records := r_records r + length records div kEncodedSize\<rparr>) records)"

text \<open>The physical extents in sorted order must not overlap.\<close>

fun no_alias :: "(nat \<times> nat) list \<Rightarrow> bool" where
  "no_alias (a # b # v) \<longleftrightarrow> \<not> (fst b < snd a) \<and> no_alias (b # v)"
| "no_alias _ \<longleftrightarrow> True"

definition physical :: "segment_mapping list \<Rightarrow> (nat \<times> nat) list" where
  "physical v = map (\<lambda>m. (s_moffset m, seg_mend m)) (filter (\<lambda>m. \<not> s_zeroed m) v)"

definition replay_finish :: "Replay \<Rightarrow> segment_mapping list result" where
  "replay_finish r = (if no_alias (sort (physical (r_live r))) then Inr (r_live r) else Inl EINVAL)"

section \<open>What one record does\<close>

definition overlaps :: "segment_mapping \<Rightarrow> segment_mapping \<Rightarrow> bool" where
  "overlaps m old \<longleftrightarrow> s_offset old < seg_end m \<and> s_offset m < seg_end old"

lemma lookup_retained:
  assumes "overlaps m old" "0 < s_length m" "\<not> covers m x"
  shows "lookup (retained m old) x = lookup [old] x"
  using assms by (auto simp: retained_def overlaps_def covers_def place_def seg_end_def)

lemma lookup_retained_all:
  assumes "\<forall>old \<in> set hit. overlaps m old" "0 < s_length m" "\<not> covers m x"
  shows "lookup (concat (map (retained m) hit)) x = lookup hit x"
  using assms
proof (induction hit)
  case (Cons old hit)
  have "lookup (retained m old) x = lookup [old] x" using Cons.prems by (intro lookup_retained) auto
  then show ?case using Cons by (simp add: lookup_append)
qed simp

lemma retained_props:
  assumes "overlaps m old" "0 < s_length m" "p \<in> set (retained m old)"
  shows "0 < s_length p" "seg_disj p m" "s_offset old \<le> s_offset p" "seg_end p \<le> seg_end old"
    "s_tag p = s_tag old" "s_zeroed p = s_zeroed old" "s_zeroed p \<Longrightarrow> s_moffset p = s_moffset old"
  using assms by (auto simp: retained_def overlaps_def seg_disj_def seg_end_def split: if_splits)

lemma retained_sorted:
  assumes "wf_segs hit" "\<forall>old \<in> set hit. overlaps m old" "0 < s_length m"
  shows "sorted_wrt seg_disj (concat (map (retained m) hit))"
  using assms
proof (induction hit)
  case (Cons old hit)
  have "sorted_wrt seg_disj (retained m old)"
    by (auto simp: retained_def seg_disj_def seg_end_def)
  moreover have "seg_disj p q" if "p \<in> set (retained m old)" "t \<in> set hit" "q \<in> set (retained m t)" for p t q
  proof -
    have "seg_end old \<le> s_offset t" using Cons.prems(1) that by (simp add: wf_segs_Cons)
    moreover have "seg_end p \<le> seg_end old" "s_offset t \<le> s_offset q"
      using retained_props [of m old p] retained_props [of m t q] that Cons.prems by auto
    ultimately show ?thesis by (simp add: seg_disj_def)
  qed
  ultimately show ?case
    using Cons by (auto simp: sorted_wrt_append wf_segs_Cons)
qed simp

text \<open>How the map is cut around the new range.\<close>

lemma dropWhile_offset_ge:
  assumes "wf_segs v" "s \<in> set (dropWhile (\<lambda>s. s_offset s < c) v)"
  shows "c \<le> s_offset s"
  using assms by (induction v) (auto simp: wf_segs_Cons seg_end_def split: if_splits)

lemma wf_last_end:
  assumes "wf_segs (v @ [b])" "s \<in> set v"
  shows "seg_end s \<le> s_offset b"
  using assms by (simp add: wf_segs_append)

lemma cut_overlaps:
  assumes "wf_segs v" "\<forall>s \<in> set v. s_offset m < seg_end s"
  shows "\<forall>s \<in> set (takeWhile (\<lambda>s. s_offset s < seg_end m) v). overlaps m s"
  using assms set_takeWhileD by (fastforce simp: overlaps_def)

lemma map_replace_cut:
  assumes "wf_segs live" "0 < s_length m"
  obtains kept hit rest where "live = kept @ hit @ rest"
    "cut_range s_offset seg_end (s_offset m) (seg_end m) live = (kept, hit, rest)"
    "\<forall>s \<in> set kept. seg_end s \<le> s_offset m" "\<forall>s \<in> set rest. seg_end m \<le> s_offset s"
    "\<forall>s \<in> set hit. overlaps m s"
proof -
  let ?B = "takeWhile (\<lambda>s. s_offset s < s_offset m) live"
  let ?I = "dropWhile (\<lambda>s. s_offset s < s_offset m) live"
  let ?tail = "?B \<noteq> [] \<and> seg_end (last ?B) > s_offset m"
  define kept where "kept = (if ?tail then butlast ?B else ?B)"
  define it where "it = (if ?tail then last ?B # ?I else ?I)"
  have BI: "?B @ ?I = live" by simp
  have live: "live = kept @ it"
  proof (cases ?tail)
    case True
    then have "(butlast ?B @ [last ?B]) @ ?I = live" by simp
    then show ?thesis using True unfolding kept_def it_def by (simp only: append_assoc append.simps simp_thms if_True)
  next
    case False
    then show ?thesis using BI unfolding kept_def it_def by presburger
  qed
  have wf: "wf_segs kept" "wf_segs it" using assms(1) live by (auto simp: wf_segs_append)
  have kept: "\<forall>s \<in> set kept. seg_end s \<le> s_offset m"
  proof (cases "?B = []")
    case False
    then obtain B b where B: "?B = B @ [b]" by (metis append_butlast_last_id)
    have wfB: "wf_segs (B @ [b])" using assms(1) BI B wf_segs_append [of "B @ [b]" ?I] by simp
    have "b \<in> set ?B" by (simp add: B)
    then have b: "s_offset b < s_offset m" by (auto dest: set_takeWhileD)
    have "seg_end s \<le> s_offset m" if "s \<in> set B" for s
      using wf_last_end [OF wfB that] b by simp
    then show ?thesis by (auto simp: kept_def B)
  qed (simp add: kept_def)
  have it: "\<forall>s \<in> set it. s_offset m < seg_end s"
  proof
    fix s assume s: "s \<in> set it"
    then have "s \<in> set ?I \<or> ?tail \<and> s = last ?B" by (auto simp: it_def split: if_splits)
    then show "s_offset m < seg_end s"
      using dropWhile_offset_ge [OF assms(1), of s "s_offset m"] seg_end_gt [OF wf_segs_pos [OF wf(2) s]]
      by (elim disjE) auto
  qed
  let ?hit = "takeWhile (\<lambda>s. s_offset s < seg_end m) it" and ?rest = "dropWhile (\<lambda>s. s_offset s < seg_end m) it"
  show thesis
  proof (rule that)
    show "live = kept @ ?hit @ ?rest" using live by simp
    show "cut_range s_offset seg_end (s_offset m) (seg_end m) live = (kept, ?hit, ?rest)"
      by (simp add: cut_range_def Let_def kept_def it_def)
    show "\<forall>s \<in> set ?rest. seg_end m \<le> s_offset s" using dropWhile_offset_ge [OF wf(2)] by blast
    show "\<forall>s \<in> set ?hit. overlaps m s" by (rule cut_overlaps [OF wf(2) it])
  qed (rule kept)
qed

text \<open>The parts are pairwise disjoint.\<close>

lemma map_replace_parts:
  assumes "wf_segs live" "0 < s_length m"
  obtains kept hit rest where "live = kept @ hit @ rest"
    "cut_range s_offset seg_end (s_offset m) (seg_end m) live = (kept, hit, rest)"
    "\<forall>s \<in> set hit. overlaps m s" "wf_segs (kept @ rest)"
    "\<forall>p \<in> set (concat (map (retained m) hit)). 0 < s_length p"
    "sorted_wrt seg_disj (concat (map (retained m) hit))"
    "\<forall>p \<in> set (concat (map (retained m) hit)). \<forall>t \<in> set (kept @ rest). seg_disj p t"
    "\<forall>t \<in> set (concat (map (retained m) hit)) \<union> set (kept @ rest). seg_disj m t"
proof -
  obtain kept hit rest where c: "live = kept @ hit @ rest"
    "cut_range s_offset seg_end (s_offset m) (seg_end m) live = (kept, hit, rest)"
    "\<forall>s \<in> set kept. seg_end s \<le> s_offset m" "\<forall>s \<in> set rest. seg_end m \<le> s_offset s"
    "\<forall>s \<in> set hit. overlaps m s"
    using map_replace_cut [OF assms] .
  let ?ps = "concat (map (retained m) hit)" and ?w = "kept @ rest"
  have wf: "wf_segs ?w" "wf_segs hit" using assms(1) by (auto simp: c(1) wf_segs_append)
  have cross: "seg_disj p t" if p: "p \<in> set ?ps" and t: "t \<in> set ?w" for p t
  proof -
    obtain old where old: "old \<in> set hit" "p \<in> set (retained m old)" using p by auto
    have "s_offset old \<le> s_offset p" "seg_end p \<le> seg_end old"
      using retained_props [of m old p] old c(5) assms(2) by auto
    moreover have "seg_end t \<le> s_offset old \<or> seg_end old \<le> s_offset t"
      using t old(1) assms(1) by (auto simp: c(1) wf_segs_append)
    ultimately show ?thesis by (auto simp: seg_disj_def)
  qed
  have ps: "\<forall>p \<in> set ?ps. 0 < s_length p" "\<forall>p \<in> set ?ps. seg_disj m p"
    using retained_props(1,2) c(5) assms(2) seg_disj_sym [of m] by auto
  have "\<forall>t \<in> set ?ps \<union> set ?w. seg_disj m t"
    using ps(2) c(3,4) by (auto simp: seg_disj_def)
  then show thesis
    using that c(1,2,5) wf(1) ps(1) retained_sorted [OF wf(2) c(5) assms(2)] cross by blast
qed

lemma map_replace_correct:
  assumes "wf_segs live" "0 < s_length m"
  shows "wf_segs (map_replace m live)"
    "lookup (map_replace m live) x = (if covers m x then Some (s_tag m, place m x) else lookup live x)"
    "\<forall>s \<in> set (map_replace m live). s = m \<or> (\<exists>old \<in> set live. s_tag s = s_tag old \<and> s_zeroed s = s_zeroed old \<and>
       s_offset old \<le> s_offset s \<and> seg_end s \<le> seg_end old \<and> (s_zeroed s \<longrightarrow> s_moffset s = s_moffset old))"
proof -
  obtain kept hit rest where c1: "live = kept @ hit @ rest"
    "cut_range s_offset seg_end (s_offset m) (seg_end m) live = (kept, hit, rest)"
    and c5: "\<forall>s \<in> set hit. overlaps m s" and wf: "wf_segs (kept @ rest)"
    and ps: "\<forall>p \<in> set (concat (map (retained m) hit)). 0 < s_length p"
      "sorted_wrt seg_disj (concat (map (retained m) hit))"
      "\<forall>p \<in> set (concat (map (retained m) hit)). \<forall>t \<in> set (kept @ rest). seg_disj p t"
      "\<forall>t \<in> set (concat (map (retained m) hit)) \<union> set (kept @ rest). seg_disj m t"
    using map_replace_parts [OF assms] .
  let ?ps = "concat (map (retained m) hit)" and ?w = "kept @ rest"
  have c2: "map_replace m live = emplace m (fold emplace ?ps ?w)"
    by (simp add: map_replace_def c1(2))
  have f: "wf_segs (fold emplace ?ps ?w)" "set (fold emplace ?ps ?w) = set ?ps \<union> set ?w"
    using fold_emplace_disjoint [OF wf ps(1,2,3)] by auto
  have r: "wf_segs (map_replace m live)" "set (map_replace m live) = insert m (set ?ps \<union> set ?w)"
    using emplace_disjoint [OF f(1) assms(2)] f(2) ps(4) unfolding c2 by auto
  then show "wf_segs (map_replace m live)" by simp
  have "lookup (map_replace m live) x = lookup (m # kept @ ?ps @ rest) x"
    by (rule lookup_set_cong [OF r(1), symmetric]) (auto simp: r(2))
  moreover have "lookup (kept @ ?ps @ rest) x = lookup live x" if "\<not> covers m x"
    using lookup_retained_all [OF c5 assms(2) that]
    by (simp add: lookup_append c1(1) cong: option.case_cong)
  ultimately show "lookup (map_replace m live) x = (if covers m x then Some (s_tag m, place m x) else lookup live x)"
    by simp
  show "\<forall>s \<in> set (map_replace m live). s = m \<or> (\<exists>old \<in> set live. s_tag s = s_tag old \<and> s_zeroed s = s_zeroed old \<and>
       s_offset old \<le> s_offset s \<and> seg_end s \<le> seg_end old \<and> (s_zeroed s \<longrightarrow> s_moffset s = s_moffset old))"
  proof
    fix s assume "s \<in> set (map_replace m live)"
    then consider "s = m" | "s \<in> set live" | old where "old \<in> set hit" "s \<in> set (retained m old)"
      unfolding r(2) by (auto simp: c1(1))
    then show "s = m \<or> (\<exists>old \<in> set live. s_tag s = s_tag old \<and> s_zeroed s = s_zeroed old \<and>
       s_offset old \<le> s_offset s \<and> seg_end s \<le> seg_end old \<and> (s_zeroed s \<longrightarrow> s_moffset s = s_moffset old))"
    proof cases
      case 3
      then have "old \<in> set live" "overlaps m old" using c5 by (auto simp: c1(1))
      then show ?thesis using retained_props [of m old s] 3 assms(2) by blast
    qed auto
  qed
qed

text \<open>The same partition results when the replacement is built first and then merged, as the pair's
  admission does; its size is the number of entries left alone plus the replacement's.\<close>

lemma length_emplace:
  assumes "wf_segs v" "0 < s_length s" "\<forall>t \<in> set v. seg_disj s t"
  shows "length (emplace s v) = Suc (length v)"
  using assms by (induction v) (auto simp: wf_segs_Cons seg_disj_def seg_end_def)

lemma length_fold_emplace:
  assumes "wf_segs v" "\<forall>s \<in> set ps. 0 < s_length s" "sorted_wrt seg_disj ps"
    "\<forall>s \<in> set ps. \<forall>t \<in> set v. seg_disj s t"
  shows "length (fold emplace ps v) = length ps + length v"
  using assms
proof (induction ps arbitrary: v)
  case (Cons s ps)
  have e: "wf_segs (emplace s v)" "set (emplace s v) = insert s (set v)" "length (emplace s v) = Suc (length v)"
    using emplace_disjoint [of v s] length_emplace [of v s] Cons.prems by auto
  then show ?case using Cons.IH [of "emplace s v"] Cons.prems by (auto simp: seg_disj_sym)
qed simp

lemma wf_segs_seg_disj: "wf_segs v \<Longrightarrow> sorted_wrt seg_disj v"
  unfolding wf_segs_def by (elim conjE, erule sorted_wrt_mono_rel [rotated]) (simp add: seg_disj_def)

lemma map_replace_merge:
  assumes "wf_segs live" "0 < s_length m"
    and cut: "cut_range s_offset seg_end (s_offset m) (seg_end m) live = (kept, hit, rest)"
  shows "fold emplace (emplace m (fold emplace (concat (map (retained m) hit)) [])) (kept @ rest) = map_replace m live"
    and "length live - length hit + length (emplace m (fold emplace (concat (map (retained m) hit)) [])) =
      length (map_replace m live)"
proof -
  obtain c1: "live = kept @ hit @ rest" and wf: "wf_segs (kept @ rest)"
    and ps: "\<forall>p \<in> set (concat (map (retained m) hit)). 0 < s_length p"
      "sorted_wrt seg_disj (concat (map (retained m) hit))"
      "\<forall>p \<in> set (concat (map (retained m) hit)). \<forall>t \<in> set (kept @ rest). seg_disj p t"
      "\<forall>t \<in> set (concat (map (retained m) hit)) \<union> set (kept @ rest). seg_disj m t"
    using map_replace_parts [OF assms(1,2)] cut by (metis prod.inject)
  let ?ps = "concat (map (retained m) hit)" and ?w = "kept @ rest"
  let ?Q = "fold emplace ?ps []"
  let ?R = "emplace m ?Q"
  have R0: "wf_segs ?Q" "set ?Q = set ?ps" "length ?Q = length ?ps"
    using fold_emplace_disjoint [of "[]" ?ps] length_fold_emplace [of "[]" ?ps] ps(1,2) by auto
  have dR0: "\<forall>t \<in> set ?Q. seg_disj m t" using ps(4) unfolding R0(2) by blast
  have R: "wf_segs ?R" "set ?R = insert m (set ?ps)" "length ?R = Suc (length ?ps)"
    using emplace_disjoint [OF R0(1) assms(2) dR0] length_emplace [OF R0(1) assms(2) dR0] R0(2,3) by simp_all
  have posR: "\<forall>s \<in> set ?R. 0 < s_length s" and disjR: "\<forall>s \<in> set ?R. \<forall>t \<in> set ?w. seg_disj s t"
    using wf_segs_pos [OF R(1)] ps(3,4) unfolding R(2) by auto
  have M: "wf_segs (fold emplace ?R ?w)" "set (fold emplace ?R ?w) = insert m (set ?ps) \<union> set ?w"
    using fold_emplace_disjoint [OF wf posR wf_segs_seg_disj [OF R(1)] disjR] R(2) by auto
  have c2: "map_replace m live = emplace m (fold emplace ?ps ?w)" by (simp add: map_replace_def cut)
  have f: "wf_segs (fold emplace ?ps ?w)" "set (fold emplace ?ps ?w) = set ?ps \<union> set ?w"
      "length (fold emplace ?ps ?w) = length ?ps + length ?w"
    using fold_emplace_disjoint [OF wf ps(1,2,3)] length_fold_emplace [OF wf ps(1,2,3)] by auto
  have df: "\<forall>t \<in> set (fold emplace ?ps ?w). seg_disj m t" using ps(4) unfolding f(2) by blast
  have "wf_segs (map_replace m live)" "set (map_replace m live) = insert m (set ?ps \<union> set ?w)"
    and len: "length (map_replace m live) = Suc (length ?ps + length ?w)"
    using emplace_disjoint [OF f(1) assms(2) df] length_emplace [OF f(1) assms(2) df] f(2,3)
    unfolding c2 by simp_all
  then show "fold emplace ?R ?w = map_replace m live"
    using M by (intro wf_segs_unique) auto
  show "length live - length hit + length ?R = length (map_replace m live)"
    using len R(3) by (simp add: c1)
qed

section \<open>The log as a whole\<close>

text \<open>The specification: the last record that covers a sector owns it; padding records own nothing.\<close>

definition log_owner :: "segment_mapping list \<Rightarrow> nat \<Rightarrow> owner option" where
  "log_owner ms x = foldl (\<lambda>o' m. if s_offset m \<noteq> kInvalidOffset \<and> covers m x then Some (0, place m x) else o')
     None ms"

function decode_log :: "bytes \<Rightarrow> segment_mapping list" where
  "decode_log raw = (if raw = [] then [] else load_segment_le raw # decode_log (drop kEncodedSize raw))"
  by pat_completeness auto
termination by (relation "measure length") (auto simp: kEncodedSize_def)

declare decode_log.simps [simp del]

definition replay_inv :: "Replay \<Rightarrow> bool" where
  "replay_inv r \<longleftrightarrow> wf_segs (r_live r) \<and> length (r_live r) \<le> kMaxRoIndexSize \<and>
     (\<forall>s \<in> set (r_live r). s_tag s = 0 \<and> seg_end s \<le> r_sectors r \<and> s_length s \<le> kMaxLength \<and>
        (s_zeroed s \<longrightarrow> s_moffset s = kDataStartSector)) \<and>
     (\<forall>x t p. lookup (r_live r) x = Some (t, Some p) \<longrightarrow> kDataStartSector \<le> p \<and> p < r_data_sectors r)"

lemma replay_step_correct:
  assumes "replay_inv r" "replay_step r m = Inr r'" "seg_fits m"
  shows "replay_inv r'" "r_sectors r' = r_sectors r" "r_data_sectors r' = r_data_sectors r"
    "lookup (r_live r') x =
       (if s_offset m \<noteq> kInvalidOffset \<and> covers m x then Some (0, place m x) else lookup (r_live r) x)"
proof -
  define m' where "m' = (if s_zeroed m then m\<lparr>s_moffset := kDataStartSector\<rparr> else m)\<lparr>s_tag := 0\<rparr>"
  have m': "s_offset m' = s_offset m" "s_length m' = s_length m" "s_zeroed m' = s_zeroed m" "s_tag m' = 0"
    "seg_end m' = seg_end m" "covers m' y = covers m y" "place m' y = place m y"
    "s_zeroed m \<Longrightarrow> s_moffset m' = kDataStartSector" "\<not> s_zeroed m \<Longrightarrow> s_moffset m' = s_moffset m" for y
    by (auto simp: m'_def seg_end_def covers_def place_def)
  have "replay_inv r' \<and> r_sectors r' = r_sectors r \<and> r_data_sectors r' = r_data_sectors r \<and>
    lookup (r_live r') x =
       (if s_offset m \<noteq> kInvalidOffset \<and> covers m x then Some (0, place m x) else lookup (r_live r) x)"
  proof (cases "s_offset m = kInvalidOffset")
    case True
    then show ?thesis using assms(1,2) by (simp add: replay_step_def)
  next
    case False
    from assms(2) False have
      ok: "0 < s_length m" "s_length m \<le> r_sectors r - s_offset m" "s_offset m < r_sectors r"
        "\<not> s_zeroed m \<Longrightarrow> kDataStartSector \<le> s_moffset m \<and> s_moffset m < r_data_sectors r \<and>
            s_length m \<le> r_data_sectors r - s_moffset m"
      and r': "r' = r\<lparr>r_live := map_replace m' (r_live r)\<rparr>" "length (map_replace m' (r_live r)) \<le> kMaxRoIndexSize"
      by (auto simp: replay_step_def Let_def m'_def split: if_splits)
    have inv: "wf_segs (r_live r)" "\<forall>s \<in> set (r_live r). s_tag s = 0 \<and> seg_end s \<le> r_sectors r \<and>
        s_length s \<le> kMaxLength \<and> (s_zeroed s \<longrightarrow> s_moffset s = kDataStartSector)"
      "\<forall>x t p. lookup (r_live r) x = Some (t, Some p) \<longrightarrow> kDataStartSector \<le> p \<and> p < r_data_sectors r"
      using assms(1) by (auto simp: replay_inv_def)
    have pos: "0 < s_length m'" using ok(1) m' by simp
    note mr = map_replace_correct [OF inv(1) pos]
    have lk: "lookup (r_live r') y = (if covers m y then Some (0, place m y) else lookup (r_live r) y)" for y
      using mr(2) [of y] by (simp add: r' m')
    have segs: "s_tag s = 0 \<and> seg_end s \<le> r_sectors r \<and> s_length s \<le> kMaxLength \<and>
        (s_zeroed s \<longrightarrow> s_moffset s = kDataStartSector)" if "s \<in> set (map_replace m' (r_live r))" for s
    proof -
      from mr(3) that consider "s = m'" | old where "old \<in> set (r_live r)" "s_tag s = s_tag old"
        "s_zeroed s = s_zeroed old" "s_offset old \<le> s_offset s" "seg_end s \<le> seg_end old"
        "s_zeroed s \<longrightarrow> s_moffset s = s_moffset old" by blast
      then show ?thesis
      proof cases
        case 1
        then show ?thesis using assms(3) ok(2,3) m' by (auto simp: seg_fits_def seg_end_def)
      next
        case 2
        then have "s_length s \<le> s_length old" by (simp add: seg_end_def)
        then show ?thesis using 2 inv(2) by fastforce
      qed
    qed
    have phys: "kDataStartSector \<le> p \<and> p < r_data_sectors r" if "lookup (r_live r') y = Some (t, Some p)" for y t p
    proof (cases "covers m y")
      case True
      then have "\<not> s_zeroed m" "p = s_moffset m + (y - s_offset m)"
        using that unfolding lk by (auto simp: place_def split: if_splits)
      then show ?thesis using True ok(4) by (auto simp: covers_def seg_end_def)
    next
      case False
      then show ?thesis using that inv(3) unfolding lk by auto
    qed
    show ?thesis
      using lk [of x] mr(1) segs phys r' False by (auto simp: replay_inv_def)
  qed
  then show "replay_inv r'" "r_sectors r' = r_sectors r" "r_data_sectors r' = r_data_sectors r"
    "lookup (r_live r') x =
       (if s_offset m \<noteq> kInvalidOffset \<and> covers m x then Some (0, place m x) else lookup (r_live r) x)"
    by auto
qed

lemma replay_loop_correct:
  assumes "replay_inv r" "replay_loop r raw = Inr r'"
  shows "replay_inv r' \<and> r_sectors r' = r_sectors r \<and> r_data_sectors r' = r_data_sectors r \<and>
    lookup (r_live r') x = foldl (\<lambda>o' m. if s_offset m \<noteq> kInvalidOffset \<and> covers m x then Some (0, place m x) else o')
      (lookup (r_live r) x) (decode_log raw)"
  using assms
proof (induction r raw rule: replay_loop.induct)
  case (1 r raw)
  show ?case
  proof (cases "raw = []")
    case True
    then show ?thesis using "1.prems" by (simp add: replay_loop.simps decode_log.simps)
  next
    case False
    then obtain r1 where r1: "replay_step r (load_segment_le raw) = Inr r1"
      "replay_loop r1 (drop kEncodedSize raw) = Inr r'"
      using "1.prems"(2) by (auto simp: replay_loop.simps [of r])
    note st = replay_step_correct [OF "1.prems"(1) r1(1) load_segment_fits]
    show ?thesis
      using "1.IH" [OF False r1(1) st(1) r1(2)] st(2,3,4) False by (simp add: decode_log.simps [of raw])
  qed
qed

lemma replay_new_inv: "replay_new vsize data_bytes = Inr r \<Longrightarrow>
    replay_inv r \<and> r_live r = [] \<and> r_sectors r = vsize div kAlignment \<and> r_data_sectors r = data_bytes div kAlignment"
  by (auto simp: replay_new_def replay_inv_def Let_def split: if_splits)

lemma replay_append_loop:
  "replay_append r raw = Inr r' \<Longrightarrow>
     replay_loop (r\<lparr>r_records := r_records r + length raw div kEncodedSize\<rparr>) raw = Inr r'"
  by (simp add: replay_append_def split: if_splits)

text \<open>C19: Replaying a log. From a fresh \<open>Replay\<close>, a successful \<open>append\<close> of raw records leaves a
  sorted, disjoint map in which every sector belongs to the last record that covers it (padding
  records own nothing), with that record's payload position; mappings stay inside the device,
  data positions inside the payload area of the data file, and zero records are normalized.\<close>

theorem replay_correct:
  assumes "replay_new virtual_size data_bytes = Inr r" and "replay_append r raw = Inr r'"
  shows "wf_segs (r_live r') \<and> (\<forall>x. lookup (r_live r') x = log_owner (decode_log raw) x) \<and>
    (\<forall>s \<in> set (r_live r'). s_tag s = 0 \<and> seg_end s \<le> virtual_size div kAlignment \<and>
       (if s_zeroed s then s_moffset s = kDataStartSector
        else kDataStartSector \<le> s_moffset s \<and> seg_mend s \<le> data_bytes div kAlignment))"
proof -
  let ?r = "r\<lparr>r_records := r_records r + length raw div kEncodedSize\<rparr>"
  have new: "replay_inv ?r" "r_live ?r = []" "r_sectors ?r = virtual_size div kAlignment"
    "r_data_sectors ?r = data_bytes div kAlignment"
    using replay_new_inv [OF assms(1)] by (auto simp: replay_inv_def)
  note run = replay_loop_correct [OF new(1) replay_append_loop [OF assms(2)]]
  have inv: "replay_inv r'" "r_sectors r' = virtual_size div kAlignment"
    "r_data_sectors r' = data_bytes div kAlignment"
    using run [of 0] new by simp_all
  then have wf: "wf_segs (r_live r')" by (simp add: replay_inv_def)
  have "kDataStartSector \<le> s_moffset s \<and> seg_mend s \<le> data_bytes div kAlignment"
    if s: "s \<in> set (r_live r')" "\<not> s_zeroed s" for s
  proof -
    have pos: "0 < s_length s" by (rule wf_segs_pos [OF wf s(1)])
    have "lookup (r_live r') (s_offset s) = Some (s_tag s, Some (s_moffset s))"
      "lookup (r_live r') (seg_end s - 1) = Some (s_tag s, Some (s_moffset s + (s_length s - 1)))"
      using lookup_memI [OF wf s(1), of "s_offset s"] lookup_memI [OF wf s(1), of "seg_end s - 1"] pos s(2)
      by (auto simp: covers_def place_def seg_end_def)
    then have "kDataStartSector \<le> s_moffset s" "s_moffset s + (s_length s - 1) < data_bytes div kAlignment"
      using inv unfolding replay_inv_def by metis+
    then show ?thesis using pos s(2) by (simp add: seg_mend_def)
  qed
  moreover have "\<forall>x. lookup (r_live r') x = log_owner (decode_log raw) x"
    using run new(2) by (simp add: log_owner_def)
  ultimately show ?thesis using inv wf by (simp add: replay_inv_def)
qed

section \<open>Physical ownership\<close>

definition owns_once :: "segment_mapping list \<Rightarrow> bool" where
  "owns_once v \<longleftrightarrow> (\<forall>x y t u p. lookup v x = Some (t, Some p) \<longrightarrow> lookup v y = Some (u, Some p) \<longrightarrow> x = y)"

abbreviation before :: "nat \<times> nat \<Rightarrow> nat \<times> nat \<Rightarrow> bool" where
  "before a b \<equiv> snd a \<le> fst b"

lemma no_alias_sorted:
  assumes "\<forall>a \<in> set l. fst a < snd a"
  shows "no_alias l \<longleftrightarrow> sorted_wrt before l"
  using assms
proof (induction l rule: no_alias.induct)
  case (1 a b v)
  have "\<lbrakk>snd a \<le> fst b; \<forall>c \<in> set v. snd b \<le> fst c\<rbrakk> \<Longrightarrow> \<forall>c \<in> set v. snd a \<le> fst c"
    using "1.prems" by force
  then show ?case using 1 by auto
qed auto

lemma sorted_before_distinct:
  "sorted_wrt before l \<Longrightarrow> \<forall>a \<in> set l. fst a < snd a \<Longrightarrow> distinct l"
  by (induction l) force+

lemma sorted_wrt_total:
  "sorted_wrt R l \<Longrightarrow> a \<in> set l \<Longrightarrow> b \<in> set l \<Longrightarrow> a \<noteq> b \<Longrightarrow> R a b \<or> R b a"
  by (induction l) auto

lemma wf_segs_distinct: "wf_segs v \<Longrightarrow> distinct v"
  by (induction v) (auto simp: wf_segs_Cons seg_end_def)

lemma physical_pos: "wf_segs v \<Longrightarrow> \<forall>a \<in> set (physical v). fst a < snd a"
  by (auto simp: physical_def seg_mend_def wf_segs_pos)

lemma wf_segs_cover_once:
  assumes "wf_segs v" "s \<in> set v" "t \<in> set v" "covers s x" "covers t x"
  shows "s = t"
proof (rule ccontr)
  assume "s \<noteq> t"
  then have "seg_end s \<le> s_offset t \<or> seg_end t \<le> s_offset s"
    using assms(1-3) sorted_wrt_total [of "\<lambda>a b. seg_end a \<le> s_offset b" v s t] by (auto simp: wf_segs_def)
  then show False using assms(4,5) by (auto simp: covers_def)
qed

lemma place_at:
  assumes "\<not> s_zeroed s" "s_moffset s \<le> p" "p < seg_mend s"
  shows "covers s (s_offset s + (p - s_moffset s))" "place s (s_offset s + (p - s_moffset s)) = Some p"
  using assms by (auto simp: covers_def place_def seg_end_def seg_mend_def)

lemma placeD:
  assumes "covers s x" "place s x = Some p"
  shows "\<not> s_zeroed s" "s_moffset s \<le> p" "p < seg_mend s" "x = s_offset s + (p - s_moffset s)"
  using assms by (auto simp: covers_def place_def seg_end_def seg_mend_def split: if_splits)

lemma owns_once_disjoint:
  assumes "wf_segs v"
  shows "owns_once v \<longleftrightarrow> (\<forall>s \<in> set v. \<forall>t \<in> set v. s \<noteq> t \<longrightarrow> \<not> s_zeroed s \<longrightarrow> \<not> s_zeroed t \<longrightarrow>
    seg_mend s \<le> s_moffset t \<or> seg_mend t \<le> s_moffset s)" (is "_ \<longleftrightarrow> ?D")
proof
  assume once: "owns_once v"
  show ?D
  proof (intro ballI impI)
    fix s t assume st: "s \<in> set v" "t \<in> set v" "s \<noteq> t" "\<not> s_zeroed s" "\<not> s_zeroed t"
    show "seg_mend s \<le> s_moffset t \<or> seg_mend t \<le> s_moffset s"
    proof (rule ccontr)
      assume n: "\<not> ?thesis"
      define p where "p = max (s_moffset s) (s_moffset t)"
      have p: "s_moffset s \<le> p" "p < seg_mend s" "s_moffset t \<le> p" "p < seg_mend t"
        using n wf_segs_pos [OF assms st(1)] wf_segs_pos [OF assms st(2)] st(4,5)
        by (auto simp: p_def seg_mend_def)
      note ps = place_at [OF st(4) p(1,2)] and pt = place_at [OF st(5) p(3,4)]
      have "s_offset s + (p - s_moffset s) = s_offset t + (p - s_moffset t)"
        using once lookup_memI [OF assms st(1) ps(1)] lookup_memI [OF assms st(2) pt(1)] ps(2) pt(2)
        unfolding owns_once_def by metis
      then show False using wf_segs_cover_once [OF assms st(1,2) ps(1)] pt(1) st(3) by simp
    qed
  qed
next
  assume d: ?D
  show "owns_once v"
    unfolding owns_once_def
  proof (intro allI impI)
    fix x y t u p
    assume "lookup v x = Some (t, Some p)" "lookup v y = Some (u, Some p)"
    then obtain a b where ab: "a \<in> set v" "covers a x" "place a x = Some p"
        "b \<in> set v" "covers b y" "place b y = Some p"
      using lookup_SomeD [of v x] lookup_SomeD [of v y] by (metis prod.inject)
    note pa = placeD [OF ab(2,3)] and pb = placeD [OF ab(5,6)]
    have "a = b"
    proof (rule ccontr)
      assume "a \<noteq> b"
      then have "seg_mend a \<le> s_moffset b \<or> seg_mend b \<le> s_moffset a" using d ab(1,4) pa(1) pb(1) by blast
      then show False using pa(2,3) pb(2,3) by linarith
    qed
    then show "x = y" using pa(4) pb(4) by simp
  qed
qed

lemma no_alias_owns_once:
  assumes "wf_segs v"
  shows "no_alias (sort (physical v)) \<longleftrightarrow> owns_once v"
proof -
  let ?f = "\<lambda>m. (s_moffset m, seg_mend m)" and ?D = "filter (\<lambda>m. \<not> s_zeroed m) v"
  let ?S = "sort (physical v)"
  have pos: "\<forall>a \<in> set ?S. fst a < snd a" using physical_pos [OF assms] by simp
  have S: "set ?S = ?f ` set ?D" by (auto simp: physical_def)
  have distD: "distinct ?D" using wf_segs_distinct [OF assms] by simp
  have "sorted_wrt before ?S \<longleftrightarrow> owns_once v"
  proof
    assume so: "sorted_wrt before ?S"
    have "distinct (map ?f ?D)"
      using sorted_before_distinct [OF so pos] by (simp add: physical_def)
    then have inj: "inj_on ?f (set ?D)" by (simp add: distinct_map)
    show "owns_once v"
      unfolding owns_once_disjoint [OF assms]
    proof (intro ballI impI)
      fix s t assume st: "s \<in> set v" "t \<in> set v" "s \<noteq> t" "\<not> s_zeroed s" "\<not> s_zeroed t"
      then have "?f s \<noteq> ?f t" using inj by (auto dest: inj_onD)
      moreover have "?f s \<in> set ?S" "?f t \<in> set ?S" using st unfolding S by auto
      ultimately have "before (?f s) (?f t) \<or> before (?f t) (?f s)"
        by (intro sorted_wrt_total [OF so])
      then show "seg_mend s \<le> s_moffset t \<or> seg_mend t \<le> s_moffset s" by simp
    qed
  next
    assume "owns_once v"
    then have d: "\<lbrakk>s \<in> set ?D; t \<in> set ?D; s \<noteq> t\<rbrakk> \<Longrightarrow> seg_mend s \<le> s_moffset t \<or> seg_mend t \<le> s_moffset s" for s t
      using owns_once_disjoint [OF assms] by auto
    have posD: "s_moffset s < seg_mend s" if "s \<in> set ?D" for s
      using that assms by (auto simp: seg_mend_def wf_segs_pos)
    have "inj_on ?f (set ?D)"
    proof (rule inj_onI, rule ccontr)
      fix s t assume "s \<in> set ?D" "t \<in> set ?D" "?f s = ?f t" "s \<noteq> t"
      then show False using d [of s t] posD [of s] posD [of t] by auto
    qed
    then have "distinct ?S" using distD by (simp add: physical_def distinct_map)
    then have "sorted_wrt (<) ?S" by (simp add: strict_sorted_iff)
    then show "sorted_wrt before ?S"
    proof (rule sorted_wrt_mono_rel [rotated])
      fix a b assume ab: "a \<in> set ?S" "b \<in> set ?S" "a < b"
      then obtain s t where st: "s \<in> set ?D" "t \<in> set ?D" "a = ?f s" "b = ?f t" unfolding S by blast
      moreover have "s \<noteq> t" using st ab(3) by auto
      ultimately show "before a b"
        using d [of s t] ab(3) posD [of s] posD [of t] by (auto simp: less_prod_def)
    qed
  qed
  then show ?thesis using no_alias_sorted [OF pos] by simp
qed

text \<open>C20: \<open>finish\<close> accepts a replayed log exactly when no two logical sectors share a physical
  sector, so an in-place writer over the result never changes a sector it does not mean to; it
  then returns the live mappings unchanged.\<close>

theorem replay_finish_exact:
  assumes "replay_new virtual_size data_bytes = Inr r" and "replay_append r raw = Inr r'"
  shows "replay_finish r' = (if owns_once (r_live r') then Inr (r_live r') else Inl EINVAL)"
proof -
  have "replay_inv (r\<lparr>r_records := k\<rparr>)" for k
    using replay_new_inv [OF assms(1)] by (auto simp: replay_inv_def)
  from replay_loop_correct [OF this replay_append_loop [OF assms(2)]]
  have "wf_segs (r_live r')" by (simp add: replay_inv_def)
  from no_alias_owns_once [OF this] show ?thesis by (simp add: replay_finish_def)
qed

text \<open>A log with a data record, a zero record over its second sector and padding.\<close>

definition sample_log :: "segment_mapping list" where
  "sample_log = [\<lparr>s_offset = 0, s_length = 3, s_moffset = 8, s_zeroed = False, s_tag = 0\<rparr>,
     \<lparr>s_offset = 1, s_length = 1, s_moffset = 0, s_zeroed = True, s_tag = 0\<rparr>]"

lemma store_segment_nonempty [simp]: "store_segment_le m \<noteq> []"
  by (simp add: store_segment_le_def store_u64_le_def Let_def)

lemma replay_loop_store:
  assumes "seg_fits m"
  shows "replay_loop r (store_segment_le m @ rest) = bindR (replay_step r m) (\<lambda>r'. replay_loop r' rest)"
  using assms length_store_segment [of m]
  by (subst replay_loop.simps) (auto simp: load_store_segment_append kEncodedSize_def)

lemma decode_log_store:
  assumes "\<forall>m \<in> set ms. seg_fits m"
  shows "decode_log (concat (map store_segment_le ms)) = ms"
  using assms
proof (induction ms)
  case (Cons m ms)
  then show ?case
    using length_store_segment [of m]
    by (subst decode_log.simps) (auto simp: load_store_segment_append kEncodedSize_def)
qed (simp add: decode_log.simps)

lemma sample_log_fits: "\<forall>m \<in> set sample_log. seg_fits m"
  by (simp add: sample_log_def seg_fits_def kMaxOffset_def kMaxLength_def kMaxMoffset_def)

lemma sample_replay:
  "\<exists>r r'. replay_new 4096 8192 = Inr r \<and> replay_append r (concat (map store_segment_le sample_log)) = Inr r' \<and>
     r_live r' = [\<lparr>s_offset = 0, s_length = 1, s_moffset = 8, s_zeroed = False, s_tag = 0\<rparr>,
       \<lparr>s_offset = 1, s_length = 1, s_moffset = 8, s_zeroed = True, s_tag = 0\<rparr>,
       \<lparr>s_offset = 2, s_length = 1, s_moffset = 10, s_zeroed = False, s_tag = 0\<rparr>]"
proof -
  have raw: "concat (map store_segment_le sample_log) =
      store_segment_le (sample_log ! 0) @ store_segment_le (sample_log ! 1) @ []"
    "seg_fits (sample_log ! 0)" "seg_fits (sample_log ! 1)"
    using sample_log_fits by (simp_all add: sample_log_def)
  show ?thesis
    unfolding replay_append_def raw(1) replay_loop_store [OF raw(2)] replay_loop_store [OF raw(3)]
    by (simp add: replay_new_def kAlignment_def kMaxOffset_def kSpace_def kMaxMoffset_def kEncodedSize_def
        kMaxLogRecords_def kMaxRoIndexSize_def sample_log_def replay_step_def kInvalidOffset_def Let_def
        kDataStartSector_def map_replace_def cut_range_def retained_def seg_end_def replay_loop.simps)
qed

theorem replay_correct_witness:
  "\<exists>r r'. replay_new 4096 8192 = Inr r \<and> replay_append r (concat (map store_segment_le sample_log)) = Inr r' \<and>
     wf_segs (r_live r') \<and> lookup (r_live r') 1 = log_owner sample_log 1"
proof -
  obtain r r' where "replay_new 4096 8192 = Inr r"
      "replay_append r (concat (map store_segment_le sample_log)) = Inr r'"
    using sample_replay by (elim exE conjE)
  with replay_correct [OF this] decode_log_store [OF sample_log_fits] show ?thesis by auto
qed

theorem replay_finish_exact_witness:
  "\<exists>r r'. replay_new 4096 8192 = Inr r \<and> replay_append r (concat (map store_segment_le sample_log)) = Inr r' \<and>
     replay_finish r' = Inr (r_live r')"
proof -
  obtain r r' where r: "replay_new 4096 8192 = Inr r"
      "replay_append r (concat (map store_segment_le sample_log)) = Inr r'"
    and live: "r_live r' = [\<lparr>s_offset = 0, s_length = 1, s_moffset = 8, s_zeroed = False, s_tag = 0\<rparr>,
       \<lparr>s_offset = 1, s_length = 1, s_moffset = 8, s_zeroed = True, s_tag = 0\<rparr>,
       \<lparr>s_offset = 2, s_length = 1, s_moffset = 10, s_zeroed = False, s_tag = 0\<rparr>]"
    using sample_replay by (elim exE conjE)
  have "owns_once (r_live r')"
    unfolding live owns_once_def by (auto simp: covers_def place_def seg_end_def split: if_splits)
  with replay_finish_exact [OF r] r show ?thesis by auto
qed

end
