(* ===== verification/LsmtRwMap.thy ===== *)
theory LsmtRwMap
  imports LsmtRwIndex
begin

text \<open>
  The in-memory index of \<open>LsmtRwLayer\<close> (\<open>src/format/lsmt_rw.cpp\<close>): insertion with coalescing, removal
  of a range, and the plan of a write. The index is a sorted vector of mappings; each routine is a
  function on such lists, and its lemma says what it does to \<open>lookup\<close>. A write plan splits the
  requested range into operations that reuse the payload sectors already owned and operations
  that append at the end of the file.
\<close>

definition kSector :: nat where "kSector = 512"
definition kHeaderSectors :: nat where "kHeaderSectors = 8"
definition kMaxSegLen :: nat where "kMaxSegLen = kMaxLength"

section \<open>Insertion with coalescing\<close>

definition joins :: "segment_mapping \<Rightarrow> segment_mapping \<Rightarrow> bool" where
  "joins a b \<longleftrightarrow> seg_end a = s_offset b \<and> seg_mend a = s_moffset b \<and>
     \<not> s_zeroed a \<and> \<not> s_zeroed b \<and> s_length a + s_length b \<le> kMaxSegLen"

definition absorb :: "segment_mapping \<Rightarrow> segment_mapping \<Rightarrow> segment_mapping" where
  "absorb a b = a\<lparr>s_length := s_length a + s_length b\<rparr>"

definition insert_sorted :: "segment_mapping \<Rightarrow> segment_mapping list \<Rightarrow> segment_mapping list" where
  "insert_sorted m v =
     (let before = takeWhile (\<lambda>s. s_offset s < s_offset m) v;
          after = dropWhile (\<lambda>s. s_offset s < s_offset m) v;
          (front, it) = (if before \<noteq> [] \<and> joins (last before) m
                         then (butlast before, absorb (last before) m) else (before, m))
      in front @ (case after of
           [] \<Rightarrow> [it]
         | n # rest \<Rightarrow> if joins it n then absorb it n # rest else it # n # rest))"

text \<open>Removal of \<open>[lo, hi)\<close>: what is left of a mapping on both sides.\<close>

definition carve1 :: "nat \<Rightarrow> nat \<Rightarrow> segment_mapping \<Rightarrow> segment_mapping list" where
  "carve1 lo hi s =
     (if seg_end s \<le> lo \<or> s_offset s \<ge> hi then [s]
      else (if s_offset s < lo then [s\<lparr>s_length := lo - s_offset s\<rparr>] else []) @
           (if seg_end s > hi then
              [s\<lparr>s_offset := hi,
                 s_moffset := (if \<not> s_zeroed s then s_moffset s + (hi - s_offset s) else s_moffset s),
                 s_length := seg_end s - hi\<rparr>] else []))"

definition carve :: "nat \<Rightarrow> nat \<Rightarrow> segment_mapping list \<Rightarrow> segment_mapping list" where
  "carve lo hi v = concat (map (carve1 lo hi) v)"

section \<open>The plan of a write\<close>

record Op =
  op_voff :: nat
  op_moff :: nat
  op_nsector :: nat
  op_inplace :: bool

text \<open>The loop over the mappings from the first that ends after \<open>lo\<close>; the state is the first sector not
  yet planned and the append position.\<close>

fun plan_loop :: "nat \<Rightarrow> nat \<Rightarrow> segment_mapping list \<Rightarrow> nat \<Rightarrow> nat \<Rightarrow> Op list \<times> nat \<times> nat" where
  "plan_loop lo hi [] cur fin = ([], cur, fin)"
| "plan_loop lo hi (s # ss) cur fin =
     (if s_offset s \<ge> hi then ([], cur, fin)
      else if s_zeroed s \<or> seg_end s \<le> lo then plan_loop lo hi ss cur fin
      else
        let gap = s_offset s - cur;
            pre = (if s_offset s > cur then [\<lparr>op_voff = cur, op_moff = fin, op_nsector = gap, op_inplace = False\<rparr>] else []);
            fin' = (if s_offset s > cur then fin + gap else fin);
            cs = max cur (s_offset s);
            ce = min (seg_end s) hi
        in if ce > cs then
             (let (ops, c, f) = plan_loop lo hi ss ce fin' in
              (pre @ \<lparr>op_voff = cs, op_moff = s_moffset s + (cs - s_offset s), op_nsector = ce - cs, op_inplace = True\<rparr> # ops, c, f))
           else (let (ops, c, f) = plan_loop lo hi ss cur fin' in (pre @ ops, c, f)))"

definition plan_ops :: "segment_mapping list \<Rightarrow> nat \<Rightarrow> nat \<Rightarrow> nat \<Rightarrow> Op list \<times> nat" where
  "plan_ops segs lo hi fin =
     (let (ops, cur, fin') = plan_loop lo hi (upper_bound seg_end lo segs) lo fin in
      if cur < hi
      then (ops @ [\<lparr>op_voff = cur, op_moff = fin', op_nsector = hi - cur, op_inplace = False\<rparr>], fin' + (hi - cur))
      else (ops, fin'))"

definition op_seg :: "Op \<Rightarrow> segment_mapping" where
  "op_seg op = \<lparr>s_offset = op_voff op, s_length = op_nsector op, s_moffset = op_moff op,
                s_zeroed = False, s_tag = 0\<rparr>"

section \<open>Insertion and removal\<close>

lemma absorb_simps [simp]:
  "s_offset (absorb a b) = s_offset a" "s_moffset (absorb a b) = s_moffset a"
  "s_zeroed (absorb a b) = s_zeroed a" "s_tag (absorb a b) = s_tag a"
  "s_length (absorb a b) = s_length a + s_length b"
  by (simp_all add: absorb_def)

lemma joinsD:
  assumes "joins a b"
  shows "seg_end (absorb a b) = seg_end b" "seg_mend (absorb a b) = seg_mend b"
    "seg_end a = s_offset b" "\<not> s_zeroed a" "\<not> s_zeroed b" "s_length a + s_length b \<le> kMaxSegLen"
  using assms by (auto simp: joins_def seg_end_def seg_mend_def)

lemma lookup_absorb:
  assumes "joins a b" "s_tag a = s_tag b"
  shows "lookup (absorb a b # v) x = lookup (a # b # v) x"
  using assms by (auto simp: joins_def covers_def place_def seg_end_def seg_mend_def)

lemma wf_absorb:
  assumes "joins a b" "wf_segs (u @ a # b # v)"
  shows "wf_segs (u @ absorb a b # v)"
  using assms joinsD [OF assms(1)] by (auto simp: wf_segs_append wf_segs_Cons)

lemma takeWhile_end:
  assumes "wf_segs v" "0 < s_length m" "\<forall>s \<in> set v. seg_disj m s"
  shows "wf_segs (takeWhile (\<lambda>s. s_offset s < s_offset m) v @ m # dropWhile (\<lambda>s. s_offset s < s_offset m) v)"
proof -
  let ?b = "takeWhile (\<lambda>s. s_offset s < s_offset m) v" and ?a = "dropWhile (\<lambda>s. s_offset s < s_offset m) v"
  have wf: "wf_segs (?b @ ?a)" using assms(1) by simp
  have "\<forall>s \<in> set ?b. s \<in> set v \<and> s_offset s < s_offset m" by (auto dest: set_takeWhileD)
  then have b: "\<forall>s \<in> set ?b. seg_end s \<le> s_offset m"
    using assms(2,3) by (fastforce simp: seg_disj_def seg_end_def)
  have "\<forall>s \<in> set ?a. s \<in> set v \<and> s_offset m \<le> s_offset s"
    using dropWhile_offset_ge [OF assms(1)] set_dropWhileD by fastforce
  then have a: "\<forall>s \<in> set ?a. seg_end m \<le> s_offset s"
    using assms(1,3) wf_segs_pos by (fastforce simp: seg_disj_def seg_end_def)
  show ?thesis
    using wf a b assms(2) by (auto simp: wf_segs_append wf_segs_Cons simp del: takeWhile_dropWhile_id)
qed

text \<open>Coalescing changes neither the shape of an index nor what it resolves to.\<close>

definition same_index :: "segment_mapping list \<Rightarrow> segment_mapping list \<Rightarrow> bool" where
  "same_index u v \<longleftrightarrow> wf_segs u \<and> (\<forall>x. lookup u x = lookup v x)"

lemma same_index_absorb:
  assumes "joins a b" "s_tag a = s_tag b" "wf_segs (u @ a # b # v)"
  shows "same_index (u @ absorb a b # v) (u @ a # b # v)"
  using wf_absorb [OF assms(1,3)] lookup_absorb [OF assms(1,2)]
  by (simp add: same_index_def lookup_append del: lookup.simps cong: option.case_cong)

lemma same_index_trans: "same_index u v \<Longrightarrow> same_index v w \<Longrightarrow> same_index u w"
  by (simp add: same_index_def)

text \<open>A property of mappings that holds of the whole when it holds of the parts.\<close>

definition joinable :: "(segment_mapping \<Rightarrow> bool) \<Rightarrow> bool" where
  "joinable P \<longleftrightarrow> (\<forall>a b. joins a b \<longrightarrow> P a \<longrightarrow> P b \<longrightarrow> P (absorb a b))"

lemma insert_sorted_parts:
  assumes "wf_segs v" "0 < s_length m" "\<forall>s \<in> set v. seg_disj m s" "\<forall>s \<in> set (m # v). s_tag s = 0"
  shows "same_index (insert_sorted m v)
      (takeWhile (\<lambda>s. s_offset s < s_offset m) v @ m # dropWhile (\<lambda>s. s_offset s < s_offset m) v)"
    and "joinable P \<Longrightarrow> \<forall>s \<in> set (m # v). P s \<Longrightarrow> \<forall>s \<in> set (insert_sorted m v). P s"
proof -
  let ?b = "takeWhile (\<lambda>s. s_offset s < s_offset m) v" and ?a = "dropWhile (\<lambda>s. s_offset s < s_offset m) v"
  define front it where "front = (if ?b \<noteq> [] \<and> joins (last ?b) m then butlast ?b else ?b)"
    and "it = (if ?b \<noteq> [] \<and> joins (last ?b) m then absorb (last ?b) m else m)"
  have mem: "set ?b \<subseteq> set v" "set ?a \<subseteq> set v" by (auto dest: set_takeWhileD set_dropWhileD)
  have ins: "insert_sorted m v = front @ (case ?a of [] \<Rightarrow> [it]
      | n # rest \<Rightarrow> if joins it n then absorb it n # rest else it # n # rest)"
    unfolding insert_sorted_def front_def it_def Let_def
    by (cases "?b \<noteq> [] \<and> joins (last ?b) m") (simp_all only: if_True if_False split_conv simp_thms)
  have lastv: "?b \<noteq> [] \<Longrightarrow> last ?b \<in> set v" using mem(1) last_in_set by blast
  have one: "same_index (front @ it # ?a) (?b @ m # ?a)" "s_tag it = 0"
    "joinable P \<Longrightarrow> \<forall>s \<in> set (m # v). P s \<Longrightarrow> P it" "set front \<subseteq> set v"
  proof -
    show "same_index (front @ it # ?a) (?b @ m # ?a)"
    proof (cases "?b \<noteq> [] \<and> joins (last ?b) m")
      case True
      have fi: "front = butlast ?b" "it = absorb (last ?b) m"
        unfolding front_def it_def using True by (simp_all only: if_True simp_thms)
      have b: "butlast ?b @ last ?b # m # ?a = ?b @ m # ?a"
        using append_butlast_last_id [of ?b] True by (metis append.assoc append_Cons append_Nil)
      have "last ?b \<in> set v" using True lastv by blast
      then have "same_index (butlast ?b @ absorb (last ?b) m # ?a) (butlast ?b @ last ?b # m # ?a)"
        using True assms(4) takeWhile_end [OF assms(1-3)] unfolding b [symmetric]
        by (intro same_index_absorb) auto
      then show ?thesis unfolding fi b .
    next
      case False
      then show ?thesis using takeWhile_end [OF assms(1-3)] by (auto simp: front_def it_def same_index_def)
    qed
    show "s_tag it = 0" using assms(4) lastv by (simp add: it_def)
    show "joinable P \<Longrightarrow> \<forall>s \<in> set (m # v). P s \<Longrightarrow> P it"
      using lastv by (simp add: it_def joinable_def)
    show "set front \<subseteq> set v" using mem(1) by (auto simp: front_def dest: in_set_butlastD)
  qed
  show "same_index (insert_sorted m v) (?b @ m # ?a)"
  proof (cases "\<exists>n rest. ?a = n # rest \<and> joins it n")
    case True
    then obtain n rest where a: "?a = n # rest" "joins it n" by blast
    have "s_tag n = 0" using assms(4) mem(2) a(1) by auto
    then have "same_index (front @ absorb it n # rest) (front @ it # n # rest)"
      using one(1,2) a by (intro same_index_absorb) (auto simp: same_index_def)
    moreover have "insert_sorted m v = front @ absorb it n # rest" by (simp add: ins a)
    ultimately show ?thesis using same_index_trans one(1) a(1) by simp
  next
    case False
    then have "(case ?a of [] \<Rightarrow> [it]
        | n # rest \<Rightarrow> if joins it n then absorb it n # rest else it # n # rest) = it # ?a"
      by (simp only: split: list.split) (auto simp del: dropWhile_eq_Nil_conv)
    then have "insert_sorted m v = front @ it # ?a" by (simp only: ins)
    then show ?thesis using one(1) by simp
  qed
  show "\<forall>s \<in> set (insert_sorted m v). P s" if "joinable P" "\<forall>s \<in> set (m # v). P s"
    using one(3) [OF that] one(4) mem(2) that by (auto simp: ins joinable_def split: list.splits if_splits)
qed

lemma insert_sorted_correct:
  assumes "wf_segs v" "0 < s_length m" "\<forall>s \<in> set v. seg_disj m s" "\<forall>s \<in> set (m # v). s_tag s = 0"
  shows "wf_segs (insert_sorted m v)"
    "lookup (insert_sorted m v) x = (if covers m x then Some (0, place m x) else lookup v x)"
    "joinable P \<Longrightarrow> \<forall>s \<in> set (m # v). P s \<Longrightarrow> \<forall>s \<in> set (insert_sorted m v). P s"
proof -
  let ?b = "takeWhile (\<lambda>s. s_offset s < s_offset m) v" and ?a = "dropWhile (\<lambda>s. s_offset s < s_offset m) v"
  note si = insert_sorted_parts(1) [OF assms]
  then show "wf_segs (insert_sorted m v)" by (simp add: same_index_def)
  have wf: "wf_segs (?b @ m # ?a)" by (rule takeWhile_end [OF assms(1-3)])
  have v: "v = ?b @ ?a" by simp
  have "lookup ?b x = None" if "covers m x"
    using wf that by (intro lookup_above) (auto simp: wf_segs_append covers_def)
  then have "lookup (?b @ m # ?a) x = (if covers m x then Some (0, place m x) else lookup (?b @ ?a) x)"
    using assms(4) by (simp add: lookup_append del: takeWhile_dropWhile_id split: option.splits)
  then show "lookup (insert_sorted m v) x = (if covers m x then Some (0, place m x) else lookup v x)"
    using si by (simp add: same_index_def)
  show "joinable P \<Longrightarrow> \<forall>s \<in> set (m # v). P s \<Longrightarrow> \<forall>s \<in> set (insert_sorted m v). P s"
    by (rule insert_sorted_parts(2) [OF assms])
qed

lemma carve1_wf:
  assumes "0 < s_length s" "lo < hi"
  shows "wf_segs (carve1 lo hi s)" "p \<in> set (carve1 lo hi s) \<Longrightarrow> s_offset s \<le> s_offset p \<and> seg_end p \<le> seg_end s"
  using assms by (auto simp: carve1_def wf_segs_Cons seg_end_def split: if_splits)

lemma lookup_carve1:
  assumes "lo < hi" "0 < s_length s"
  shows "lookup (carve1 lo hi s) x = (if lo \<le> x \<and> x < hi then None else lookup [s] x)"
  using assms by (auto simp: carve1_def covers_def place_def seg_end_def)

lemma carve_correct:
  assumes "wf_segs v" "lo < hi"
  shows "wf_segs (carve lo hi v)"
    "lookup (carve lo hi v) x = (if lo \<le> x \<and> x < hi then None else lookup v x)"
    "p \<in> set (carve lo hi v) \<Longrightarrow> seg_end p \<le> lo \<or> hi \<le> s_offset p"
    "p \<in> set (carve lo hi v) \<Longrightarrow> \<exists>s \<in> set v. s_tag p = s_tag s \<and> s_zeroed p = s_zeroed s \<and> s_length p \<le> s_length s \<and>
       s_offset s \<le> s_offset p \<and> seg_end p \<le> seg_end s \<and> s_moffset s \<le> s_moffset p \<and> seg_mend p \<le> seg_mend s \<and>
       (s_zeroed s \<longrightarrow> s_moffset p = s_moffset s)"
proof -
  show "wf_segs (carve lo hi v)"
    using assms(1)
  proof (induction v)
    case (Cons s v)
    have "seg_end p \<le> s_offset q" if p: "p \<in> set (carve1 lo hi s)" and q: "q \<in> set (carve lo hi v)" for p q
    proof -
      obtain t where t: "t \<in> set v" "q \<in> set (carve1 lo hi t)" using q by (auto simp: carve_def)
      then have "seg_end s \<le> s_offset t" "0 < s_length t" "0 < s_length s"
        using Cons.prems by (auto simp: wf_segs_Cons wf_segs_pos)
      then show ?thesis using carve1_wf(2) [of s lo hi p] carve1_wf(2) [of t lo hi q] t p assms(2) by force
    qed
    then show ?case using Cons carve1_wf(1) assms(2) by (auto simp: carve_def wf_segs_Cons wf_segs_append)
  qed (simp add: carve_def)
  show "lookup (carve lo hi v) x = (if lo \<le> x \<and> x < hi then None else lookup v x)"
    using assms(1)
  proof (induction v)
    case (Cons s v)
    then show ?case
      using lookup_carve1 [OF assms(2), of s x]
      by (auto simp: carve_def lookup_append wf_segs_Cons)
  qed (simp add: carve_def)
  show "p \<in> set (carve lo hi v) \<Longrightarrow> seg_end p \<le> lo \<or> hi \<le> s_offset p"
    by (auto simp: carve_def carve1_def seg_end_def split: if_splits)
  show "p \<in> set (carve lo hi v) \<Longrightarrow> \<exists>s \<in> set v. s_tag p = s_tag s \<and> s_zeroed p = s_zeroed s \<and> s_length p \<le> s_length s \<and>
       s_offset s \<le> s_offset p \<and> seg_end p \<le> seg_end s \<and> s_moffset s \<le> s_moffset p \<and> seg_mend p \<le> seg_mend s \<and>
       (s_zeroed s \<longrightarrow> s_moffset p = s_moffset s)"
    by (fastforce simp: carve_def carve1_def seg_end_def seg_mend_def split: if_splits)
qed

section \<open>What a plan does\<close>

text \<open>The operations tile the range, and those that append take consecutive payload sectors.\<close>

fun tiles :: "nat \<Rightarrow> nat \<Rightarrow> Op list \<Rightarrow> bool" where
  "tiles lo hi [] \<longleftrightarrow> lo = hi"
| "tiles lo hi (op # ops) \<longleftrightarrow> op_voff op = lo \<and> 0 < op_nsector op \<and> tiles (lo + op_nsector op) hi ops"

fun fresh :: "nat \<Rightarrow> nat \<Rightarrow> Op list \<Rightarrow> bool" where
  "fresh fin fin' [] \<longleftrightarrow> fin = fin'"
| "fresh fin fin' (op # ops) \<longleftrightarrow>
     (if op_inplace op then fresh fin fin' ops else op_moff op = fin \<and> fresh (fin + op_nsector op) fin' ops)"

text \<open>The payload sector of a logical one.\<close>

definition data_at :: "segment_mapping list \<Rightarrow> nat \<Rightarrow> nat option" where
  "data_at v x = (case lookup v x of Some (_, p) \<Rightarrow> p | None \<Rightarrow> None)"

text \<open>An operation in place keeps the payload sector of each of its sectors; an appending one covers
  sectors without payload.\<close>

definition reuses :: "segment_mapping list \<Rightarrow> Op \<Rightarrow> bool" where
  "reuses segs op \<longleftrightarrow> (\<forall>x. covers (op_seg op) x \<longrightarrow>
     data_at segs x = (if op_inplace op then place (op_seg op) x else None))"

lemma tiles_append: "tiles lo hi (a @ b) \<longleftrightarrow> (\<exists>m. tiles lo m a \<and> tiles m hi b)"
  by (induction a arbitrary: lo) auto

lemma fresh_append: "fresh f f' (a @ b) \<longleftrightarrow> (\<exists>m. fresh f m a \<and> fresh m f' b)"
  by (induction a arbitrary: f) auto

lemma op_seg_simps [simp]:
  "s_offset (op_seg op) = op_voff op" "s_length (op_seg op) = op_nsector op" "s_moffset (op_seg op) = op_moff op"
  "\<not> s_zeroed (op_seg op)" "s_tag (op_seg op) = 0"
  "seg_end (op_seg op) = op_voff op + op_nsector op" "seg_mend (op_seg op) = op_moff op + op_nsector op"
  by (simp_all add: op_seg_def seg_end_def seg_mend_def)

lemma tiles_le: "tiles lo hi ops \<Longrightarrow> lo \<le> hi"
  by (induction ops arbitrary: lo) force+

lemma fresh_le: "fresh fin fin' ops \<Longrightarrow> fin \<le> fin'"
  by (induction ops arbitrary: fin) (force split: if_splits)+

lemma data_at_Cons:
  assumes "wf_segs (s # ss)"
  shows "data_at (s # ss) x = (if covers s x \<and> \<not> s_zeroed s then Some (s_moffset s + (x - s_offset s)) else data_at ss x)"
proof -
  have "lookup ss x = None" if "covers s x"
    using assms that by (intro lookup_below) (auto simp: wf_segs_Cons covers_def)
  then show ?thesis by (auto simp: data_at_def place_def)
qed

lemma data_at_before: "wf_segs (s # ss) \<Longrightarrow> x < s_offset s \<Longrightarrow> data_at (s # ss) x = None"
  using lookup_before_head [of s ss x] by (simp add: data_at_def del: lookup.simps)

lemma plan_loop_correct:
  assumes "wf_segs ss" "plan_loop lo hi ss cur fin = (ops, cur', fin')" "lo \<le> cur" "cur \<le> hi"
    "\<forall>s \<in> set ss. cur < seg_end s" "\<forall>x. cur \<le> x \<and> x < hi \<longrightarrow> data_at segs x = data_at ss x"
  shows "tiles cur cur' ops \<and> fresh fin fin' ops \<and> (\<forall>op \<in> set ops. reuses segs op) \<and> cur' \<le> hi \<and>
    (\<forall>x. cur' \<le> x \<and> x < hi \<longrightarrow> data_at segs x = None)"
  using assms
proof (induction ss arbitrary: cur fin ops)
  case Nil
  then show ?case by (auto simp: data_at_def)
next
  case (Cons s ss)
  have wf: "wf_segs ss" "0 < s_length s" "\<forall>t \<in> set ss. seg_end s \<le> s_offset t"
    using Cons.prems(1) by (auto simp: wf_segs_Cons)
  note here = data_at_Cons [OF Cons.prems(1)]
  consider (stop) "s_offset s \<ge> hi" | (zero) "s_offset s < hi" "s_zeroed s" | (data) "s_offset s < hi" "\<not> s_zeroed s"
    by linarith
  then show ?case
  proof cases
    case stop
    then show ?thesis using Cons.prems data_at_before [OF Cons.prems(1)] by auto
  next
    case zero
    then have "plan_loop lo hi ss cur fin = (ops, cur', fin')" using Cons.prems(2) by simp
    then show ?thesis using Cons.prems zero(2) here by (intro Cons.IH [OF wf(1)]) auto
  next
    case data
    let ?cs = "max cur (s_offset s)" and ?ce = "min (seg_end s) hi"
    let ?pre = "if s_offset s > cur then [\<lparr>op_voff = cur, op_moff = fin, op_nsector = s_offset s - cur, op_inplace = False\<rparr>] else []"
    let ?fin = "if s_offset s > cur then fin + (s_offset s - cur) else fin"
    let ?op = "\<lparr>op_voff = ?cs, op_moff = s_moffset s + (?cs - s_offset s), op_nsector = ?ce - ?cs, op_inplace = True\<rparr>"
    have cur: "cur < seg_end s" and past: "\<not> seg_end s \<le> lo" using Cons.prems(3,5) by auto
    show ?thesis
    proof (cases "?cs < ?ce")
      case False
      then have "cur = hi" using cur data(1) seg_end_gt [OF wf(2)] Cons.prems(4) by (auto simp: min_def max_def split: if_splits)
      then have "plan_loop lo hi ss hi fin = (ops, cur', fin')"
        using Cons.prems(2,4) data past False by (auto simp: Let_def split: prod.splits)
      then show ?thesis unfolding \<open>cur = hi\<close>
        using Cons.prems(3,5) \<open>cur = hi\<close> by (intro Cons.IH [OF wf(1)]) auto
    next
      case True
      then obtain ops' where rec: "plan_loop lo hi ss ?ce ?fin = (ops', cur', fin')"
        and ops: "ops = ?pre @ ?op # ops'"
        using Cons.prems(2) data past by (auto simp: Let_def split: prod.splits)
      have IH: "tiles ?ce cur' ops' \<and> fresh ?fin fin' ops' \<and> (\<forall>op \<in> set ops'. reuses segs op) \<and> cur' \<le> hi \<and>
          (\<forall>x. cur' \<le> x \<and> x < hi \<longrightarrow> data_at segs x = None)"
      proof (rule Cons.IH [OF wf(1) rec])
        show "\<forall>t \<in> set ss. ?ce < seg_end t"
        proof
          fix t assume "t \<in> set ss"
          then have "seg_end s \<le> s_offset t" "s_offset t < seg_end t"
            using wf(3) seg_end_gt wf_segs_pos [OF wf(1)] by auto
          then show "?ce < seg_end t" by simp
        qed
        show "\<forall>x. ?ce \<le> x \<and> x < hi \<longrightarrow> data_at segs x = data_at ss x"
          using Cons.prems(6) cur here by (auto simp: covers_def)
      qed (use cur Cons.prems past in auto)
      have "reuses segs ?op"
        using Cons.prems(6) data(2) here True by (auto simp: reuses_def covers_def place_def op_seg_def seg_end_def)
      moreover have "\<forall>op \<in> set ?pre. reuses segs op"
        using Cons.prems(6) data(1) data_at_before [OF Cons.prems(1)]
        by (auto simp: reuses_def covers_def op_seg_def seg_end_def)
      ultimately show ?thesis
        using IH True unfolding ops by (auto simp: max_def split: if_splits)
    qed
  qed
qed

lemma plan_ops_correct:
  assumes "wf_segs segs" "lo < hi" "plan_ops segs lo hi fin = (ops, fin')"
  shows "tiles lo hi ops" "fresh fin fin' ops" "\<forall>op \<in> set ops. reuses segs op"
proof -
  let ?ss = "upper_bound seg_end lo segs"
  obtain ops1 cur fin1 where p: "plan_loop lo hi ?ss lo fin = (ops1, cur, fin1)"
    by (cases "plan_loop lo hi ?ss lo fin")
  have pl: "tiles lo cur ops1 \<and> fresh fin fin1 ops1 \<and> (\<forall>op \<in> set ops1. reuses segs op) \<and> cur \<le> hi \<and>
      (\<forall>x. cur \<le> x \<and> x < hi \<longrightarrow> data_at segs x = None)"
    using assms(1,2) upper_bound_ends [OF assms(1)] lookup_upper_bound [of lo _ segs]
    by (intro plan_loop_correct [OF upper_bound_wf [OF assms(1)] p]) (auto simp: data_at_def)
  have "reuses segs \<lparr>op_voff = cur, op_moff = fin1, op_nsector = hi - cur, op_inplace = False\<rparr>"
    using pl by (auto simp: reuses_def covers_def op_seg_def seg_end_def)
  then have "tiles lo hi ops \<and> fresh fin fin' ops \<and> (\<forall>op \<in> set ops. reuses segs op)"
    using pl assms(3) p by (auto simp: plan_ops_def tiles_append fresh_append split: if_splits)
  then show "tiles lo hi ops" "fresh fin fin' ops" "\<forall>op \<in> set ops. reuses segs op" by blast+
qed

lemma tiles_segs:
  assumes "tiles lo hi ops"
  shows "wf_segs (map op_seg ops)" "(\<exists>op \<in> set ops. covers (op_seg op) x) \<longleftrightarrow> lo \<le> x \<and> x < hi"
    "op \<in> set ops \<Longrightarrow> lo \<le> op_voff op \<and> op_voff op + op_nsector op \<le> hi \<and> 0 < op_nsector op"
proof -
  show range: "op \<in> set ops \<Longrightarrow> lo \<le> op_voff op \<and> op_voff op + op_nsector op \<le> hi \<and> 0 < op_nsector op" for op
    using assms
  proof (induction ops arbitrary: lo)
    case (Cons a ops)
    have "lo + op_nsector a \<le> hi" using Cons.prems(2) tiles_le by auto
    then show ?case using Cons.prems Cons.IH [of "lo + op_nsector a"] by auto
  qed simp
  show "wf_segs (map op_seg ops)"
    using assms
  proof (induction ops arbitrary: lo)
    case (Cons a ops)
    have "lo + op_nsector a \<le> op_voff op" if "op \<in> set ops" for op
      using Cons.prems that
    proof -
      have "tiles (lo + op_nsector a) hi ops" using Cons.prems by simp
      then show ?thesis using that
      proof (induction ops arbitrary: lo a)
        case (Cons b ops)
        then show ?case by (cases "op = b") (auto dest: Cons.IH [of "lo + op_nsector a" b])
      qed simp
    qed
    then show ?case using Cons by (auto simp: wf_segs_Cons)
  qed simp
  show "(\<exists>op \<in> set ops. covers (op_seg op) x) \<longleftrightarrow> lo \<le> x \<and> x < hi"
  proof
    show "\<exists>op \<in> set ops. covers (op_seg op) x \<Longrightarrow> lo \<le> x \<and> x < hi"
      using range by (fastforce simp: covers_def)
    show "lo \<le> x \<and> x < hi \<Longrightarrow> \<exists>op \<in> set ops. covers (op_seg op) x"
      using assms
    proof (induction ops arbitrary: lo)
      case (Cons a ops)
      then show ?case
        using Cons.IH [of "lo + op_nsector a"] by (cases "x < lo + op_nsector a") (auto simp: covers_def)
    qed simp
  qed
qed

lemma disjoint_lookup:
  assumes "wf_segs v" "0 < s_length m"
  shows "(\<forall>s \<in> set v. seg_disj m s) \<longleftrightarrow> (\<forall>x. covers m x \<longrightarrow> lookup v x = None)"
proof -
  have "seg_disj m s \<longleftrightarrow> (\<forall>x. covers m x \<longrightarrow> \<not> covers s x)" if "s \<in> set v" for s
  proof
    show "seg_disj m s \<Longrightarrow> \<forall>x. covers m x \<longrightarrow> \<not> covers s x" by (auto simp: seg_disj_def covers_def)
    assume "\<forall>x. covers m x \<longrightarrow> \<not> covers s x"
    then have "\<not> covers m (max (s_offset m) (s_offset s)) \<or> \<not> covers s (max (s_offset m) (s_offset s))" by blast
    then show "seg_disj m s"
      using seg_end_gt [OF assms(2)] seg_end_gt [OF wf_segs_pos [OF assms(1) that]]
      by (auto simp: seg_disj_def covers_def max_def split: if_splits)
  qed
  then show ?thesis by (auto simp: lookup_None_iff)
qed

lemma fold_insert_sorted_correct:
  assumes "wf_segs v" "wf_segs ms" "\<forall>m \<in> set ms. \<forall>s \<in> set v. seg_disj m s" "\<forall>s \<in> set (ms @ v). s_tag s = 0"
  shows "wf_segs (fold insert_sorted ms v) \<and>
    (\<forall>x. lookup (fold insert_sorted ms v) x = (case lookup ms x of Some w \<Rightarrow> Some w | None \<Rightarrow> lookup v x)) \<and>
    (joinable P \<longrightarrow> (\<forall>s \<in> set (ms @ v). P s) \<longrightarrow> (\<forall>s \<in> set (fold insert_sorted ms v). P s))"
  using assms
proof (induction ms arbitrary: v)
  case (Cons m ms)
  have m: "0 < s_length m" "wf_segs ms" "\<forall>t \<in> set ms. seg_end m \<le> s_offset t"
    using Cons.prems(2) by (auto simp: wf_segs_Cons)
  have disj: "\<forall>s \<in> set v. seg_disj m s" and tags: "\<forall>s \<in> set (m # v). s_tag s = 0"
    using Cons.prems(3,4) by auto
  note ins = insert_sorted_correct [OF Cons.prems(1) m(1) disj tags]
  have tags': "\<forall>s \<in> set (insert_sorted m v). s_tag s = 0"
    using tags by (intro ins(3)) (simp_all add: joinable_def)
  have "seg_disj t s" if "t \<in> set ms" "s \<in> set (insert_sorted m v)" for t s
  proof -
    have t: "0 < s_length t" using m(2) that(1) wf_segs_pos by blast
    have "lookup v x = None" if "covers t x" for x
      using disjoint_lookup [OF Cons.prems(1) t] Cons.prems(3) \<open>t \<in> set ms\<close> that by auto
    moreover have "\<not> covers m x" if "covers t x" for x
      using m(3) \<open>t \<in> set ms\<close> that by (auto simp: covers_def)
    ultimately show ?thesis using disjoint_lookup [OF ins(1) t] ins(2) that(2) by auto
  qed
  then have IH: "wf_segs (fold insert_sorted ms (insert_sorted m v)) \<and>
    (\<forall>x. lookup (fold insert_sorted ms (insert_sorted m v)) x =
       (case lookup ms x of Some w \<Rightarrow> Some w | None \<Rightarrow> lookup (insert_sorted m v) x)) \<and>
    (joinable P \<longrightarrow> (\<forall>s \<in> set (ms @ insert_sorted m v). P s) \<longrightarrow> (\<forall>s \<in> set (fold insert_sorted ms (insert_sorted m v)). P s))"
    using ins(1) m(2) tags' Cons.prems(4) by (intro Cons.IH) auto
  have "lookup ms x = None" if "covers m x" for x
    using m(3) that by (intro lookup_below) (auto simp: covers_def)
  then have "lookup (fold insert_sorted (m # ms) v) x =
      (case lookup (m # ms) x of Some w \<Rightarrow> Some w | None \<Rightarrow> lookup v x)" for x
    using IH ins(2) [of x] tags by (auto split: option.splits)
  then show ?case using IH ins(3) by auto
qed simp

text \<open>The mappings a writable layer may hold: inside a device of \<open>V\<close> sectors, with payload below sector \<open>E\<close>
  of the file.\<close>

definition seg_bounded :: "nat \<Rightarrow> nat \<Rightarrow> segment_mapping \<Rightarrow> bool" where
  "seg_bounded V E s \<longleftrightarrow> s_tag s = 0 \<and> 0 < s_length s \<and> s_length s \<le> kMaxSegLen \<and> seg_end s \<le> V \<and>
     (if s_zeroed s then s_moffset s = kHeaderSectors else kHeaderSectors \<le> s_moffset s \<and> seg_mend s \<le> E)"

lemma seg_bounded_joinable: "joinable (seg_bounded V E)"
  unfolding joinable_def seg_bounded_def using joinsD by auto

lemma seg_bounded_mono: "seg_bounded V E s \<Longrightarrow> V \<le> V' \<Longrightarrow> E \<le> E' \<Longrightarrow> seg_bounded V' E' s"
  by (auto simp: seg_bounded_def split: if_splits)

lemma seg_bounded_carve:
  assumes "wf_segs v" "lo < hi" "\<forall>s \<in> set v. seg_bounded V E s"
  shows "\<forall>s \<in> set (carve lo hi v). seg_bounded V E s"
proof
  fix p assume p: "p \<in> set (carve lo hi v)"
  have "0 < s_length p" using carve_correct(1) [OF assms(1,2)] p wf_segs_pos by blast
  then show "seg_bounded V E p"
    using carve_correct(4) [OF assms(1,2) p] assms(3) by (fastforce simp: seg_bounded_def split: if_splits)
qed

text \<open>Replacing \<open>[lo, hi)\<close> by new mappings inside it.\<close>

definition install :: "nat \<Rightarrow> nat \<Rightarrow> segment_mapping list \<Rightarrow> segment_mapping list \<Rightarrow> segment_mapping list" where
  "install lo hi ms segs = fold insert_sorted ms (carve lo hi segs)"

lemma install_correct:
  assumes "wf_segs segs" "lo < hi" "wf_segs ms" "\<forall>s \<in> set segs. seg_bounded V E s" "\<forall>s \<in> set ms. seg_bounded V E s"
    "\<forall>s \<in> set ms. lo \<le> s_offset s \<and> seg_end s \<le> hi"
  shows "wf_segs (install lo hi ms segs)" "\<forall>s \<in> set (install lo hi ms segs). seg_bounded V E s"
    "lookup (install lo hi ms segs) x = (if lo \<le> x \<and> x < hi then lookup ms x else lookup segs x)"
proof -
  have carved: "\<forall>s \<in> set (carve lo hi segs). seg_bounded V E s" by (rule seg_bounded_carve [OF assms(1,2,4)])
  have "\<forall>m \<in> set ms. \<forall>s \<in> set (carve lo hi segs). seg_disj m s"
    using carve_correct(3) [OF assms(1,2)] assms(6) by (fastforce simp: seg_disj_def)
  moreover have "\<forall>s \<in> set (ms @ carve lo hi segs). s_tag s = 0"
    using carved assms(5) by (auto simp: seg_bounded_def)
  ultimately have f: "wf_segs (install lo hi ms segs) \<and>
    (\<forall>x. lookup (install lo hi ms segs) x = (case lookup ms x of Some w \<Rightarrow> Some w | None \<Rightarrow> lookup (carve lo hi segs) x)) \<and>
    (joinable (seg_bounded V E) \<longrightarrow> (\<forall>s \<in> set (ms @ carve lo hi segs). seg_bounded V E s) \<longrightarrow>
      (\<forall>s \<in> set (install lo hi ms segs). seg_bounded V E s))"
    unfolding install_def by (intro fold_insert_sorted_correct carve_correct(1) assms)
  then show "wf_segs (install lo hi ms segs)" "\<forall>s \<in> set (install lo hi ms segs). seg_bounded V E s"
    using carved assms(5) seg_bounded_joinable by auto
  have "lookup ms x = None" if "\<not> (lo \<le> x \<and> x < hi)"
    using assms(6) that unfolding lookup_None_iff covers_def by (meson order_trans less_le_trans)
  then show "lookup (install lo hi ms segs) x = (if lo \<le> x \<and> x < hi then lookup ms x else lookup segs x)"
    using f carve_correct(2) [OF assms(1,2)] by (auto split: option.splits)
qed

lemma lookup_ops:
  assumes "tiles lo hi ops" "op \<in> set ops" "covers (op_seg op) x"
  shows "lookup (map op_seg ops) x = Some (0, Some (op_moff op + (x - op_voff op)))"
  using lookup_memI [OF tiles_segs(1) [OF assms(1)], of "op_seg op" x] assms(2,3) by (simp add: place_def)

lemma fresh_range:
  assumes "fresh fin fin' ops" "op \<in> set ops" "\<not> op_inplace op"
  shows "fin \<le> op_moff op" "op_moff op + op_nsector op \<le> fin'"
proof -
  have "fin \<le> op_moff op \<and> op_moff op + op_nsector op \<le> fin'"
    using assms(1,2)
  proof (induction ops arbitrary: fin)
    case (Cons a ops)
    show ?case
    proof (cases "op_inplace a")
      case True
      then show ?thesis using Cons assms(3) by auto
    next
      case False
      then have rest: "op_moff a = fin" "fresh (fin + op_nsector a) fin' ops" using Cons.prems(1) by auto
      show ?thesis
      proof (cases "op = a")
        case True
        then show ?thesis using rest fresh_le by auto
      next
        case False
        then show ?thesis using Cons.IH [OF rest(2)] Cons.prems(2) by auto
      qed
    qed
  qed simp
  then show "fin \<le> op_moff op" "op_moff op + op_nsector op \<le> fin'" by auto
qed

lemma fresh_sorted:
  assumes "fresh fin fin' ops"
  shows "sorted_wrt (\<lambda>a b. op_inplace a \<or> op_inplace b \<or> op_moff a + op_nsector a \<le> op_moff b) ops"
  using assms
proof (induction ops arbitrary: fin)
  case (Cons a ops)
  then show ?case using fresh_range [of "fin + op_nsector a" fin' ops] by (cases "op_inplace a") auto
qed simp

lemma bounded_lookup:
  assumes "\<forall>s \<in> set v. seg_bounded V E s" "lookup v x = Some (t, q)"
  shows "t = 0" "x < V" "q = Some p \<Longrightarrow> kHeaderSectors \<le> p \<and> p < E"
  using assms lookup_SomeD [OF assms(2)]
  by (fastforce simp: seg_bounded_def covers_def place_def seg_end_def seg_mend_def split: if_splits)+

text \<open>The index after a write, sector by sector: reused or fresh payload inside the range.\<close>

lemma written_lookup:
  assumes "tiles lo hi ops" "\<forall>op \<in> set ops. reuses segs op" "lo \<le> x" "x < hi"
  obtains op where "op \<in> set ops" "covers (op_seg op) x"
    "lookup (map op_seg ops) x = Some (0, Some (op_moff op + (x - op_voff op)))"
    "op_inplace op \<Longrightarrow> data_at segs x = Some (op_moff op + (x - op_voff op))"
proof -
  obtain op where op: "op \<in> set ops" "covers (op_seg op) x" using tiles_segs(2) [OF assms(1)] assms(3,4) by blast
  have "reuses segs op" using assms(2) op(1) by blast
  then have "op_inplace op \<Longrightarrow> data_at segs x = Some (op_moff op + (x - op_voff op))"
    using op(2) by (simp add: reuses_def place_def)
  then show ?thesis using that [OF op lookup_ops [OF assms(1) op]] by blast
qed

lemma data_atD: "data_at v x = Some p \<Longrightarrow> \<exists>t. lookup v x = Some (t, Some p)"
  by (auto simp: data_at_def split: option.splits)

lemma write_owns_once:
  assumes wf: "wf_segs segs" and lt: "lo < hi" and b: "\<forall>s \<in> set segs. seg_bounded V E s"
    and plan: "tiles lo hi ops" "fresh E E' ops" "\<forall>op \<in> set ops. reuses segs op" and once: "owns_once segs"
    and look: "\<And>x. lookup v' x = (if lo \<le> x \<and> x < hi then lookup (map op_seg ops) x else lookup segs x)"
  shows "owns_once v'"
proof -
  have split: "(\<exists>t. lookup segs x = Some (t, Some p)) \<or>
      (\<exists>op \<in> set ops. \<not> op_inplace op \<and> covers (op_seg op) x \<and> p = op_moff op + (x - op_voff op))"
    if l: "lookup v' x = Some (t, Some p)" for x t p
  proof (cases "lo \<le> x \<and> x < hi")
    case True
    then obtain op where op: "op \<in> set ops" "covers (op_seg op) x"
      "lookup (map op_seg ops) x = Some (0, Some (op_moff op + (x - op_voff op)))"
      "op_inplace op \<Longrightarrow> data_at segs x = Some (op_moff op + (x - op_voff op))"
      using written_lookup [OF plan(1,3)] by blast
    have "p = op_moff op + (x - op_voff op)" using op(3) l True look by simp
    then show ?thesis using op data_atD by (cases "op_inplace op") auto
  next
    case False
    then show ?thesis using l look by (metis (full_types))
  qed
  have old: "p < E" if "lookup segs x = Some (t, Some p)" for x t p
    using bounded_lookup(3) [OF b that] by blast
  have new: "E \<le> p" if "op \<in> set ops" "\<not> op_inplace op" "p = op_moff op + (x - op_voff op)" for op x p
    using fresh_range [OF plan(2) that(1,2)] that(3) by simp
  have both_new: "x = y" if ops: "a \<in> set ops" "\<not> op_inplace a" "covers (op_seg a) x"
      "b \<in> set ops" "\<not> op_inplace b" "covers (op_seg b) y"
      and eq: "op_moff a + (x - op_voff a) = op_moff b + (y - op_voff b)" for a b x y
  proof (cases "a = b")
    case True
    then show ?thesis using ops eq by (auto simp: covers_def)
  next
    case False
    then have "op_moff a + op_nsector a \<le> op_moff b \<or> op_moff b + op_nsector b \<le> op_moff a"
      using sorted_wrt_total [OF fresh_sorted [OF plan(2)] ops(1,4)] ops(2,5) by auto
    then show ?thesis using ops(3,6) eq by (auto simp: covers_def)
  qed
  have both_old: "x = y" if "lookup segs x = Some (t, Some p)" "lookup segs y = Some (u, Some p)" for x y t u p
    using once that unfolding owns_once_def by blast
  show ?thesis
    unfolding owns_once_def
  proof (intro allI impI)
    fix x y t u p assume l: "lookup v' x = Some (t, Some p)" "lookup v' y = Some (u, Some p)"
    show "x = y"
    proof (cases "p < E")
      case True
      then obtain t' u' where "lookup segs x = Some (t', Some p)" "lookup segs y = Some (u', Some p)"
        using split [OF l(1)] split [OF l(2)] new by (meson not_le)
      then show ?thesis by (rule both_old)
    next
      case False
      then obtain a b where "a \<in> set ops" "\<not> op_inplace a" "covers (op_seg a) x" "p = op_moff a + (x - op_voff a)"
        "b \<in> set ops" "\<not> op_inplace b" "covers (op_seg b) y" "p = op_moff b + (y - op_voff b)"
        using split [OF l(1)] split [OF l(2)] old by blast
      then show ?thesis using both_new by metis
    qed
  qed
qed

end
