(* ===== verification/FileIo.thy ===== *)
theory FileIo
  imports Prelude
begin

text \<open>
  Files and the outcomes of I/O calls. A file is its bytes. Every call into the kernel or the Elio
  runtime takes the next outcome of a script; an exhausted script means that all further calls
  succeed. Theorems quantify over scripts, so they hold for failures at any call.

  The helpers follow the wrappers the format sources use: \<open>read_all\<close> and \<open>write_all\<close> of
  \<open>src/format/lsmt_rw.cpp\<close>, and \<open>read_exact\<close> and \<open>write_exact\<close> of \<open>src/format/lsmt_rw_file.cpp\<close>. Both
  transfer everything or report an error, where a failed write may have stored a prefix.
\<close>

datatype outcome = Done | Fail errno nat

type_synonym script = "outcome list"

definition next_outcome :: "script \<Rightarrow> outcome" where
  "next_outcome io = (case io of [] \<Rightarrow> Done | x # _ \<Rightarrow> x)"

text \<open>\<open>pwrite\<close> extends the file with zeros up to the offset.\<close>

definition file_write :: "nat \<Rightarrow> bytes \<Rightarrow> bytes \<Rightarrow> bytes" where
  "file_write off bs f =
     (if bs = [] then f
      else take off (f @ zeros (off - length f)) @ bs @ drop (off + length bs) f)"

definition write_all :: "bytes \<Rightarrow> nat \<Rightarrow> bytes \<Rightarrow> script \<Rightarrow> errno option \<times> bytes \<times> script" where
  "write_all bs off f io = (case next_outcome io of
     Done \<Rightarrow> (None, file_write off bs f, tl io)
   | Fail e n \<Rightarrow> (Some e, file_write off (take n bs) f, tl io))"

definition read_all :: "nat \<Rightarrow> nat \<Rightarrow> bytes \<Rightarrow> script \<Rightarrow> bytes result \<times> script" where
  "read_all n off f io = (case next_outcome io of
     Done \<Rightarrow> (if off + n \<le> length f then Inr (get_bytes off n f) else Inl EIO, tl io)
   | Fail e _ \<Rightarrow> (Inl e, tl io))"

text \<open>A call without data: \<open>fdatasync\<close>, \<open>fsync\<close>, \<open>rename\<close>, \<open>openat\<close> and the like.\<close>

definition sys_call :: "script \<Rightarrow> errno option \<times> script" where
  "sys_call io = (case next_outcome io of Done \<Rightarrow> (None, tl io) | Fail e _ \<Rightarrow> (Some e, tl io))"

section \<open>Reading what was written\<close>

lemma length_file_write: "length (file_write off bs f) = (if bs = [] then length f else max (length f) (off + length bs))"
  by (auto simp: file_write_def)

lemma file_write_length_ge: "length f \<le> length (file_write off bs f)"
  by (simp add: length_file_write)

lemma file_write_nth:
  assumes "i < length (file_write off bs f)"
  shows "file_write off bs f ! i =
    (if off \<le> i \<and> i < off + length bs then bs ! (i - off) else if i < length f then f ! i else 0)"
  using assms by (cases "off \<le> length f") (auto simp: file_write_def nth_append min_def length_file_write split: if_splits)

lemma get_file_write_same: "get_bytes off (length bs) (file_write off bs f) = bs"
  by (auto simp: get_bytes_def file_write_def)

lemma get_file_write_inside:
  assumes "off \<le> k" "k + n \<le> off + length bs"
  shows "get_bytes k n (file_write off bs f) = get_bytes (k - off) n bs"
proof (rule nth_equalityI)
  have len: "n > 0 \<Longrightarrow> k + n \<le> length (file_write off bs f)"
    using assms by (auto simp: length_file_write)
  then show "length (get_bytes k n (file_write off bs f)) = length (get_bytes (k - off) n bs)"
    using assms by (cases "n = 0") (auto simp: get_bytes_def)
  fix i assume "i < length (get_bytes k n (file_write off bs f))"
  then have "i < n" by (simp add: get_bytes_def)
  then show "get_bytes k n (file_write off bs f) ! i = get_bytes (k - off) n bs ! i"
    using assms len by (simp add: get_bytes_def file_write_nth)
qed

lemma get_file_write_outside:
  assumes "k + n \<le> length f" "k + n \<le> off \<or> off + length bs \<le> k"
  shows "get_bytes k n (file_write off bs f) = get_bytes k n f"
proof (rule nth_equalityI)
  have len: "k + n \<le> length (file_write off bs f)"
    using assms(1) file_write_length_ge [of f off bs] by linarith
  then show "length (get_bytes k n (file_write off bs f)) = length (get_bytes k n f)"
    using assms(1) by (simp add: get_bytes_def)
  fix i assume "i < length (get_bytes k n (file_write off bs f))"
  then have i: "i < n" by (simp add: get_bytes_def)
  then show "get_bytes k n (file_write off bs f) ! i = get_bytes k n f ! i"
    using assms len by (auto simp: get_bytes_def file_write_nth)
qed

lemma file_write_end: "file_write (length f) bs f = f @ bs"
  by (simp add: file_write_def)

lemma write_all_cases:
  obtains "write_all bs off f io = (None, file_write off bs f, tl io)"
  | e n where "write_all bs off f io = (Some e, file_write off (take n bs) f, tl io)"
  by (cases "next_outcome io") (auto simp: write_all_def)

lemma read_all_Inr: "read_all n off f io = (Inr bs, io') \<Longrightarrow> bs = get_bytes off n f \<and> off + n \<le> length f"
  by (auto simp: read_all_def split: outcome.splits if_splits)

lemma script_ok [simp]: "next_outcome [] = Done" "tl [] = ([] :: script)"
  by (simp_all add: next_outcome_def)

lemma calls_ok [simp]:
  "write_all bs off f [] = (None, file_write off bs f, [])" "sys_call [] = (None, [])"
  "off + n \<le> length f \<Longrightarrow> read_all n off f [] = (Inr (get_bytes off n f), [])"
  by (simp_all add: write_all_def sys_call_def read_all_def)

end
