(* ===== verification/Crc32c.thy ===== *)
theory Crc32c
  imports Bytes
begin

unbundle bit_operations_syntax

text \<open>
  \<open>src/common/crc32c.cpp\<close>: raw CRC-32C, table-driven and with the SSE4.2 instructions.

  The instruction \<open>crc32\<close> is modelled by its architectural definition, the division by the
  reflected Castagnoli polynomial one bit at a time (\<open>crc32_bit\<close>), on a byte and on a 64-bit
  operand. The x86 loop reads bytes up to an 8-byte boundary of the buffer's address, then 8
  bytes per instruction, then the tail; the address modulo 8 is a parameter. The theorems say
  that the hardware and the software routines compute the same function, so that
  \<open>crc32c_extend\<close> does not depend on the machine, and that the table is the polynomial's.
\<close>

definition kCrc32cTable :: "32 word list" where
  "kCrc32cTable = [
     0x00000000, 0xF26B8303, 0xE13B70F7, 0x1350F3F4, 0xC79A971F, 0x35F1141C, 0x26A1E7E8, 0xD4CA64EB,
     0x8AD958CF, 0x78B2DBCC, 0x6BE22838, 0x9989AB3B, 0x4D43CFD0, 0xBF284CD3, 0xAC78BF27, 0x5E133C24,
     0x105EC76F, 0xE235446C, 0xF165B798, 0x030E349B, 0xD7C45070, 0x25AFD373, 0x36FF2087, 0xC494A384,
     0x9A879FA0, 0x68EC1CA3, 0x7BBCEF57, 0x89D76C54, 0x5D1D08BF, 0xAF768BBC, 0xBC267848, 0x4E4DFB4B,
     0x20BD8EDE, 0xD2D60DDD, 0xC186FE29, 0x33ED7D2A, 0xE72719C1, 0x154C9AC2, 0x061C6936, 0xF477EA35,
     0xAA64D611, 0x580F5512, 0x4B5FA6E6, 0xB93425E5, 0x6DFE410E, 0x9F95C20D, 0x8CC531F9, 0x7EAEB2FA,
     0x30E349B1, 0xC288CAB2, 0xD1D83946, 0x23B3BA45, 0xF779DEAE, 0x05125DAD, 0x1642AE59, 0xE4292D5A,
     0xBA3A117E, 0x4851927D, 0x5B016189, 0xA96AE28A, 0x7DA08661, 0x8FCB0562, 0x9C9BF696, 0x6EF07595,
     0x417B1DBC, 0xB3109EBF, 0xA0406D4B, 0x522BEE48, 0x86E18AA3, 0x748A09A0, 0x67DAFA54, 0x95B17957,
     0xCBA24573, 0x39C9C670, 0x2A993584, 0xD8F2B687, 0x0C38D26C, 0xFE53516F, 0xED03A29B, 0x1F682198,
     0x5125DAD3, 0xA34E59D0, 0xB01EAA24, 0x42752927, 0x96BF4DCC, 0x64D4CECF, 0x77843D3B, 0x85EFBE38,
     0xDBFC821C, 0x2997011F, 0x3AC7F2EB, 0xC8AC71E8, 0x1C661503, 0xEE0D9600, 0xFD5D65F4, 0x0F36E6F7,
     0x61C69362, 0x93AD1061, 0x80FDE395, 0x72966096, 0xA65C047D, 0x5437877E, 0x4767748A, 0xB50CF789,
     0xEB1FCBAD, 0x197448AE, 0x0A24BB5A, 0xF84F3859, 0x2C855CB2, 0xDEEEDFB1, 0xCDBE2C45, 0x3FD5AF46,
     0x7198540D, 0x83F3D70E, 0x90A324FA, 0x62C8A7F9, 0xB602C312, 0x44694011, 0x5739B3E5, 0xA55230E6,
     0xFB410CC2, 0x092A8FC1, 0x1A7A7C35, 0xE811FF36, 0x3CDB9BDD, 0xCEB018DE, 0xDDE0EB2A, 0x2F8B6829,
     0x82F63B78, 0x709DB87B, 0x63CD4B8F, 0x91A6C88C, 0x456CAC67, 0xB7072F64, 0xA457DC90, 0x563C5F93,
     0x082F63B7, 0xFA44E0B4, 0xE9141340, 0x1B7F9043, 0xCFB5F4A8, 0x3DDE77AB, 0x2E8E845F, 0xDCE5075C,
     0x92A8FC17, 0x60C37F14, 0x73938CE0, 0x81F80FE3, 0x55326B08, 0xA759E80B, 0xB4091BFF, 0x466298FC,
     0x1871A4D8, 0xEA1A27DB, 0xF94AD42F, 0x0B21572C, 0xDFEB33C7, 0x2D80B0C4, 0x3ED04330, 0xCCBBC033,
     0xA24BB5A6, 0x502036A5, 0x4370C551, 0xB11B4652, 0x65D122B9, 0x97BAA1BA, 0x84EA524E, 0x7681D14D,
     0x2892ED69, 0xDAF96E6A, 0xC9A99D9E, 0x3BC21E9D, 0xEF087A76, 0x1D63F975, 0x0E330A81, 0xFC588982,
     0xB21572C9, 0x407EF1CA, 0x532E023E, 0xA145813D, 0x758FE5D6, 0x87E466D5, 0x94B49521, 0x66DF1622,
     0x38CC2A06, 0xCAA7A905, 0xD9F75AF1, 0x2B9CD9F2, 0xFF56BD19, 0x0D3D3E1A, 0x1E6DCDEE, 0xEC064EED,
     0xC38D26C4, 0x31E6A5C7, 0x22B65633, 0xD0DDD530, 0x0417B1DB, 0xF67C32D8, 0xE52CC12C, 0x1747422F,
     0x49547E0B, 0xBB3FFD08, 0xA86F0EFC, 0x5A048DFF, 0x8ECEE914, 0x7CA56A17, 0x6FF599E3, 0x9D9E1AE0,
     0xD3D3E1AB, 0x21B862A8, 0x32E8915C, 0xC083125F, 0x144976B4, 0xE622F5B7, 0xF5720643, 0x07198540,
     0x590AB964, 0xAB613A67, 0xB831C993, 0x4A5A4A90, 0x9E902E7B, 0x6CFBAD78, 0x7FAB5E8C, 0x8DC0DD8F,
     0xE330A81A, 0x115B2B19, 0x020BD8ED, 0xF0605BEE, 0x24AA3F05, 0xD6C1BC06, 0xC5914FF2, 0x37FACCF1,
     0x69E9F0D5, 0x9B8273D6, 0x88D28022, 0x7AB90321, 0xAE7367CA, 0x5C18E4C9, 0x4F48173D, 0xBD23943E,
     0xF36E6F75, 0x0105EC76, 0x12551F82, 0xE03E9C81, 0x34F4F86A, 0xC69F7B69, 0xD5CF889D, 0x27A40B9E,
     0x79B737BA, 0x8BDCB4B9, 0x988C474D, 0x6AE7C44E, 0xBE2DA0A5, 0x4C4623A6, 0x5F16D052, 0xAD7D5351]"

definition crc32c_sw_byte :: "32 word \<Rightarrow> byte \<Rightarrow> 32 word" where
  "crc32c_sw_byte crc b =
     kCrc32cTable ! unat ((crc XOR ucast b) AND 0xff) XOR drop_bit 8 crc"

definition crc32c_sw :: "bytes \<Rightarrow> 32 word \<Rightarrow> 32 word" where
  "crc32c_sw data crc = foldl crc32c_sw_byte crc data"

text \<open>One step of the bitwise division, on a register of any width.\<close>

definition crc32_bit :: "'a::len word \<Rightarrow> 'a word" where
  "crc32_bit r = drop_bit 1 r XOR (if bit r 0 then 0x82F63B78 else 0)"

text \<open>\<open>__builtin_ia32_crc32qi\<close> and \<open>__builtin_ia32_crc32di\<close>.\<close>

definition ia32_crc32qi :: "32 word \<Rightarrow> byte \<Rightarrow> 32 word" where
  "ia32_crc32qi crc b = (crc32_bit ^^ 8) (crc XOR ucast b)"

definition ia32_crc32di :: "32 word \<Rightarrow> 64 word \<Rightarrow> 32 word" where
  "ia32_crc32di crc w = ucast ((crc32_bit ^^ 64) (ucast crc XOR w) :: 64 word)"

text \<open>The loop that consumes eight bytes per instruction, and the byte loop after it.\<close>

fun crc32c_hw_words :: "bytes \<Rightarrow> 32 word \<Rightarrow> 32 word" where
  "crc32c_hw_words data crc =
     (if 8 \<le> length data
      then crc32c_hw_words (drop 8 data) (ia32_crc32di crc (load_u64_le data))
      else foldl ia32_crc32qi crc data)"

declare crc32c_hw_words.simps [simp del]

definition crc32c_hw :: "nat \<Rightarrow> bytes \<Rightarrow> 32 word \<Rightarrow> 32 word" where
  "crc32c_hw addr data crc =
     (let mask = addr mod 8;
          limit = (if mask \<noteq> 0 then min (length data) (8 - mask) else 0)
      in crc32c_hw_words (drop limit data) (foldl ia32_crc32qi crc (take limit data)))"

definition crc32c_extend :: "bool \<Rightarrow> nat \<Rightarrow> bytes \<Rightarrow> 32 word \<Rightarrow> 32 word" where
  "crc32c_extend hardware_available addr data crc =
     (if data = [] then crc
      else if hardware_available then crc32c_hw addr data crc
      else crc32c_sw data crc)"

definition crc32c :: "bool \<Rightarrow> nat \<Rightarrow> bytes \<Rightarrow> 32 word" where
  "crc32c hardware_available addr data = crc32c_extend hardware_available addr data 0"

definition crc32c_salt :: "bool \<Rightarrow> nat \<Rightarrow> bytes \<Rightarrow> 32 word" where
  "crc32c_salt hardware_available addr data = crc32c_extend hardware_available addr data 100007"

section \<open>The table is the polynomial's\<close>

definition crc32_byte :: "'a::len word \<Rightarrow> 'a word" where
  "crc32_byte r = (crc32_bit ^^ 8) r"

lemma crc32_byte_unfold:
  "crc32_byte r = crc32_bit (crc32_bit (crc32_bit (crc32_bit
     (crc32_bit (crc32_bit (crc32_bit (crc32_bit r)))))))"
  by (simp add: crc32_byte_def numeral_eq_Suc)

lemma upt_256:
  "[0..<256] = [
     0, 1, 2, 3, 4, 5, 6, 7, 8, 9, 10, 11, 12, 13, 14, 15,
     16, 17, 18, 19, 20, 21, 22, 23, 24, 25, 26, 27, 28, 29, 30, 31,
     32, 33, 34, 35, 36, 37, 38, 39, 40, 41, 42, 43, 44, 45, 46, 47,
     48, 49, 50, 51, 52, 53, 54, 55, 56, 57, 58, 59, 60, 61, 62, 63,
     64, 65, 66, 67, 68, 69, 70, 71, 72, 73, 74, 75, 76, 77, 78, 79,
     80, 81, 82, 83, 84, 85, 86, 87, 88, 89, 90, 91, 92, 93, 94, 95,
     96, 97, 98, 99, 100, 101, 102, 103, 104, 105, 106, 107, 108, 109, 110, 111,
     112, 113, 114, 115, 116, 117, 118, 119, 120, 121, 122, 123, 124, 125, 126, 127,
     128, 129, 130, 131, 132, 133, 134, 135, 136, 137, 138, 139, 140, 141, 142, 143,
     144, 145, 146, 147, 148, 149, 150, 151, 152, 153, 154, 155, 156, 157, 158, 159,
     160, 161, 162, 163, 164, 165, 166, 167, 168, 169, 170, 171, 172, 173, 174, 175,
     176, 177, 178, 179, 180, 181, 182, 183, 184, 185, 186, 187, 188, 189, 190, 191,
     192, 193, 194, 195, 196, 197, 198, 199, 200, 201, 202, 203, 204, 205, 206, 207,
     208, 209, 210, 211, 212, 213, 214, 215, 216, 217, 218, 219, 220, 221, 222, 223,
     224, 225, 226, 227, 228, 229, 230, 231, 232, 233, 234, 235, 236, 237, 238, 239,
     240, 241, 242, 243, 244, 245, 246, 247, 248, 249, 250, 251, 252, 253, 254, 255]"
  by code_simp

lemma table_is_bitwise: "kCrc32cTable = map crc32_byte (map of_nat [0..<256])"
  unfolding upt_256 by (simp add: kCrc32cTable_def crc32_bit_def crc32_byte_unfold)

lemma table_nth: "i < 256 \<Longrightarrow> kCrc32cTable ! i = crc32_byte (of_nat i)"
  by (simp add: table_is_bitwise)

section \<open>Linearity of the division step\<close>

text \<open>
  Eight steps on a register shift its upper part down by eight and add the contribution of the
  low byte. This is what makes slicing by bytes sound at any register width that holds the
  polynomial.
\<close>

lemma crc32_bit_xor: "crc32_bit (a XOR b) = crc32_bit a XOR crc32_bit b"
  by (simp add: crc32_bit_def bit_simps ac_simps)

lemma crc32_bits_xor: "(crc32_bit ^^ n) (a XOR b) = (crc32_bit ^^ n) a XOR (crc32_bit ^^ n) b"
  by (induction n) (simp_all add: crc32_bit_xor)

lemma crc32_bits_push: "n \<le> k \<Longrightarrow> k \<le> LENGTH('a) \<Longrightarrow>
    (crc32_bit ^^ n) (push_bit k (drop_bit k r)) = push_bit (k - n) (drop_bit k (r :: 'a::len word))"
proof (induction n)
  case (Suc n)
  have "\<not> bit (push_bit (k - n) (drop_bit k r)) 0"
    using Suc.prems by (simp add: bit_simps)
  moreover have "drop_bit 1 (push_bit (k - n) (drop_bit k r)) = push_bit (k - Suc n) (drop_bit k r)"
    using Suc.prems by (intro bit_word_eqI) (auto simp: bit_simps Suc_diff_Suc dest: bit_imp_le_length)
  ultimately show ?case
    using Suc by (simp add: crc32_bit_def)
qed simp

lemma split_low_byte: "r = push_bit 8 (drop_bit 8 r) XOR take_bit 8 r" for r :: "'a::len word"
  by (rule bit_word_eqI) (auto simp: bit_simps)

lemma crc32_bits_8:
  "8 \<le> LENGTH('a) \<Longrightarrow>
   (crc32_bit ^^ 8) r = drop_bit 8 r XOR (crc32_bit ^^ 8) (take_bit 8 (r :: 'a::len word))"
  using crc32_bits_xor [of 8 "push_bit 8 (drop_bit 8 r)" "take_bit 8 r"]
    crc32_bits_push [of 8 8 r] split_low_byte [of r]
  by simp

section \<open>The instructions agree with the table\<close>

lemma low_byte_index: "of_nat (unat (x AND 0xff :: 32 word)) = (take_bit 8 x :: 32 word)"
proof -
  have "x AND 0xff = take_bit 8 x" by (simp add: take_bit_eq_mask mask_eq_exp_minus_1)
  then show ?thesis by simp
qed

lemma crc32c_sw_byte_bits: "crc32c_sw_byte crc b = (crc32_bit ^^ 8) (crc XOR ucast b)"
proof -
  have "unat (take_bit 8 (crc XOR ucast b)) < 256"
    using unat_and_mask_le [of "crc XOR ucast b" 8] by (simp add: take_bit_eq_mask)
  then have "kCrc32cTable ! unat ((crc XOR ucast b) AND 0xff)
      = (crc32_bit ^^ 8) (take_bit 8 (crc XOR ucast b))"
    using low_byte_index [of "crc XOR ucast b"]
    by (simp add: table_nth crc32_byte_def take_bit_eq_mask mask_eq_exp_minus_1)
  moreover have "drop_bit 8 (crc XOR ucast b) = drop_bit 8 crc"
    by (rule bit_word_eqI) (auto simp: bit_simps dest: bit_imp_le_length)
  ultimately show ?thesis
    by (simp add: crc32c_sw_byte_def crc32_bits_8 [of "crc XOR ucast b"] xor.commute)
qed

lemma crc32qi_is_sw_byte: "ia32_crc32qi = crc32c_sw_byte"
  by (simp add: fun_eq_iff ia32_crc32qi_def crc32c_sw_byte_bits)

lemma crc32_bit_widen: "ucast (crc32_bit r) = crc32_bit (ucast r :: 64 word)" for r :: "32 word"
proof -
  have "ucast (drop_bit 1 r) = drop_bit 1 (ucast r :: 64 word)"
    by (rule bit_word_eqI) (auto simp: bit_simps dest: bit_imp_le_length)
  moreover have "ucast (a XOR b) = (ucast a XOR ucast b :: 64 word)" for a b :: "32 word"
    by (rule bit_word_eqI) (auto simp: bit_simps)
  ultimately show ?thesis by (simp add: crc32_bit_def bit_simps)
qed

lemma crc32_bits_widen: "ucast ((crc32_bit ^^ n) r) = (crc32_bit ^^ n) (ucast r :: 64 word)"
  for r :: "32 word"
  by (induction n) (simp_all add: crc32_bit_widen)

lemma crc32_bits_8_step:
  "(crc32_bit ^^ 8) (ucast crc XOR w) = ucast (crc32c_sw_byte crc (ucast w)) XOR drop_bit 8 (w :: 64 word)"
proof -
  have "ucast crc XOR w = ucast (crc XOR ucast (ucast w :: byte)) XOR push_bit 8 (drop_bit 8 w)"
    by (rule bit_word_eqI) (auto simp: bit_simps)
  then have "(crc32_bit ^^ 8) (ucast crc XOR w)
      = (crc32_bit ^^ 8) (ucast (crc XOR ucast (ucast w :: byte))) XOR
        (crc32_bit ^^ 8) (push_bit 8 (drop_bit 8 w))"
    by (simp only: crc32_bits_xor)
  then show ?thesis
    using crc32_bits_push [of 8 8 w] by (simp flip: crc32_bits_widen crc32c_sw_byte_bits)
qed

text \<open>Bytes of a 64-bit operand, in the order the memory load put them there.\<close>

lemma crc32_bits_bytes:
  "(crc32_bit ^^ (8 * n)) (ucast crc XOR w) =
     ucast (foldl crc32c_sw_byte crc (map (\<lambda>i. ucast (drop_bit (8 * i) w)) [0..<n]))
       XOR drop_bit (8 * n) (w :: 64 word)"
proof (induction n)
  case (Suc n)
  have "(crc32_bit ^^ (8 * Suc n)) (ucast crc XOR w)
      = (crc32_bit ^^ 8) ((crc32_bit ^^ (8 * n)) (ucast crc XOR w))"
    by (simp add: funpow_add flip: funpow_swap1)
  then show ?case
    by (simp add: Suc crc32_bits_8_step)
qed simp

lemma crc32di_is_sw: "8 \<le> length data \<Longrightarrow>
    ia32_crc32di crc (load_u64_le data) = crc32c_sw (take 8 data) crc"
proof -
  assume l: "8 \<le> length data"
  have "map (\<lambda>i. ucast (drop_bit (8 * i) w)) [0..<8] = store_u64_le w" for w
    by (simp add: store_u64_le_def upt_rec_numeral upt_rec)
  moreover have "ucast (ucast x :: 64 word) = x" for x :: "32 word"
    by (rule bit_word_eqI) (auto simp: bit_simps)
  ultimately show ?thesis
    using crc32_bits_bytes [of 8 crc "load_u64_le data"]
    by (simp add: ia32_crc32di_def crc32c_sw_def store_load_u64 l)
qed

lemma crc32c_hw_words_is_sw: "crc32c_hw_words data crc = crc32c_sw data crc"
proof (induction data crc rule: crc32c_hw_words.induct)
  case (1 data crc)
  show ?case
  proof (cases "8 \<le> length data")
    case True
    then have "crc32c_hw_words data crc = crc32c_sw (drop 8 data) (crc32c_sw (take 8 data) crc)"
      using 1 by (simp add: crc32c_hw_words.simps [of data] crc32di_is_sw)
    then show ?thesis
      by (metis append_take_drop_id crc32c_sw_def foldl_append)
  next
    case False
    then show ?thesis
      by (simp add: crc32c_hw_words.simps [of data] crc32c_sw_def crc32qi_is_sw_byte)
  qed
qed

lemma crc32c_hw_is_sw: "crc32c_hw addr data crc = crc32c_sw data crc"
  unfolding crc32c_hw_def Let_def crc32c_hw_words_is_sw crc32qi_is_sw_byte
  by (metis append_take_drop_id crc32c_sw_def foldl_append)

lemma crc32c_sw_append: "crc32c_sw (a @ b) crc = crc32c_sw b (crc32c_sw a crc)"
  by (simp add: crc32c_sw_def)

text \<open>C29: the CRC-32C every consumer calls, \<open>crc32c_extend\<close>, is on every machine (with or
  without the SSE4.2 instruction) and for every buffer address the bitwise division of the data
  by the reflected Castagnoli polynomial, continued from the given raw value.\<close>

theorem crc32c_extend_is_bitwise:
  "crc32c_extend hardware_available addr data crc
     = foldl (\<lambda>c b. (crc32_bit ^^ 8) (c XOR ucast b)) crc data"
proof -
  have "crc32c_sw_byte = (\<lambda>c b. (crc32_bit ^^ 8) (c XOR ucast b))"
    by (intro ext) (rule crc32c_sw_byte_bits)
  then show ?thesis by (simp add: crc32c_extend_def crc32c_hw_is_sw crc32c_sw_def)
qed

end
