(* ===== verification/LsmtRwFile.thy ===== *)
theory LsmtRwFile
  imports LsmtRwIndex FileIo Crc32c
begin

unbundle bit_operations_syntax

text \<open>
  \<open>src/format/lsmt_rw_file.cpp\<close>: \<open>FilePair\<close>, the data/index file pair behind a writable layer. The
  pair owns the index file and the grow intent beside it; the data file belongs to the layer above
  and is passed in. Every system call takes an outcome of the I/O script. Fault injection that
  exists only in test builds is left out.
\<close>

definition kGrowMagic :: "64 word" where "kGrowMagic = 0x31574f52474d534c"
definition kGrowBytes :: nat where "kGrowBytes = 16 + 2 * kSpace + 4"

record FilePair =
  fp_index :: bytes
  fp_index_bytes :: nat
  fp_data_bytes :: nat
  fp_poisoned :: bool
  fp_growth_pending :: bool
  fp_header :: HeaderTrailer
  fp_mappings :: "segment_mapping list"
  fp_live_ranges :: "(nat \<times> nat) list"
  fp_grow_intent :: "bytes option"

section \<open>Appending a log record\<close>

text \<open>Insertion into a \<open>std::map\<close> from start to end sectors.\<close>

fun remp :: "nat \<times> nat \<Rightarrow> (nat \<times> nat) list \<Rightarrow> (nat \<times> nat) list" where
  "remp p [] = [p]"
| "remp p (q # v) =
     (if fst p < fst q then p # q # v
      else if fst p = fst q then q # v
      else q # remp p v)"

definition range_pieces :: "nat \<Rightarrow> nat \<Rightarrow> nat \<times> nat \<Rightarrow> (nat \<times> nat) list" where
  "range_pieces lo hi r =
     (if fst r < lo then [(fst r, lo)] else []) @ (if snd r > hi then [(hi, snd r)] else [])"

text \<open>The admission computation: the untouched ranges, the number removed, and the replacement.\<close>

definition plan_ranges :: "segment_mapping \<Rightarrow> (nat \<times> nat) list \<Rightarrow> (nat \<times> nat) list \<times> nat \<times> (nat \<times> nat) list" where
  "plan_ranges m ranges =
     (let lo = s_offset m; hi = seg_end m;
          (kept, hit, rest) = cut_range fst snd lo hi ranges
      in (kept @ rest, length hit, remp (lo, hi) (fold remp (concat (map (range_pieces lo hi) hit)) [])))"

definition pair_append :: "segment_mapping \<Rightarrow> FilePair \<Rightarrow> script \<Rightarrow> errno option \<times> FilePair \<times> script" where
  "pair_append m fp io =
     (if fp_poisoned fp then (Some EIO, fp, io)
      else if (fp_index_bytes fp - kSpace) div 16 \<ge> kMaxLogRecords then (Some EFBIG, fp, io)
      else let (others, removed, replacement) = plan_ranges m (fp_live_ranges fp) in
        if length (fp_live_ranges fp) - removed + length replacement > kMaxRoIndexSize
        then (Some EFBIG, fp, io)
        else case write_all (store_segment_le m) (fp_index_bytes fp) (fp_index fp) io of
          (Some e, f, io') \<Rightarrow> (Some e, fp\<lparr>fp_index := f, fp_poisoned := True\<rparr>, io')
        | (None, f, io') \<Rightarrow>
            (None, fp\<lparr>fp_index := f, fp_live_ranges := fold remp replacement others,
                      fp_index_bytes := fp_index_bytes fp + length (store_segment_le m)\<rparr>, io'))"

definition pair_flush :: "FilePair \<Rightarrow> script \<Rightarrow> errno option \<times> script" where
  "pair_flush fp io =
     (if fp_poisoned fp then (Some EIO, io)
      else case sys_call io of (Some e, io) \<Rightarrow> (Some e, io) | (None, io) \<Rightarrow>
        (case sys_call io of (Some e, io) \<Rightarrow> (Some e, io) | (None, io) \<Rightarrow> sys_call io))"

section \<open>Compaction of the log\<close>

text \<open>The validation loop: mappings in order, each accepted by a fresh replay.\<close>

fun compact_check :: "nat \<Rightarrow> Replay \<Rightarrow> segment_mapping list \<Rightarrow> Replay result" where
  "compact_check previous r [] = Inr r"
| "compact_check previous r (m # ms) =
     (if s_offset m < previous then Inl EINVAL
      else bindR (replay_append r (store_segment_le m)) (\<lambda>r'. compact_check (seg_end m) r' ms))"

fun write_records :: "segment_mapping list \<Rightarrow> nat \<Rightarrow> bytes \<Rightarrow> script \<Rightarrow> errno option \<times> nat \<times> bytes \<times> script" where
  "write_records [] off f io = (None, off, f, io)"
| "write_records (m # ms) off f io = (case write_all (store_segment_le m) off f io of
     (Some e, f', io') \<Rightarrow> (Some e, off, f', io')
   | (None, f', io') \<Rightarrow> write_records ms (off + 16) f' io')"

definition index_header :: "HeaderTrailer \<Rightarrow> HeaderTrailer" where
  "index_header ht = ht\<lparr>ht_flags := 1, ht_index_offset := of_nat kSpace, ht_index_size := 0\<rparr>"

text \<open>Filling the temporary file and making it durable: header, records, \<open>fdatasync\<close>.\<close>

definition write_compacted :: "HeaderTrailer \<Rightarrow> segment_mapping list \<Rightarrow> script \<Rightarrow> (nat \<times> bytes) result \<times> script" where
  "write_compacted ht live io =
     (case serialize_ht (index_header ht) of Inl e \<Rightarrow> (Inl e, io) | Inr region \<Rightarrow>
       (case write_all region 0 [] io of (Some e, _, io) \<Rightarrow> (Inl e, io) | (None, f, io) \<Rightarrow>
         (case write_records live kSpace f io of (Some e, _, _, io) \<Rightarrow> (Inl e, io) | (None, off, f, io) \<Rightarrow>
           (case sys_call io of (Some e, io) \<Rightarrow> (Inl e, io) | (None, io) \<Rightarrow> (Inr (off, f), io)))))"

definition seg_range :: "segment_mapping \<Rightarrow> nat \<times> nat" where
  "seg_range m = (s_offset m, seg_end m)"

definition compact_sync :: "segment_mapping list \<Rightarrow> bytes \<Rightarrow> FilePair \<Rightarrow> script \<Rightarrow> errno option \<times> FilePair \<times> script" where
  "compact_sync live data fp io =
     (if fp_poisoned fp then (Some EIO, fp, io)
      else if length live > kMaxRoIndexSize then (Some EFBIG, fp, io)
      else case sys_call io of (Some e, io) \<Rightarrow> (Some e, fp, io) | (None, io) \<Rightarrow>
        (case sys_call io of (Some e, io) \<Rightarrow> (Some e, fp, io) | (None, io) \<Rightarrow>
        (case bindR (replay_new (unat (ht_virtual_size (fp_header fp))) (length data)) (\<lambda>r.
                bindR (compact_check 0 r live) replay_finish) of
           Inl e \<Rightarrow> (Some e, fp, io)
         | Inr replayed \<Rightarrow>
           (case sys_call io of (Some e, io) \<Rightarrow> (Some e, fp, io) | (None, io) \<Rightarrow>
             (case write_compacted (fp_header fp) live io of (Inl e, io) \<Rightarrow> (Some e, fp, io) | (Inr (off, f), io) \<Rightarrow>
               (case sys_call io of (Some e, io) \<Rightarrow> (Some e, fp, io) | (None, io) \<Rightarrow>
                 (let fp' = fp\<lparr>fp_index := f, fp_index_bytes := off, fp_live_ranges := map seg_range replayed\<rparr>;
                      (r, io) = sys_call io
                  in (r, fp', io))))))))"

section \<open>Admission counts the replay partition\<close>

lemma remp_map: "map seg_range (emplace s v) = remp (seg_range s) (map seg_range v)"
  by (induction v) (auto simp: seg_range_def)

lemma fold_remp_map: "map seg_range (fold emplace ps v) = fold remp (map seg_range ps) (map seg_range v)"
  by (induction ps arbitrary: v) (simp_all add: remp_map)

lemma range_pieces_retained:
  "range_pieces (s_offset m) (seg_end m) (seg_range old) = map seg_range (retained m old)"
  by (auto simp: range_pieces_def retained_def seg_range_def seg_end_def)

lemma cut_range_map:
  assumes "cut_range s_offset seg_end lo hi v = (kept, hit, rest)"
  shows "cut_range fst snd lo hi (map seg_range v) = (map seg_range kept, map seg_range hit, map seg_range rest)"
proof -
  have r: "fst (seg_range s) = s_offset s" "snd (seg_range s) = seg_end s" for s
    by (simp_all add: seg_range_def)
  show ?thesis
    using assms unfolding cut_range_def Let_def
    by (auto simp: takeWhile_map dropWhile_map comp_def r last_map map_butlast split: if_splits)
qed

lemma plan_ranges_map:
  assumes "cut_range s_offset seg_end (s_offset m) (seg_end m) v = (kept, hit, rest)"
  shows "plan_ranges m (map seg_range v) = (map seg_range (kept @ rest), length hit,
    map seg_range (emplace m (fold emplace (concat (map (retained m) hit)) [])))"
proof -
  have "concat (map (range_pieces (s_offset m) (seg_end m)) (map seg_range hit)) =
      map seg_range (concat (map (retained m) hit))"
    by (simp add: range_pieces_retained comp_def map_concat)
  then show ?thesis
    unfolding plan_ranges_def cut_range_map [OF assms] Let_def
    by (simp add: remp_map fold_remp_map seg_range_def [of m])
qed

text \<open>The replacement merged into the other ranges is the partition the replay has, and the count
  checked before the record is written is its size.\<close>

lemma plan_ranges_replay:
  assumes "wf_segs live" "0 < s_length m"
    and "plan_ranges m (map seg_range live) = (others, removed, replacement)"
  shows "fold remp replacement others = map seg_range (map_replace m live)"
    and "length (map seg_range live) - removed + length replacement = length (map_replace m live)"
proof -
  obtain kept hit rest where cut: "cut_range s_offset seg_end (s_offset m) (seg_end m) live = (kept, hit, rest)"
    by (cases "cut_range s_offset seg_end (s_offset m) (seg_end m) live")
  note mm = map_replace_merge [OF assms(1,2) cut]
  have parts: "others = map seg_range (kept @ rest)" "removed = length hit"
    "replacement = map seg_range (emplace m (fold emplace (concat (map (retained m) hit)) []))"
    using assms(3) plan_ranges_map [OF cut] by auto
  show "fold remp replacement others = map seg_range (map_replace m live)"
    unfolding parts by (simp only: fold_remp_map [symmetric] mm(1))
  show "length (map seg_range live) - removed + length replacement = length (map_replace m live)"
    unfolding parts using mm(2) by simp
qed

section \<open>The log on disk\<close>

definition replay_from :: "nat \<Rightarrow> nat \<Rightarrow> Replay" where
  "replay_from sectors data_sectors =
     \<lparr>r_sectors = sectors, r_data_sectors = data_sectors, r_records = 0, r_live = []\<rparr>"

definition log_bytes :: "FilePair \<Rightarrow> bytes" where
  "log_bytes fp = get_bytes kSpace (fp_index_bytes fp - kSpace) (fp_index fp)"

text \<open>The log of a pair replays to \<open>r\<close> against a payload of \<open>n\<close> sectors, and the admission ranges are
  the partition of that replay.\<close>

definition pair_log :: "nat \<Rightarrow> nat \<Rightarrow> FilePair \<Rightarrow> Replay \<Rightarrow> bool" where
  "pair_log sectors n fp r \<longleftrightarrow>
     kSpace \<le> fp_index_bytes fp \<and> (fp_index_bytes fp - kSpace) mod kEncodedSize = 0 \<and>
     fp_index_bytes fp \<le> length (fp_index fp) \<and>
     replay_loop (replay_from sectors n) (log_bytes fp) = Inr r \<and>
     fp_live_ranges fp = map seg_range (r_live r)"

lemma load_segment_prefix:
  assumes "16 \<le> length raw"
  shows "load_segment_le (raw @ rest) = load_segment_le raw"
proof -
  have "load_u64_le (b @ rest) = load_u64_le b" if "8 \<le> length b" for b
    using that by (auto simp: load_u64_le_def nth_append)
  then show ?thesis using assms by (simp add: load_segment_le_def)
qed

lemma replay_loop_snoc:
  assumes "length raw mod kEncodedSize = 0" "seg_fits m"
  shows "replay_loop r (raw @ store_segment_le m) = bindR (replay_loop r raw) (\<lambda>r'. replay_step r' m)"
  using assms(1)
proof (induction r raw rule: replay_loop.induct)
  case (1 r raw)
  show ?case
  proof (cases "raw = []")
    case True
    have "replay_loop r (store_segment_le m @ []) = bindR (replay_step r m) (\<lambda>r'. replay_loop r' [])"
      by (rule replay_loop_store [OF assms(2)])
    moreover have "bindR q (\<lambda>r'. replay_loop r' []) = q" for q
      by (cases q) (simp_all add: replay_loop.simps)
    ultimately show ?thesis using True by (simp add: replay_loop.simps [of r "[]"])
  next
    case False
    have len: "kEncodedSize \<le> length raw"
      using False "1.prems" by (auto simp: kEncodedSize_def mod_0_imp_dvd intro: dvd_imp_le)
    have load: "load_segment_le (raw @ rest) = load_segment_le raw" for rest
      using len by (intro load_segment_prefix) (simp add: kEncodedSize_def)
    have "length (drop kEncodedSize raw) mod kEncodedSize = 0"
      using "1.prems" len by (simp add: kEncodedSize_def mod_0_imp_dvd dvd_diff_nat)
    then have "replay_loop r' (drop kEncodedSize raw @ store_segment_le m) =
        bindR (replay_loop r' (drop kEncodedSize raw)) (\<lambda>r'. replay_step r' m)"
      if "replay_step r (load_segment_le raw) = Inr r'" for r'
      using "1.IH" [OF False that] by simp
    then show ?thesis
      using False len load
      by (subst (1 2) replay_loop.simps) (cases "replay_step r (load_segment_le raw)", auto)
  qed
qed

lemma log_bytes_append:
  assumes "kSpace \<le> n" "n \<le> length f" "length bs = k"
  shows "get_bytes kSpace (n + k - kSpace) (file_write n bs f) = get_bytes kSpace (n - kSpace) f @ bs"
proof -
  have "n + k - kSpace = (n - kSpace) + k" using assms(1) by simp
  then have "get_bytes kSpace (n + k - kSpace) (file_write n bs f) =
      get_bytes kSpace (n - kSpace) (file_write n bs f) @ get_bytes n k (file_write n bs f)"
    using assms(1) by (simp only: get_bytes_append) simp
  then show ?thesis
    using assms get_file_write_outside [of kSpace "n - kSpace" f n bs] get_file_write_same [of n bs f]
    by simp
qed

lemma log_bytes_keep:
  assumes "kSpace \<le> n" "n \<le> length f"
  shows "get_bytes kSpace (n - kSpace) (file_write n bs f) = get_bytes kSpace (n - kSpace) f"
  using assms by (intro get_file_write_outside) auto

lemma replay_from_inv: "replay_inv (replay_from sectors n)"
  by (simp add: replay_inv_def replay_from_def)

text \<open>What a mapping must satisfy for a replay to accept it, apart from the size of the map.\<close>

definition record_ok :: "nat \<Rightarrow> nat \<Rightarrow> segment_mapping \<Rightarrow> bool" where
  "record_ok sectors n m \<longleftrightarrow> seg_fits m \<and> s_offset m \<noteq> kInvalidOffset \<and> 0 < s_length m \<and>
     seg_end m \<le> sectors \<and> s_tag m = 0 \<and>
     (if s_zeroed m then s_moffset m = kDataStartSector
      else kDataStartSector \<le> s_moffset m \<and> seg_mend m \<le> n)"

lemma replay_step_ok:
  assumes "record_ok (r_sectors r) (r_data_sectors r) m"
  shows "replay_step r m = (if length (map_replace m (r_live r)) > kMaxRoIndexSize then Inl EINVAL
     else Inr (r\<lparr>r_live := map_replace m (r_live r)\<rparr>))"
proof -
  have norm: "(if s_zeroed m then m\<lparr>s_moffset := kDataStartSector\<rparr> else m)\<lparr>s_tag := 0\<rparr> = m"
    using assms by (cases m) (auto simp: record_ok_def)
  have "\<not> (s_length m = 0 \<or> s_offset m \<ge> r_sectors r \<or> s_length m > r_sectors r - s_offset m)"
    "\<not> (\<not> s_zeroed m \<and> (s_moffset m < kDataStartSector \<or> s_moffset m \<ge> r_data_sectors r \<or>
              s_length m > r_data_sectors r - s_moffset m))"
    using assms by (auto simp: record_ok_def seg_end_def seg_mend_def split: if_splits)
  then show ?thesis
    using assms unfolding replay_step_def norm Let_def by (auto simp: record_ok_def)
qed

lemma pair_log_inv:
  assumes "pair_log sectors n fp r"
  shows "replay_inv r" "r_sectors r = sectors" "r_data_sectors r = n"
  using replay_loop_correct [OF replay_from_inv [of sectors n], of "log_bytes fp" r] assms
  by (auto simp: pair_log_def replay_from_def)

text \<open>A longer payload file accepts the same log.\<close>

lemma replay_loop_mono:
  assumes "replay_loop r raw = Inr r'" "r_data_sectors r \<le> n"
  shows "replay_loop (r\<lparr>r_data_sectors := n\<rparr>) raw = Inr (r'\<lparr>r_data_sectors := n\<rparr>)"
  using assms
proof (induction r raw rule: replay_loop.induct)
  case (1 r raw)
  show ?case
  proof (cases "raw = []")
    case True
    then show ?thesis using "1.prems"(1) by (simp add: replay_loop.simps)
  next
    case False
    then obtain r1 where r1: "replay_step r (load_segment_le raw) = Inr r1"
      "replay_loop r1 (drop kEncodedSize raw) = Inr r'"
      using "1.prems"(1) by (subst (asm) replay_loop.simps) auto
    have step: "replay_step (r\<lparr>r_data_sectors := n\<rparr>) (load_segment_le raw) = Inr (r1\<lparr>r_data_sectors := n\<rparr>)"
      "r_data_sectors r1 = r_data_sectors r"
      using r1(1) "1.prems"(2) by (auto simp: replay_step_def Let_def split: if_splits)
    show ?thesis
      using "1.IH" [OF False r1(1,2)] step "1.prems"(2) False by (subst replay_loop.simps) simp
  qed
qed

lemma pair_log_mono:
  assumes "pair_log sectors n fp r" "n \<le> n'"
  shows "pair_log sectors n' fp (r\<lparr>r_data_sectors := n'\<rparr>)"
  using assms replay_loop_mono [of "replay_from sectors n" "log_bytes fp" r n']
  by (simp add: pair_log_def replay_from_def)

lemma length_log_bytes:
  assumes "pair_log sectors n fp r"
  shows "length (log_bytes fp) = fp_index_bytes fp - kSpace"
  using assms by (auto simp: pair_log_def log_bytes_def get_bytes_def)

lemma pair_append_failed:
  assumes "pair_append m fp io = (Some e, fp', io')" "pair_log sectors n fp r"
  shows "pair_log sectors n fp' r \<and> fp_index_bytes fp' = fp_index_bytes fp \<and>
    (fp' = fp \<or> fp_poisoned fp')"
proof -
  have keep: "log_bytes (fp\<lparr>fp_index := file_write (fp_index_bytes fp) bs (fp_index fp), fp_poisoned := True\<rparr>) = log_bytes fp" for bs
    using assms(2) log_bytes_keep [of "fp_index_bytes fp" "fp_index fp" bs]
    by (simp add: log_bytes_def pair_log_def)
  have "fp' = fp \<or> (\<exists>bs. fp' = fp\<lparr>fp_index := file_write (fp_index_bytes fp) bs (fp_index fp), fp_poisoned := True\<rparr>)"
    using assms(1) by (auto simp: pair_append_def write_all_def split: if_splits outcome.splits prod.splits option.splits)
  then show ?thesis
    using assms(2) keep order_trans [OF _ file_write_length_ge] by (auto simp: pair_log_def)
qed

lemma pair_append_published:
  assumes "pair_append m fp io = (None, fp', io')" "pair_log sectors n fp r" "record_ok sectors n m"
  shows "pair_log sectors n fp' (r\<lparr>r_live := map_replace m (r_live r)\<rparr>)"
    "replay_step r m = Inr (r\<lparr>r_live := map_replace m (r_live r)\<rparr>)"
    "fp_index_bytes fp' = fp_index_bytes fp + kEncodedSize"
    "fp' = fp\<lparr>fp_index := fp_index fp', fp_index_bytes := fp_index_bytes fp', fp_live_ranges := fp_live_ranges fp'\<rparr>"
proof -
  note inv = pair_log_inv [OF assms(2)]
  have wf: "wf_segs (r_live r)" using inv(1) by (simp add: replay_inv_def)
  have pos: "0 < s_length m" and fits: "seg_fits m" using assms(3) by (auto simp: record_ok_def)
  have log: "kSpace \<le> fp_index_bytes fp" "fp_index_bytes fp \<le> length (fp_index fp)"
    "(fp_index_bytes fp - kSpace) mod kEncodedSize = 0" "fp_live_ranges fp = map seg_range (r_live r)"
    "replay_loop (replay_from sectors n) (log_bytes fp) = Inr r"
    using assms(2) by (auto simp: pair_log_def)
  obtain others removed replacement where
    plan: "plan_ranges m (map seg_range (r_live r)) = (others, removed, replacement)"
    by (cases "plan_ranges m (map seg_range (r_live r))")
  note pr = plan_ranges_replay [OF wf pos plan]
  from assms(1) plan log(4) have
    lim: "length (map seg_range (r_live r)) - removed + length replacement \<le> kMaxRoIndexSize"
    and fp': "fp' = fp\<lparr>fp_index := file_write (fp_index_bytes fp) (store_segment_le m) (fp_index fp),
      fp_live_ranges := fold remp replacement others, fp_index_bytes := fp_index_bytes fp + kEncodedSize\<rparr>"
    by (auto simp: pair_append_def write_all_def split: if_splits outcome.splits)
  have step: "replay_step r m = Inr (r\<lparr>r_live := map_replace m (r_live r)\<rparr>)"
    using replay_step_ok [of r m] assms(3) inv(2,3) lim unfolding pr(2) by simp
  have "log_bytes fp' = log_bytes fp @ store_segment_le m"
    using log_bytes_append [OF log(1,2) length_store_segment] by (simp add: fp' log_bytes_def)
  then have "replay_loop (replay_from sectors n) (log_bytes fp') = Inr (r\<lparr>r_live := map_replace m (r_live r)\<rparr>)"
    using replay_loop_snoc [of "log_bytes fp" m "replay_from sectors n"] length_log_bytes [OF assms(2)]
      log(3,5) fits step by simp
  moreover have "fp_index_bytes fp + kEncodedSize - kSpace = (fp_index_bytes fp - kSpace) + kEncodedSize"
    using log(1) by simp
  then have "(fp_index_bytes fp + kEncodedSize - kSpace) mod kEncodedSize = 0"
    using log(3) by (simp only: mod_add_self2)
  moreover have "fp_index_bytes fp' \<le> length (fp_index fp')" by (simp add: fp' length_file_write)
  ultimately show "pair_log sectors n fp' (r\<lparr>r_live := map_replace m (r_live r)\<rparr>)"
    using log(1) pr(1) by (simp add: pair_log_def fp')
  show "replay_step r m = Inr (r\<lparr>r_live := map_replace m (r_live r)\<rparr>)" by (rule step)
  show "fp_index_bytes fp' = fp_index_bytes fp + kEncodedSize"
    "fp' = fp\<lparr>fp_index := fp_index fp', fp_index_bytes := fp_index_bytes fp', fp_live_ranges := fp_live_ranges fp'\<rparr>"
    by (simp_all add: fp')
qed

lemma pair_append_refused:
  assumes "pair_append m fp io = (Some e, fp', io')" "pair_log sectors n fp r" "record_ok sectors n m"
  shows "if fp_poisoned fp then e = EIO \<and> fp' = fp \<and> io' = io
    else if length (log_bytes fp) div kEncodedSize \<ge> kMaxLogRecords \<or> (\<exists>e'. replay_step r m = Inl e')
    then e = EFBIG \<and> fp' = fp \<and> io' = io
    else fp_poisoned fp' \<and> (\<exists>k. next_outcome io = Fail e k)"
proof -
  note inv = pair_log_inv [OF assms(2)]
  have wf: "wf_segs (r_live r)" and pos: "0 < s_length m"
    using inv(1) assms(3) by (auto simp: replay_inv_def record_ok_def)
  have ranges: "fp_live_ranges fp = map seg_range (r_live r)" using assms(2) by (simp add: pair_log_def)
  obtain others removed replacement where
    plan: "plan_ranges m (map seg_range (r_live r)) = (others, removed, replacement)"
    by (cases "plan_ranges m (map seg_range (r_live r))")
  have full: "(\<exists>e'. replay_step r m = Inl e') \<longleftrightarrow>
      length (map seg_range (r_live r)) - removed + length replacement > kMaxRoIndexSize"
    using replay_step_ok [of r m] assms(3) inv(2,3) unfolding plan_ranges_replay(2) [OF wf pos plan] by simp
  show ?thesis
    unfolding full length_log_bytes [OF assms(2)] kEncodedSize_def
    using assms(1) plan ranges
    by (auto simp: pair_append_def write_all_def split: if_splits outcome.splits)
qed

text \<open>C18: Appending to the log keeps it replayable. A successful \<open>append\<close> of an acceptable mapping
  adds exactly one record, and replaying the longer log succeeds and differs from replaying the
  old one by that record: the admission check, which counts the ranges kept in memory, admits a
  record only when the replayed map stays within its limit. A failed \<open>append\<close>, at whatever byte
  the write stopped, leaves the published log and what it replays to unchanged. A poisoned pair
  answers EIO and a pair whose log is full, or whose replay would refuse the record, answers EFBIG;
  both change nothing, so the latter does not poison the pair. Every other failure is the failed
  write of the record: it reports the error of that write and poisons the pair.\<close>

theorem pair_append_correct:
  assumes "pair_log sectors n fp r" and "record_ok sectors n m"
    and "pair_append m fp io = (res, fp', io')"
  shows "case res of
      None \<Rightarrow> \<exists>r'. replay_step r m = Inr r' \<and> pair_log sectors n fp' r' \<and>
        (\<forall>x. lookup (r_live r') x = (if covers m x then Some (0, place m x) else lookup (r_live r) x))
    | Some e \<Rightarrow> pair_log sectors n fp' r \<and> fp_index_bytes fp' = fp_index_bytes fp \<and>
        (if fp_poisoned fp then e = EIO \<and> fp' = fp \<and> io' = io
         else if length (log_bytes fp) div kEncodedSize \<ge> kMaxLogRecords \<or> (\<exists>e'. replay_step r m = Inl e')
         then e = EFBIG \<and> fp' = fp \<and> io' = io
         else fp_poisoned fp' \<and> (\<exists>k. next_outcome io = Fail e k))"
proof (cases res)
  case None
  note ok = pair_append_published [OF assms(3) [unfolded None] assms(1,2)]
  have "seg_fits m" "s_offset m \<noteq> kInvalidOffset" using assms(2) by (auto simp: record_ok_def)
  then show ?thesis
    using ok replay_step_correct(4) [OF pair_log_inv(1) [OF assms(1)] ok(2)] None by simp
next
  case (Some e)
  note run = assms(3) [unfolded Some]
  show ?thesis
    using pair_append_failed [OF run assms(1)] pair_append_refused [OF run assms(1,2)] unfolding Some by simp
qed

text \<open>An empty pair of an 8-sector device.\<close>

definition sample_pair :: FilePair where
  "sample_pair = \<lparr>fp_index = zeros 4096, fp_index_bytes = 4096, fp_data_bytes = 8192, fp_poisoned = False,
     fp_growth_pending = False, fp_header = default_ht\<lparr>ht_flags := 3, ht_virtual_size := 4096\<rparr>,
     fp_mappings = [], fp_live_ranges = [], fp_grow_intent = None\<rparr>"

definition sample_record :: segment_mapping where
  "sample_record = \<lparr>s_offset = 2, s_length = 3, s_moffset = 8, s_zeroed = False, s_tag = 0\<rparr>"

lemma sample_pair_log: "pair_log 8 16 sample_pair (replay_from 8 16)"
  by (simp add: pair_log_def sample_pair_def kSpace_def kEncodedSize_def log_bytes_def get_bytes_def
      replay_loop.simps replay_from_def)

lemma sample_record_ok: "record_ok 8 16 sample_record"
  by (simp add: record_ok_def sample_record_def seg_fits_def kInvalidOffset_def kMaxOffset_def kMaxLength_def
      kMaxMoffset_def seg_end_def seg_mend_def kDataStartSector_def kSpace_def kAlignment_def)

theorem pair_append_correct_witness:
  "(\<exists>fp' r'. pair_append sample_record sample_pair [] = (None, fp', []) \<and> pair_log 8 16 fp' r' \<and>
     lookup (r_live r') 3 = Some (0, Some 9)) \<and>
   (\<exists>fp'. pair_append sample_record sample_pair [Fail EBADF 5] = (Some EBADF, fp', []) \<and> fp_poisoned fp' \<and>
     pair_log 8 16 fp' (replay_from 8 16))"
proof -
  note defs = pair_append_def sample_pair_def kSpace_def kMaxLogRecords_def kMaxRoIndexSize_def
    plan_ranges_def cut_range_def Let_def write_all_def next_outcome_def
  obtain res fp' io' where r: "pair_append sample_record sample_pair [] = (res, fp', io')"
    by (cases "pair_append sample_record sample_pair []")
  have "res = None" "io' = []" using r by (auto simp: defs)
  then have "\<exists>fp' r'. pair_append sample_record sample_pair [] = (None, fp', []) \<and> pair_log 8 16 fp' r' \<and>
     lookup (r_live r') 3 = Some (0, Some 9)"
    using pair_append_correct [OF sample_pair_log sample_record_ok r] r
    by (auto simp: sample_record_def covers_def place_def seg_end_def)
  moreover obtain res2 fp2 io2 where r2: "pair_append sample_record sample_pair [Fail EBADF 5] = (res2, fp2, io2)"
    by (cases "pair_append sample_record sample_pair [Fail EBADF 5]")
  have "res2 = Some EBADF" "io2 = []" using r2 by (auto simp: defs)
  then have "pair_append sample_record sample_pair [Fail EBADF 5] = (Some EBADF, fp2, []) \<and> fp_poisoned fp2 \<and>
     pair_log 8 16 fp2 (replay_from 8 16)"
    using pair_append_correct [OF sample_pair_log sample_record_ok r2] r2
    by (auto simp: sample_pair_def split: if_splits)
  ultimately show ?thesis by blast
qed

section \<open>Compaction\<close>

lemma log_owner_index:
  assumes "wf_segs v" "\<forall>s \<in> set v. s_tag s = 0 \<and> s_offset s \<noteq> kInvalidOffset"
  shows "log_owner v x = lookup v x"
proof -
  have "foldl (\<lambda>o' m. if s_offset m \<noteq> kInvalidOffset \<and> covers m x then Some (0, place m x) else o') a v
      = (case lookup v x of None \<Rightarrow> a | Some w \<Rightarrow> Some w)" for a
    using assms
  proof (induction v arbitrary: a)
    case (Cons s v)
    have "lookup v x = None" if "covers s x"
      using Cons.prems(1) that by (intro lookup_below) (auto simp: wf_segs_Cons covers_def seg_end_def)
    then show ?case using Cons by (auto simp: wf_segs_Cons split: option.splits)
  qed simp
  then show ?thesis by (simp add: log_owner_def split: option.splits)
qed

lemma replay_step_records:
  "replay_step (r\<lparr>r_records := k\<rparr>) m = map_sum id (\<lambda>r'. r'\<lparr>r_records := k\<rparr>) (replay_step r m)"
  by (simp add: replay_step_def Let_def)

lemma replay_loop_records:
  "replay_loop (r\<lparr>r_records := k\<rparr>) raw = map_sum id (\<lambda>r'. r'\<lparr>r_records := k\<rparr>) (replay_loop r raw)"
proof (induction r raw rule: replay_loop.induct)
  case (1 r raw)
  show ?case
  proof (cases "raw = []")
    case True
    then show ?thesis by (simp add: replay_loop.simps)
  next
    case False
    then show ?thesis
      using 1 by (subst (1 2) replay_loop.simps)
        (cases "replay_step r (load_segment_le raw)"; simp add: replay_step_records id_def)
  qed
qed

lemma records_update_eq: "q\<lparr>r_records := a\<rparr> = p\<lparr>r_records := b\<rparr> \<Longrightarrow> q = p\<lparr>r_records := r_records q\<rparr>"
  for p q :: Replay
  by (cases p; cases q) simp

lemma compact_check_loop:
  assumes "compact_check previous r ms = Inr r'" "\<forall>m \<in> set ms. seg_fits m"
  shows "\<exists>k. replay_loop r (concat (map store_segment_le ms)) = Inr (r'\<lparr>r_records := k\<rparr>)"
  using assms
proof (induction previous r ms rule: compact_check.induct)
  case (1 previous r)
  then show ?case by (auto simp: replay_loop.simps intro: exI [of _ "r_records r'"])
next
  case (2 previous r m ms)
  from "2.prems"(1) obtain r1 where r1: "replay_append r (store_segment_le m) = Inr r1"
    "compact_check (seg_end m) r1 ms = Inr r'" and ord: "\<not> s_offset m < previous" by (auto split: if_splits)
  let ?k = "r_records r + length (store_segment_le m) div kEncodedSize"
  have fits: "seg_fits m" using "2.prems"(2) by simp
  have "replay_loop (r\<lparr>r_records := ?k\<rparr>) (store_segment_le m @ []) = Inr r1"
    using replay_append_loop [OF r1(1)] by simp
  then have "replay_step (r\<lparr>r_records := ?k\<rparr>) m = Inr r1"
    unfolding replay_loop_store [OF fits] by (auto simp: replay_loop.simps)
  then obtain r2 where r2: "replay_step r m = Inr r2" "r1 = r2\<lparr>r_records := ?k\<rparr>"
    unfolding replay_step_records by (cases "replay_step r m") auto
  obtain k where "replay_loop r1 (concat (map store_segment_le ms)) = Inr (r'\<lparr>r_records := k\<rparr>)"
    using "2.IH" [OF ord r1] "2.prems"(2) by auto
  then obtain j where "replay_loop r2 (concat (map store_segment_le ms)) = Inr (r'\<lparr>r_records := j\<rparr>)"
    unfolding r2(2) replay_loop_records
    by (cases "replay_loop r2 (concat (map store_segment_le ms))") (auto dest: records_update_eq)
  then show ?case using r2(1) by (auto simp: replay_loop_store [OF fits])
qed

lemma write_records_result:
  assumes "write_records ms off f io = (None, off', f', io')" "off = length f"
  shows "f' = f @ concat (map store_segment_le ms) \<and> off' = off + length ms * kEncodedSize"
  using assms
proof (induction ms arbitrary: off f io)
  case (Cons m ms)
  then have "write_records ms (off + 16) (f @ store_segment_le m) (tl io) = (None, off', f', io')"
    by (cases "next_outcome io") (simp_all add: write_all_def file_write_end)
  from Cons.IH [OF this] Cons.prems(2) show ?case
    by (simp add: kEncodedSize_def length_store_segment)
qed simp

lemma write_compacted_result:
  assumes "write_compacted ht live io = (Inr (off, f), io')"
  shows "\<exists>region. f = region @ concat (map store_segment_le live) \<and> length region = kSpace \<and>
    off = kSpace + length live * kEncodedSize"
proof -
  obtain region where s: "serialize_ht (index_header ht) = Inr region"
    using assms by (cases "serialize_ht (index_header ht)") (auto simp: write_compacted_def)
  then have len: "length region = kSpace"
    using serialize_ht_ok [of "index_header ht"] serialize_ht_error [of "index_header ht"] length_ht_fields
    by (cases "ht_strings_ok (index_header ht)") auto
  then have "file_write 0 region [] = region" by (simp add: file_write_def kSpace_def)
  with assms s obtain io1 io2 where "write_records live kSpace region io1 = (None, off, f, io2)"
    by (auto simp: write_compacted_def write_all_def split: outcome.splits prod.splits option.splits)
  then show ?thesis using write_records_result [of live kSpace region] len by force
qed

lemma pair_log_compacted:
  assumes "compact_check 0 (replay_from sectors n) live = Inr r" "\<forall>m \<in> set live. seg_fits m"
    "length region = kSpace" "f = region @ concat (map store_segment_le live)"
  shows "\<exists>k. pair_log sectors n (fp\<lparr>fp_index := f, fp_index_bytes := kSpace + length live * kEncodedSize,
      fp_live_ranges := map seg_range (r_live r)\<rparr>) (r\<lparr>r_records := k\<rparr>)"
proof -
  obtain k where "replay_loop (replay_from sectors n) (concat (map store_segment_le live)) = Inr (r\<lparr>r_records := k\<rparr>)"
    using compact_check_loop [OF assms(1,2)] by blast
  moreover have "length (concat (map store_segment_le live)) = length live * kEncodedSize"
    by (induction live) simp_all
  ultimately show ?thesis
    using assms(3,4) by (intro exI [of _ k]) (simp add: pair_log_def log_bytes_def get_bytes_def)
qed

lemma compact_sync_cases:
  assumes "compact_sync live data fp io = (res, fp', io')"
  shows "(fp' = fp \<and> res \<noteq> None) \<or>
    (\<exists>r0 r f off io1 io2. replay_new (unat (ht_virtual_size (fp_header fp))) (length data) = Inr r0 \<and>
       compact_check 0 r0 live = Inr r \<and> replay_finish r = Inr (r_live r) \<and>
       write_compacted (fp_header fp) live io1 = (Inr (off, f), io2) \<and>
       fp' = fp\<lparr>fp_index := f, fp_index_bytes := off, fp_live_ranges := map seg_range (r_live r)\<rparr>)"
proof -
  have fin: "replay_finish r = Inr v \<Longrightarrow> v = r_live r" for r v
    by (simp add: replay_finish_def split: if_splits)
  show ?thesis
    using assms fin unfolding compact_sync_def
    by (auto simp: Let_def bindR_def split: if_splits option.splits prod.splits sum.splits) blast+
qed

lemma compact_spec:
  assumes "wf_segs live" and "\<forall>m \<in> set live. seg_fits m \<and> s_tag m = 0 \<and> s_offset m \<noteq> kInvalidOffset"
    and "compact_sync live data fp io = (res, fp', io')"
  shows "(fp' = fp \<and> res \<noteq> None) \<or>
    (\<exists>r. pair_log (unat (ht_virtual_size (fp_header fp)) div kAlignment) (length data div kAlignment) fp' r \<and>
       fp_index_bytes fp' = kSpace + length live * kEncodedSize \<and>
       (\<forall>x. lookup (r_live r) x = lookup live x))"
proof -
  let ?sectors = "unat (ht_virtual_size (fp_header fp)) div kAlignment" and ?n = "length data div kAlignment"
  have "\<exists>r. pair_log ?sectors ?n fp' r \<and> fp_index_bytes fp' = kSpace + length live * kEncodedSize \<and>
       (\<forall>x. lookup (r_live r) x = lookup live x)"
    if n: "replay_new (unat (ht_virtual_size (fp_header fp))) (length data) = Inr r0"
      and c: "compact_check 0 r0 live = Inr r" and w: "write_compacted (fp_header fp) live io1 = (Inr (off, f), io2)"
      and f: "fp' = fp\<lparr>fp_index := f, fp_index_bytes := off, fp_live_ranges := map seg_range (r_live r)\<rparr>"
    for r0 r f off io1 io2
  proof -
    have r0: "r0 = replay_from ?sectors ?n"
      using n by (auto simp: replay_new_def replay_from_def Let_def split: if_splits)
    have fits: "\<forall>m \<in> set live. seg_fits m" using assms(2) by simp
    obtain region where reg: "f = region @ concat (map store_segment_le live)" "length region = kSpace"
      "off = kSpace + length live * kEncodedSize" using write_compacted_result [OF w] by blast
    obtain k where pl: "pair_log ?sectors ?n fp' (r\<lparr>r_records := k\<rparr>)"
      using pair_log_compacted [OF c [unfolded r0] fits reg(2,1)] unfolding f reg(3) by blast
    obtain j where "replay_loop (replay_from ?sectors ?n) (concat (map store_segment_le live)) = Inr (r\<lparr>r_records := j\<rparr>)"
      using compact_check_loop [OF c [unfolded r0] fits] by blast
    from replay_loop_correct [OF replay_from_inv this]
    have "lookup (r_live r) x = log_owner live x" for x
      by (simp add: log_owner_def decode_log_store [OF fits] replay_from_def)
    then have "lookup (r_live r) x = lookup live x" for x
      using log_owner_index [OF assms(1)] assms(2) by simp
    then show ?thesis using pl f reg(3) by (intro exI [of _ "r\<lparr>r_records := k\<rparr>"]) simp
  qed
  then show ?thesis using compact_sync_cases [OF assms(3)] by blast
qed

text \<open>C17: Compaction of the log. Whatever system call fails, \<open>compact\<close> either leaves the pair as it
  was and reports an error, or has published a log of one record per live mapping whose replay
  gives every sector the same owner and payload position as the live mappings had.\<close>

theorem compact_correct:
  assumes "wf_segs live" and "\<forall>m \<in> set live. seg_fits m \<and> s_tag m = 0 \<and> s_offset m \<noteq> kInvalidOffset"
    and "compact_sync live data fp io = (res, fp', io')"
  shows "(fp' = fp \<and> res \<noteq> None) \<or>
    (\<exists>r. pair_log (unat (ht_virtual_size (fp_header fp)) div kAlignment) (length data div kAlignment) fp' r \<and>
       fp_index_bytes fp' = kSpace + length live * kEncodedSize \<and>
       (\<forall>x. lookup (r_live r) x = lookup live x))"
  using assms by (rule compact_spec)

lemma sample_compact_check:
  "compact_check 0 (replay_from 8 16) [sample_record] =
     Inr ((replay_from 8 16)\<lparr>r_records := 1, r_live := [sample_record]\<rparr>)"
proof -
  have fits: "seg_fits sample_record" using sample_record_ok by (simp add: record_ok_def)
  have "replay_loop ((replay_from 8 16)\<lparr>r_records := Suc 0\<rparr>) (store_segment_le sample_record @ []) =
      Inr ((replay_from 8 16)\<lparr>r_records := Suc 0, r_live := [sample_record]\<rparr>)"
    unfolding replay_loop_store [OF fits]
    by (subst replay_step_ok) (use sample_record_ok in \<open>simp_all add: replay_from_def map_replace_def
        cut_range_def Let_def kMaxRoIndexSize_def replay_loop.simps\<close>)
  then show ?thesis
    by (simp add: replay_append_def length_store_segment kEncodedSize_def kMaxLogRecords_def
        kMaxRoIndexSize_def replay_from_def)
qed

theorem compact_correct_witness:
  "\<exists>fp' r. compact_sync [sample_record] (zeros 8192) sample_pair [] = (None, fp', []) \<and> pair_log 8 16 fp' r \<and>
     lookup (r_live r) 3 = Some (0, Some 9)"
proof -
  obtain res fp' io' where r: "compact_sync [sample_record] (zeros 8192) sample_pair [] = (res, fp', io')"
    by (cases "compact_sync [sample_record] (zeros 8192) sample_pair []")
  have new: "replay_new 4096 8192 = Inr (replay_from 8 16)"
    by (simp add: replay_new_def replay_from_def kAlignment_def kMaxOffset_def kSpace_def kMaxMoffset_def)
  have "ht_strings_ok (index_header (fp_header sample_pair))"
    by (simp add: ht_strings_ok_def index_header_def sample_pair_def default_ht_def)
  from serialize_ht_ok [OF this]
  have "\<exists>x. write_compacted (fp_header sample_pair) [sample_record] [] = (Inr x, [])"
    by (simp add: write_compacted_def)
  moreover have "\<not> fp_poisoned sample_pair" "unat (ht_virtual_size (fp_header sample_pair)) = 4096"
    by (simp_all add: sample_pair_def)
  moreover have "replay_finish ((replay_from 8 16)\<lparr>r_records := 1, r_live := [sample_record]\<rparr>) = Inr [sample_record]"
    by (simp add: replay_finish_def physical_def sample_record_def)
  ultimately have "res = None" "io' = []"
    using r new sample_compact_check
    by (auto simp: compact_sync_def kMaxRoIndexSize_def simp del: compact_check.simps)
  moreover have "wf_segs [sample_record]" by (simp add: sample_record_def)
  moreover have "\<forall>m \<in> set [sample_record]. seg_fits m \<and> s_tag m = 0 \<and> s_offset m \<noteq> kInvalidOffset"
    using sample_record_ok by (simp add: record_ok_def)
  moreover have "lookup [sample_record] 3 = Some (0, Some 9)"
    by (simp add: sample_record_def covers_def place_def seg_end_def)
  moreover have "unat (ht_virtual_size (fp_header sample_pair)) div kAlignment = 8"
    "length (zeros 8192) div kAlignment = 16" by (simp_all add: sample_pair_def kAlignment_def)
  ultimately show ?thesis
    using compact_correct [of "[sample_record]" "zeros 8192" sample_pair "[]" res fp' io'] r by metis
qed

end
