(* ===== verification/LsmtMerge.thy ===== *)
theory LsmtMerge
  imports Segments
begin

text \<open>
  \<open>MergedLsmt::merge_range\<close> and \<open>merge_indexes\<close> (\<open>src/format/lsmt.cpp\<close>): the gap merge of the
  per-layer indexes, topmost layer first, into one index whose tags are layer numbers.

  The C++ function walks one layer's mappings and recurses into the layers below for every gap.
  The model has the recursion in the same shape: \<open>merge_range\<close> is the function, \<open>merge_loop\<close> its
  \<open>for\<close> loop with the code after it. The vector \<open>layers\<close> with the index \<open>level\<close> is the list of
  the layers from \<open>level\<close> down. The abstract specification is \<open>stack_lookup\<close>: a sector belongs to
  the topmost layer that covers it.
\<close>

definition clip_head :: "nat \<Rightarrow> segment_mapping \<Rightarrow> segment_mapping" where
  "clip_head lo s =
     (if s_offset s < lo
      then let delta = lo - s_offset s
           in s\<lparr>s_offset := lo, s_length := s_length s - delta,
                s_moffset := (if \<not> s_zeroed s then s_moffset s + delta else s_moffset s)\<rparr>
      else s)"

definition clip_tail :: "nat \<Rightarrow> segment_mapping \<Rightarrow> segment_mapping" where
  "clip_tail hi s = (if seg_end s > hi then s\<lparr>s_length := hi - s_offset s\<rparr> else s)"

definition coalesces :: "segment_mapping \<Rightarrow> segment_mapping \<Rightarrow> bool" where
  "coalesces previous s \<longleftrightarrow>
     seg_end previous = s_offset s \<and> s_tag previous = s_tag s \<and>
     s_zeroed previous = s_zeroed s \<and> (s_zeroed s \<or> seg_mend previous = s_moffset s) \<and>
     s_length s \<le> kMaxLength - s_length previous"

text \<open>Append to the output vector, extending its last element when that is possible.\<close>

definition emit :: "nat \<Rightarrow> segment_mapping list \<Rightarrow> segment_mapping \<Rightarrow> segment_mapping list" where
  "emit output_begin out s =
     (if length out > output_begin \<and> coalesces (last out) s
      then butlast out @ [(last out)\<lparr>s_length := s_length (last out) + s_length s\<rparr>]
      else out @ [s])"

function merge_range ::
    "nat \<Rightarrow> segment_mapping list list \<Rightarrow> nat \<Rightarrow> nat \<Rightarrow> nat \<Rightarrow> segment_mapping list
       \<Rightarrow> segment_mapping list"
  and merge_loop ::
    "nat \<Rightarrow> segment_mapping list list \<Rightarrow> segment_mapping list \<Rightarrow> nat \<Rightarrow> nat \<Rightarrow> nat
       \<Rightarrow> segment_mapping list \<Rightarrow> segment_mapping list"
where
  "merge_range level [] lo hi output_begin out = out"
| "merge_range level (segs # below) lo hi output_begin out =
     (if lo \<ge> hi then out
      else merge_loop level below (upper_bound seg_end lo segs) lo hi output_begin out)"
| "merge_loop level below [] lo hi output_begin out =
     (if lo < hi then merge_range (level + 1) below lo hi output_begin out else out)"
| "merge_loop level below (it # rest) lo hi output_begin out =
     (if s_offset it \<ge> hi
      then (if lo < hi then merge_range (level + 1) below lo hi output_begin out else out)
      else
        let out' = (if s_offset it > lo
                    then merge_range (level + 1) below lo (s_offset it) output_begin out else out);
            s = clip_tail hi (clip_head lo it)
        in if s_length s = 0 then merge_loop level below rest lo hi output_begin out'
           else let s' = s\<lparr>s_tag := level mod 256\<rparr>;
                    out'' = emit output_begin out' s';
                    lo' = seg_end s'
                in if lo' \<ge> hi then out''
                   else merge_loop level below rest lo' hi output_begin out'')"
  by pat_completeness auto
termination
  by (relation "measures [case_sum (\<lambda>(_, ls, _). 2 * length ls) (\<lambda>(_, ls, _). 2 * length ls + 1),
        case_sum (\<lambda>_. 0) (\<lambda>(_, _, it, _). length it)]") auto

definition merge_indexes ::
    "segment_mapping list list \<Rightarrow> segment_mapping list \<Rightarrow> segment_mapping list result" where
  "merge_indexes layers out =
     (let out' = merge_range 0 layers 0 kMaxOffset (length out) out
      in if length out' > kMaxRoIndexSize then Inl EINVAL else Inr out')"

text \<open>Specification: the topmost layer that covers a sector owns it.\<close>

primrec stack_lookup :: "nat \<Rightarrow> segment_mapping list list \<Rightarrow> nat \<Rightarrow> owner option" where
  "stack_lookup level [] x = None"
| "stack_lookup level (segs # below) x =
     (case lookup segs x of
        None \<Rightarrow> stack_lookup (level + 1) below x
      | Some (_, p) \<Rightarrow> Some (level mod 256, p))"


section \<open>The output before the call is left alone\<close>

lemma emit_prefix: "emit (length pre) (pre @ out) s = pre @ emit 0 out s"
  by (cases out rule: rev_cases) (simp_all add: emit_def butlast_append)

lemma merge_prefix:
  "merge_range level layers lo hi (length pre) (pre @ own) = pre @ merge_range level layers lo hi 0 own"
  "merge_loop level below it lo hi (length pre) (pre @ own) = pre @ merge_loop level below it lo hi 0 own"
proof (induction level layers lo hi "0 :: nat" own and level below it lo hi "0 :: nat" own
    rule: merge_range_merge_loop.induct)
  case (4 level below it rest lo hi own)
  note IH = "4.hyps"(1,2) "4.hyps"(3) [OF _ refl refl] "4.hyps"(4) [OF _ refl refl _ refl refl refl]
  show ?case
    by (cases "lo < s_offset it"; cases "s_offset it < hi") (use IH in \<open>auto simp: Let_def emit_prefix\<close>)
qed auto

section \<open>Clipping and coalescing\<close>

lemma clip_head_tail:
  assumes "lo < seg_end s" "s_offset s < hi" "lo < hi"
  shows "clip_tail hi (clip_head lo s) = clip lo hi s"
  using assms
  by (cases s) (auto simp: clip_head_def clip_tail_def clip_def Let_def seg_end_def max_def min_def)

text \<open>
  \<open>ready lo out\<close>: the index built so far ends before \<open>lo\<close>. \<open>extends lo hi f out r\<close>: \<open>r\<close> is that
  index extended to the range from \<open>lo\<close> to \<open>hi\<close> with the owners \<open>f\<close>.
\<close>

definition ready :: "nat \<Rightarrow> segment_mapping list \<Rightarrow> bool" where
  "ready lo out \<longleftrightarrow> wf_segs out \<and> (\<forall>s \<in> set out. seg_end s \<le> lo)"

definition extends ::
    "nat \<Rightarrow> nat \<Rightarrow> (nat \<Rightarrow> owner option) \<Rightarrow> segment_mapping list \<Rightarrow> segment_mapping list \<Rightarrow> bool" where
  "extends lo hi f out r \<longleftrightarrow> ready hi r \<and>
     (\<forall>x. lookup r x = (if lo \<le> x \<and> x < hi then f x else lookup out x))"

lemma ready_mono: "ready lo out \<Longrightarrow> lo \<le> hi \<Longrightarrow> ready hi out"
  by (fastforce simp: ready_def)

lemma ready_lookup: "ready lo out \<Longrightarrow> lo \<le> x \<Longrightarrow> lookup out x = None"
  by (force simp: ready_def intro: lookup_above)

lemma extends_ready: "extends lo hi f out r \<Longrightarrow> ready hi r"
  by (simp add: extends_def)

lemma extends_trans:
  "extends lo mid f out r \<Longrightarrow> extends mid hi f r r' \<Longrightarrow> lo \<le> mid \<Longrightarrow> mid \<le> hi \<Longrightarrow> extends lo hi f out r'"
  by (auto simp: extends_def)

lemma extends_cong:
  "extends lo hi f out r \<Longrightarrow> (\<And>x. lo \<le> x \<Longrightarrow> x < hi \<Longrightarrow> f x = g x) \<Longrightarrow> extends lo hi g out r"
  by (simp add: extends_def)

lemma extends_nothing: "ready lo out \<Longrightarrow> lo \<le> hi \<Longrightarrow> extends lo hi (\<lambda>_. None) out out"
  by (auto simp: extends_def ready_lookup intro: ready_mono)

lemma coalesced_covers:
  assumes "coalesces p s"
  shows "covers (p\<lparr>s_length := s_length p + s_length s\<rparr>) x \<longleftrightarrow> covers p x \<or> covers s x"
  using assms by (auto simp: coalesces_def covers_def seg_end_def)

lemma coalesced_place:
  assumes "coalesces p s"
  shows "covers p x \<Longrightarrow> place (p\<lparr>s_length := s_length p + s_length s\<rparr>) x = place p x"
    and "covers s x \<Longrightarrow> place (p\<lparr>s_length := s_length p + s_length s\<rparr>) x = place s x"
  using assms by (auto simp: coalesces_def place_def covers_def seg_end_def seg_mend_def)

lemma extends_emit:
  assumes "ready (s_offset s) out" and "0 < s_length s"
  shows "extends (s_offset s) (seg_end s) (\<lambda>x. Some (s_tag s, place s x)) out (emit 0 out s)"
proof (cases "out \<noteq> [] \<and> coalesces (last out) s")
  case False
  then have e: "emit 0 out s = out @ [s]" by (auto simp: emit_def)
  have "ready (seg_end s) (out @ [s])"
    using assms by (fastforce simp: ready_def wf_segs_append seg_end_def)
  moreover have "lookup (out @ [s]) x = (if s_offset s \<le> x \<and> x < seg_end s
      then Some (s_tag s, place s x) else lookup out x)" for x
    using ready_lookup [OF assms(1), of x]
    by (auto simp: lookup_append covers_def split: option.splits)
  ultimately show ?thesis unfolding e extends_def by blast
next
  case True
  then obtain init p where out: "out = init @ [p]" by (metis append_butlast_last_id)
  with True have c: "coalesces p s" by simp
  define q where "q = p\<lparr>s_length := s_length p + s_length s\<rparr>"
  have e: "emit 0 out s = init @ [q]" using True out by (simp add: emit_def q_def)
  have q: "s_offset q = s_offset p" "seg_end q = seg_end s" "s_tag q = s_tag s" "s_tag p = s_tag s"
    using c by (simp_all add: q_def coalesces_def seg_end_def)
  have "ready (seg_end s) (init @ [q])"
    using assms out q by (fastforce simp: ready_def wf_segs_append q_def seg_end_def)
  moreover have "lookup (init @ [q]) x = (if s_offset s \<le> x \<and> x < seg_end s
      then Some (s_tag s, place s x) else lookup out x)" for x
    using ready_lookup [OF assms(1), of x] coalesced_covers [OF c, of x] coalesced_place [OF c, of x] q
    unfolding out q_def [symmetric]
    by (auto simp: lookup_append covers_def split: option.splits)
  ultimately show ?thesis unfolding e extends_def by blast
qed


section \<open>The merge computes the stack lookup\<close>

definition layer_over :: "nat \<Rightarrow> segment_mapping list \<Rightarrow> segment_mapping list list \<Rightarrow> nat \<Rightarrow> owner option"
where
  "layer_over level it below x =
     (case lookup it x of
        None \<Rightarrow> stack_lookup (level + 1) below x
      | Some (_, p) \<Rightarrow> Some (level mod 256, p))"

lemma layer_over_Cons:
  "layer_over level (s # it) below x =
     (if covers s x then Some (level mod 256, place s x) else layer_over level it below x)"
  by (simp add: layer_over_def)

lemma layer_over_gap: "\<forall>s \<in> set it. x < s_offset s \<Longrightarrow> layer_over level it below x = stack_lookup (level + 1) below x"
  by (simp add: layer_over_def lookup_below)

lemma extends_clipped:
  assumes "ready (max lo (s_offset s)) out" "lo < seg_end s" "s_offset s < hi" "lo < hi" "0 < s_length s"
  shows "extends (max lo (s_offset s)) (min hi (seg_end s)) (\<lambda>x. Some (level mod 256, place s x)) out
           (emit 0 out ((clip lo hi s)\<lparr>s_tag := level mod 256\<rparr>))"
proof -
  let ?s = "(clip lo hi s)\<lparr>s_tag := level mod 256\<rparr>"
  have end_s: "seg_end ?s = min hi (seg_end s)"
    using assms seg_end_clip [of lo s hi] by (simp add: seg_end_def)
  have "extends (s_offset ?s) (seg_end ?s) (\<lambda>x. Some (s_tag ?s, place ?s x)) out (emit 0 out ?s)"
    using assms by (intro extends_emit) (auto simp: seg_end_def)
  then have "extends (max lo (s_offset s)) (min hi (seg_end s)) (\<lambda>x. Some (level mod 256, place ?s x))
      out (emit 0 out ?s)"
    using end_s by simp
  then show ?thesis
  proof (rule extends_cong)
    fix x assume "max lo (s_offset s) \<le> x" "x < min hi (seg_end s)"
    then have "covers s x" "lo \<le> x" "x < hi" by (auto simp: covers_def)
    then have "covers (clip lo hi s) x" by (simp add: covers_clip)
    then have "place (clip lo hi s) x = place s x" by (rule place_clip)
    moreover have "place ?s x = place (clip lo hi s) x" by (simp add: place_def)
    ultimately show "Some (level mod 256, place ?s x) = Some (level mod 256, place s x)" by simp
  qed
qed

text \<open>One iteration of the loop: the gap before the mapping, then the mapping itself.\<close>

lemma merge_loop_step:
  assumes "lo < seg_end it" "s_offset it < hi" "lo < hi" "0 < s_length it"
  shows "merge_loop level below (it # rest) lo hi 0 out =
    (let e = min hi (seg_end it);
         out' = (if s_offset it > lo then merge_range (level + 1) below lo (s_offset it) 0 out else out);
         out'' = emit 0 out' ((clip lo hi it)\<lparr>s_tag := level mod 256\<rparr>)
     in if e \<ge> hi then out'' else merge_loop level below rest e hi 0 out'')"
proof -
  have "seg_end ((clip lo hi it)\<lparr>s_tag := t\<rparr>) = min hi (seg_end it)" "s_length (clip lo hi it) \<noteq> 0" for t
    using assms by (auto simp: seg_end_def)
  then show ?thesis
    using assms clip_head_tail [OF assms(1-3)] by (simp add: Let_def)
qed

lemma extends_iteration:
  assumes "wf_segs (it # rest)" "lo < seg_end it" "s_offset it < hi" "lo < hi"
    and gap: "extends lo (max lo (s_offset it)) (stack_lookup (level + 1) below) out out'"
  shows "extends lo (min hi (seg_end it)) (layer_over level (it # rest) below) out
           (emit 0 out' ((clip lo hi it)\<lparr>s_tag := level mod 256\<rparr>))"
proof -
  let ?m = "max lo (s_offset it)" and ?e = "min hi (seg_end it)"
  have pos: "0 < s_length it" using assms(1) by (simp add: wf_segs_Cons)
  have "extends lo ?m (layer_over level (it # rest) below) out out'"
  proof (rule extends_cong [OF gap])
    fix x assume "lo \<le> x" "x < ?m"
    then show "stack_lookup (level + 1) below x = layer_over level (it # rest) below x"
      using assms(1) by (intro layer_over_gap [symmetric]) (fastforce simp: wf_segs_Cons seg_end_def)
  qed
  moreover have "extends ?m ?e (layer_over level (it # rest) below) out'
      (emit 0 out' ((clip lo hi it)\<lparr>s_tag := level mod 256\<rparr>))"
  proof (rule extends_cong [OF extends_clipped])
    show "ready ?m out'" using gap by (rule extends_ready)
    show "Some (level mod 256, place it x) = layer_over level (it # rest) below x"
      if "?m \<le> x" "x < ?e" for x
      using that by (simp add: layer_over_Cons covers_def)
  qed (use assms pos in auto)
  ultimately show ?thesis
    by (rule extends_trans) (use assms pos in \<open>auto simp: seg_end_def\<close>)
qed

lemma extends_rest:
  assumes "wf_segs (it # rest)" "extends e hi (layer_over level rest below) out r"
    and "seg_end it \<le> e"
  shows "extends e hi (layer_over level (it # rest) below) out r"
  using assms(2) by (rule extends_cong) (use assms(3) in \<open>auto simp: layer_over_Cons covers_def\<close>)

lemma rest_ends:
  assumes "wf_segs (it # rest)" "s \<in> set rest" "e \<le> seg_end it"
  shows "e < seg_end s"
proof -
  from assms have "seg_end it \<le> s_offset s" "s_offset s < seg_end s"
    by (auto simp: wf_segs_Cons intro: wf_segs_pos seg_end_gt)
  with assms show ?thesis by simp
qed

lemma merge_correct:
  "\<forall>l \<in> set layers. wf_segs l \<Longrightarrow> ready lo out \<Longrightarrow> lo \<le> hi \<Longrightarrow>
     extends lo hi (stack_lookup level layers) out (merge_range level layers lo hi 0 out)"
  "\<forall>l \<in> set below. wf_segs l \<Longrightarrow> wf_segs it \<Longrightarrow> \<forall>s \<in> set it. lo < seg_end s \<Longrightarrow> ready lo out \<Longrightarrow> lo < hi \<Longrightarrow>
     extends lo hi (layer_over level it below) out (merge_loop level below it lo hi 0 out)"
proof (induction level layers lo hi "0 :: nat" out and level below it lo hi "0 :: nat" out
    rule: merge_range_merge_loop.induct)
  case (1 level lo hi out)
  then show ?case using extends_nothing [of lo out hi] by (auto elim: extends_cong)
next
  case (2 level segs below lo hi out)
  show ?case
  proof (cases "lo < hi")
    case True
    with 2 have "extends lo hi (layer_over level (upper_bound seg_end lo segs) below) out
        (merge_loop level below (upper_bound seg_end lo segs) lo hi 0 out)"
      by (auto intro: upper_bound_wf dest: upper_bound_ends)
    then show ?thesis
      using True
      by (auto simp: layer_over_def lookup_upper_bound cong: option.case_cong elim: extends_cong)
  qed (use 2 in \<open>auto simp: extends_def\<close>)
next
  case (3 level below lo hi out)
  then have "extends lo hi (stack_lookup (level + 1) below) out (merge_loop level below [] lo hi 0 out)"
    by simp
  then show ?case by (rule extends_cong) (simp add: layer_over_def)
next
  case (4 level below it rest lo hi out)
  have it: "lo < seg_end it" "0 < s_length it" using 4(6,7) by (auto simp: wf_segs_Cons)
  show ?case
  proof (cases "hi \<le> s_offset it")
    case True
    with 4 have "extends lo hi (stack_lookup (level + 1) below) out (merge_loop level below (it # rest) lo hi 0 out)"
      by simp
    then show ?thesis
    proof (rule extends_cong)
      fix x assume "lo \<le> x" "x < hi"
      with True 4(6) show "stack_lookup (level + 1) below x = layer_over level (it # rest) below x"
        by (intro layer_over_gap [symmetric]) (fastforce simp: wf_segs_Cons seg_end_def)
    qed
  next
    case False
    define out' where "out' = (if s_offset it > lo
        then merge_range (level + 1) below lo (s_offset it) 0 out else out)"
    define out'' where "out'' = emit 0 out' ((clip lo hi it)\<lparr>s_tag := level mod 256\<rparr>)"
    define e where "e = min hi (seg_end it)"
    have step: "merge_loop level below (it # rest) lo hi 0 out
        = (if e \<ge> hi then out'' else merge_loop level below rest e hi 0 out'')"
      using it False 4(9) unfolding out'_def out''_def e_def
      by (subst merge_loop_step) (auto simp: Let_def simp del: merge_loop.simps)
    have "extends lo (max lo (s_offset it)) (stack_lookup (level + 1) below) out out'"
      using 4 False by (auto simp: out'_def extends_def max_def)
    then have head: "extends lo e (layer_over level (it # rest) below) out out''"
      unfolding e_def out''_def using 4(6,9) it False by (intro extends_iteration) auto
    have cl: "clip_tail hi (clip_head lo it) = clip lo hi it"
      using it(1) False 4(9) by (intro clip_head_tail) auto
    have cl': "s_length (clip lo hi it) \<noteq> 0" "seg_end ((clip lo hi it)\<lparr>s_tag := t\<rparr>) = e" for t
      using it False 4(9) by (auto simp: e_def seg_end_def)
    note IH = "4.hyps"(4) [OF False refl refl _ refl refl refl, unfolded cl cl'(2),
        folded out'_def, folded out''_def]
    show ?thesis
    proof (cases "e < hi")
      case True
      have "extends e hi (layer_over level rest below) out'' (merge_loop level below rest e hi 0 out'')"
        using cl'(1) True 4(5,6) head
        by (intro IH) (auto simp: wf_segs_Cons extends_def e_def intro: rest_ends)
      then have "extends e hi (layer_over level (it # rest) below) out'' (merge_loop level below rest e hi 0 out'')"
        using 4(6) True by (intro extends_rest) (auto simp: e_def)
      then show ?thesis
        using head True step it(1) 4(9) by (auto simp: e_def intro: extends_trans)
    next
      case False
      then show ?thesis using head step by (simp add: e_def)
    qed
  qed
qed


section \<open>Lengths stay within the 14-bit field\<close>

definition short_segs :: "segment_mapping list \<Rightarrow> bool" where
  "short_segs v \<longleftrightarrow> (\<forall>s \<in> set v. s_length s \<le> kMaxLength)"

lemma short_segs_emit:
  assumes "short_segs out" "s_length s \<le> kMaxLength"
  shows "short_segs (emit ob out s)"
proof (cases "out = []")
  case False
  then have "s_length (last out) \<le> kMaxLength" using assms(1) by (simp add: short_segs_def)
  with assms show ?thesis
    by (auto simp: short_segs_def emit_def coalesces_def dest: in_set_butlastD)
qed (use assms in \<open>simp add: short_segs_def emit_def\<close>)

lemma clip_head_tail_length: "s_length (clip_tail hi (clip_head lo s)) \<le> s_length s"
  by (auto simp: clip_tail_def clip_head_def Let_def seg_end_def)

lemma merge_short:
  "\<forall>l \<in> set layers. short_segs l \<Longrightarrow> short_segs out \<Longrightarrow> short_segs (merge_range level layers lo hi ob out)"
  "\<forall>l \<in> set below. short_segs l \<Longrightarrow> short_segs it \<Longrightarrow> short_segs out \<Longrightarrow>
     short_segs (merge_loop level below it lo hi ob out)"
proof (induction level layers lo hi ob out and level below it lo hi ob out
    rule: merge_range_merge_loop.induct)
  case (2 level segs below lo hi ob out)
  then show ?case
    using upper_bound_subset [of seg_end lo segs] by (auto simp: short_segs_def)
next
  case (4 level below it rest lo hi ob out)
  have "s_length (clip_tail hi (clip_head lo it)) \<le> kMaxLength"
    using 4(6) clip_head_tail_length [of hi lo it] by (simp add: short_segs_def)
  moreover have "short_segs rest" using 4(6) by (simp add: short_segs_def)
  moreover note IH = "4.IH"(1,2) "4.IH"(3) [OF _ refl refl] "4.IH"(4) [OF _ refl refl _ refl refl refl]
  ultimately show ?case
    using 4(5,7) by (cases "lo < s_offset it"; cases "hi \<le> s_offset it")
      (auto simp: Let_def short_segs_emit)
qed auto

section \<open>Correctness of the merged index\<close>

lemma merge_indexes_spec:
  assumes "\<forall>l \<in> set layers. wf_segs l" and "merge_indexes layers out = Inr r"
  shows "\<exists>idx. r = out @ idx \<and> wf_segs idx \<and> length r \<le> kMaxRoIndexSize \<and>
    (\<forall>x. lookup idx x = (if x < kMaxOffset then stack_lookup 0 layers x else None))"
proof -
  let ?idx = "merge_range 0 layers 0 kMaxOffset 0 []"
  have "merge_range 0 layers 0 kMaxOffset (length out) out = out @ ?idx"
    using merge_prefix(1) [of 0 layers 0 kMaxOffset out "[]"] by simp
  then have r: "r = out @ ?idx" "length r \<le> kMaxRoIndexSize"
    using assms(2) by (auto simp: merge_indexes_def Let_def simp del: length_append split: if_splits)
  have "extends 0 kMaxOffset (stack_lookup 0 layers) [] ?idx"
    using assms(1) by (intro merge_correct) (auto simp: ready_def)
  with r show ?thesis by (auto simp: extends_def ready_def)
qed

text \<open>C13: for any stack of sorted, disjoint layer indexes the merge returns an index that is
  again sorted and disjoint, and that gives every sector to the topmost layer covering it, with
  that layer's payload position (or its zero mark); sectors from \<open>kMaxOffset\<close> on have no owner.
  What was in the output vector before the call stays in front.\<close>

theorem merge_indexes_correct:
  assumes "\<forall>l \<in> set layers. wf_segs l" and "merge_indexes layers out = Inr r"
  shows "\<exists>idx. r = out @ idx \<and> wf_segs idx \<and> length r \<le> kMaxRoIndexSize \<and>
    (\<forall>x. lookup idx x = (if x < kMaxOffset then stack_lookup 0 layers x else None))"
  using assms by (rule merge_indexes_spec)

theorem merge_indexes_correct_witness:
  "\<exists>idx. merge_indexes
      [[\<lparr>s_offset = 1, s_length = 2, s_moffset = 8, s_zeroed = False, s_tag = 0\<rparr>],
       [\<lparr>s_offset = 0, s_length = 4, s_moffset = 9, s_zeroed = False, s_tag = 0\<rparr>]] [] = Inr idx \<and>
    wf_segs idx \<and> lookup idx 0 = Some (1, Some 9) \<and> lookup idx 2 = Some (0, Some 9) \<and>
    lookup idx 3 = Some (1, Some 12) \<and> lookup idx 4 = None"
proof -
  let ?ls = "[[\<lparr>s_offset = 1, s_length = 2, s_moffset = 8, s_zeroed = False, s_tag = 0\<rparr>],
       [\<lparr>s_offset = 0, s_length = 4, s_moffset = 9, s_zeroed = False, s_tag = 0\<rparr>]]"
  have "merge_indexes ?ls [] = Inr
      [\<lparr>s_offset = 0, s_length = 1, s_moffset = 9, s_zeroed = False, s_tag = 1\<rparr>,
       \<lparr>s_offset = 1, s_length = 2, s_moffset = 8, s_zeroed = False, s_tag = 0\<rparr>,
       \<lparr>s_offset = 3, s_length = 1, s_moffset = 12, s_zeroed = False, s_tag = 1\<rparr>]"
    by (simp add: merge_indexes_def upper_bound_def clip_head_def clip_tail_def emit_def
        coalesces_def seg_end_def seg_mend_def Let_def kMaxOffset_def kMaxRoIndexSize_def)
  moreover have "\<forall>l \<in> set ?ls. wf_segs l" by simp
  ultimately show ?thesis
    using merge_indexes_correct [of ?ls "[]"]
    by (fastforce simp: kMaxOffset_def covers_def seg_end_def place_def)
qed

end
