(* ===== verification/BlobSource.thy ===== *)
theory BlobSource
  imports Prelude
begin

text \<open>
  \<open>src/source/blob_source.hpp\<close>, \<open>local_file.cpp\<close> and \<open>tar_offset.cpp\<close>: the byte-source
  interface of the read stack and two of its implementations. A source is a record of its two
  methods. A \<open>pread\<close> of the model returns the bytes it delivers; their number is the return value
  of the C++ method and \<open>Inl e\<close> is a returned \<open>-e\<close>. The contract of the interface header is the
  locale \<open>blob_source\<close>.
\<close>

record BlobSource =
  src_size :: nat
  src_pread :: reader

section \<open>The contract\<close>

text \<open>
  A successful \<open>pread\<close> returns \<open>count\<close> bytes except at the end of the blob, where it returns the
  remaining ones. \<open>sized_source\<close> adds that \<open>size()\<close> is the length of the blob.
\<close>

locale blob_source =
  fixes src :: BlobSource and content :: bytes
  assumes pread_content: "src_pread src count offset = Inr bs \<Longrightarrow> bs = get_bytes offset count content"
begin

lemma pread_length:
  "src_pread src count offset = Inr bs \<Longrightarrow> length bs = min count (length content - offset)"
  by (auto dest: pread_content simp: get_bytes_def)

lemma pread_full:
  "src_pread src count offset = Inr bs \<Longrightarrow> length bs = count \<longleftrightarrow> offset + count \<le> length content \<or> count = 0"
  using pread_length [of count offset bs] by linarith

text \<open>Two reads that touch agree with the one read of both ranges.\<close>

lemma pread_split:
  assumes "src_pread src m offset = Inr a" "length a = m" "src_pread src n (offset + m) = Inr b"
    "src_pread src (m + n) offset = Inr c"
  shows "c = a @ b"
  using assms by (auto dest!: pread_content simp: get_bytes_append)

end

locale sized_source = blob_source +
  assumes size_content: "src_size src = length content"
begin

lemma pread_eof: "src_pread src count offset = Inr bs \<Longrightarrow> src_size src \<le> offset \<Longrightarrow> bs = []"
  by (auto dest: pread_content simp: get_bytes_def size_content)

lemma pread_exact: "src_pread src count offset = Inr bs \<Longrightarrow> offset + count \<le> src_size src \<Longrightarrow>
    length bs = count"
  using pread_length [of count offset bs] by (simp add: size_content)

end

section \<open>Local files\<close>

text \<open>
  \<open>elio::io::pread_exactly\<close> delivers exactly the requested bytes of the file or reports an error.
  Whether a call fails, and how, is the parameter \<open>fault\<close>.
\<close>

type_synonym fault = "nat \<Rightarrow> nat \<Rightarrow> errno option"

definition local_pread :: "bytes \<Rightarrow> fault \<Rightarrow> reader" where
  "local_pread file fault count offset =
     (let bound = length file in
      if offset \<ge> bound then Inr []
      else let count = (if count > bound - offset then bound - offset else count) in
        (case fault count offset of Some e \<Rightarrow> Inl e | None \<Rightarrow> Inr (get_bytes offset count file)))"

definition local_file :: "bytes \<Rightarrow> fault \<Rightarrow> BlobSource" where
  "local_file file fault = \<lparr>src_size = length file, src_pread = local_pread file fault\<rparr>"

interpretation lf: sized_source "local_file f fault" f for f fault
  by unfold_locales
    (auto simp: local_file_def local_pread_def get_bytes_def Let_def split: if_splits option.splits)

lemma local_pread_succeeds:
  "(\<And>n o'. fault n o' = None) \<Longrightarrow> src_pread (local_file file fault) n off = Inr (get_bytes off n file)"
  by (auto simp: local_file_def local_pread_def get_bytes_def Let_def)

section \<open>Tar offset adapter\<close>

definition kBlock :: nat where "kBlock = 512"
definition kSizeField :: nat where "kSizeField = 124"
definition kChksumField :: nat where "kChksumField = 148"
definition kTypeflagField :: nat where "kTypeflagField = 156"
definition kMagicField :: nat where "kMagicField = 257"
definition kVersionField :: nat where "kVersionField = 263"
definition kPaxHeader :: byte where "kPaxHeader = 0x78"
definition kPaxGlobalHeader :: byte where "kPaxGlobalHeader = 0x67"

text \<open>\<open>sscanf(tmp, "%llo", &v)\<close>: white space, an optional sign, at least one octal digit; the value is
  that of \<open>strtoull\<close>, negated modulo \<open>2^64\<close> after a minus sign.\<close>

definition is_space :: "byte \<Rightarrow> bool" where
  "is_space c \<longleftrightarrow> c = 0x20 \<or> (0x09 \<le> c \<and> c \<le> 0x0D)"

definition is_octal :: "byte \<Rightarrow> bool" where
  "is_octal c \<longleftrightarrow> 0x30 \<le> c \<and> c \<le> 0x37"

definition octal_value :: "bytes \<Rightarrow> nat" where
  "octal_value ds = foldl (\<lambda>v d. 8 * v + (unat d - 0x30)) 0 ds"

definition sscanf_llo :: "bytes \<Rightarrow> nat option" where
  "sscanf_llo s =
     (let s = dropWhile is_space s;
          neg = (s \<noteq> [] \<and> hd s = 0x2D);
          s = (if s \<noteq> [] \<and> (hd s = 0x2D \<or> hd s = 0x2B) then tl s else s);
          ds = takeWhile is_octal s
      in if ds = [] then None
         else Some (if neg then (U64 - octal_value ds) mod U64 else octal_value ds))"

definition parse_octal :: "bytes \<Rightarrow> nat \<Rightarrow> nat" where
  "parse_octal field maxlen =
     (let n = min maxlen 15;
          tmp = takeWhile (\<lambda>c. c \<noteq> 0) (take n field)
      in case sscanf_llo tmp of None \<Rightarrow> 0 | Some v \<Rightarrow> v)"

definition in_chksum :: "nat \<Rightarrow> bool" where
  "in_chksum i \<longleftrightarrow> kChksumField \<le> i \<and> i < kChksumField + 8"

definition tar_chksum_ok :: "bytes \<Rightarrow> bool" where
  "tar_chksum_ok h =
     (let stored = parse_octal (drop kChksumField h) 8;
          usum = sum_list (map (\<lambda>i. unat (if in_chksum i then 0x20 else h ! i)) [0..<kBlock]);
          ssum = sum_list (map (\<lambda>i. sint (if in_chksum i then 0x20 else h ! i)) [0..<kBlock])
      in stored = usum \<or> int stored = ssum mod int U64 \<or> (ssum \<ge> 0 \<and> int stored = ssum mod int U64))"

definition is_ustar :: "bytes \<Rightarrow> bool" where
  "is_ustar h \<longleftrightarrow> get_bytes kMagicField 5 h = [0x75, 0x73, 0x74, 0x61, 0x72] \<and>
     get_bytes kVersionField 2 h = [0x30, 0x30]"

definition is_new_tar_marker :: "bytes \<Rightarrow> bool" where
  "is_new_tar_marker h \<longleftrightarrow> get_bytes kMagicField 5 h = [0x78, 0x78, 0x74, 0x61, 0x72] \<and>
     get_bytes kVersionField 2 h = [0x78, 0x78]"

definition tar_pread :: "BlobSource \<Rightarrow> nat \<Rightarrow> nat \<Rightarrow> reader" where
  "tar_pread src base sz count offset =
     (if offset \<ge> sz then Inr []
      else let count = (if count > sz - offset then sz - offset else count) in
        if count = 0 then Inr [] else src_pread src count ((offset + base) mod U64))"

definition tar_view :: "BlobSource \<Rightarrow> nat \<Rightarrow> nat \<Rightarrow> BlobSource" where
  "tar_view src base sz = \<lparr>src_size = sz, src_pread = tar_pread src base sz\<rparr>"

definition tar_open :: "BlobSource option \<Rightarrow> BlobSource result" where
  "tar_open src_opt = (case src_opt of None \<Rightarrow> Inl EINVAL | Some src \<Rightarrow>
     if src_size src < kBlock then Inr src
     else case src_pread src kBlock 0 of Inl _ \<Rightarrow> Inr src | Inr h \<Rightarrow>
       if length h \<noteq> kBlock then Inr src
       else if \<not> is_ustar h \<or> \<not> tar_chksum_ok h then Inr src
       else if h ! kTypeflagField = kPaxHeader \<or> h ! kTypeflagField = kPaxGlobalHeader then
         (let base = 3 * kBlock in
          if src_size src < base then Inl EINVAL
          else case src_pread src kBlock (2 * kBlock) of Inl _ \<Rightarrow> Inl EIO | Inr rh \<Rightarrow>
            if length rh \<noteq> kBlock then Inl EIO
            else Inr (tar_view src base
                   (if is_new_tar_marker rh then src_size src - base
                    else parse_octal (drop kSizeField rh) 12)))
       else Inr (tar_view src kBlock (parse_octal (drop kSizeField h) 12)))"

context blob_source
begin

lemma tar_view_source:
  assumes "base + sz \<le> U64"
  shows "blob_source (tar_view src base sz) (take sz (drop base content))"
proof
  fix count offset bs
  assume r: "src_pread (tar_view src base sz) count offset = Inr bs"
  show "bs = get_bytes offset count (take sz (drop base content))"
  proof (cases "offset < sz \<and> count > 0")
    case True
    then have "src_pread src (min count (sz - offset)) (offset + base) = Inr bs"
      using r assms by (auto simp: tar_view_def tar_pread_def Let_def min_def split: if_splits)
    then have "bs = get_bytes (offset + base) (min count (sz - offset)) content"
      by (rule pread_content)
    then show ?thesis using True by (simp add: get_bytes_def drop_take min.commute)
  next
    case False
    then show ?thesis using r
      by (auto simp: tar_view_def tar_pread_def get_bytes_def split: if_splits)
  qed
qed

end

lemma tar_open_plain:
  assumes "\<not> (is_ustar (take kBlock f) \<and> tar_chksum_ok (take kBlock f))"
  shows "tar_open (Some (local_file f fault)) = Inr (local_file f fault)"
  using assms lf.pread_content [of f fault kBlock 0]
  by (auto simp: tar_open_def get_bytes_def split: sum.splits)

lemma tar_open_wrapped:
  assumes h: "length h = kBlock" "is_ustar h" "tar_chksum_ok h"
      "h ! kTypeflagField \<noteq> kPaxHeader" "h ! kTypeflagField \<noteq> kPaxGlobalHeader"
    and "fault kBlock 0 = None"
  shows "tar_open (Some (local_file (h @ rest) fault)) =
    Inr (tar_view (local_file (h @ rest) fault) kBlock (parse_octal (drop kSizeField h) 12))"
proof -
  have "src_pread (local_file (h @ rest) fault) kBlock 0 = Inr h"
    using assms by (simp add: local_file_def local_pread_def get_bytes_def kBlock_def)
  then show ?thesis using h by (simp add: tar_open_def local_file_def)
qed

text \<open>C30: Opening a blob through the tar adapter. A blob whose first block is not a checksummed
  \<open>ustar\<close> header is passed through unchanged. A blob that is a plain tar header, a payload as long
  as the header's octal size field says, and padding opens as a source of exactly the payload:
  its size is the payload's and every successful read returns the payload's bytes.\<close>

theorem tar_open_payload:
  assumes "length (h @ payload @ pad) \<le> U64" "length h = kBlock" "fault kBlock 0 = None"
    and "is_ustar h \<and> tar_chksum_ok h \<longrightarrow>
      h ! kTypeflagField \<notin> {kPaxHeader, kPaxGlobalHeader} \<and>
      parse_octal (drop kSizeField h) 12 = length payload"
  shows "let src = local_file (h @ payload @ pad) fault in
    if is_ustar h \<and> tar_chksum_ok h
    then \<exists>t. tar_open (Some src) = Inr t \<and> src_size t = length payload \<and>
           (\<forall>count offset bs. src_pread t count offset = Inr bs \<longrightarrow> bs = get_bytes offset count payload)
    else tar_open (Some src) = Inr src"
proof (cases "is_ustar h \<and> tar_chksum_ok h")
  case True
  let ?src = "local_file (h @ payload @ pad) fault"
  have "blob_source (tar_view ?src kBlock (length payload)) payload"
    using lf.tar_view_source [of kBlock "length payload" "h @ payload @ pad" fault] assms(1,2) by simp
  then show ?thesis
    using True assms tar_open_wrapped [of h fault "payload @ pad"]
    by (auto simp: tar_view_def Let_def dest: blob_source.pread_content)
next
  case False
  then show ?thesis
    using tar_open_plain [of "h @ payload @ pad" fault] assms(2) by (auto simp: Let_def)
qed

lemma map_upt_take: "b \<le> length h \<Longrightarrow> (\<And>i. i < b \<Longrightarrow> g i = f (h ! i)) \<Longrightarrow>
    map g [0..<b] = map f (take b h)"
  by (intro nth_equalityI) auto

lemma map_upt_drop: "(\<And>i. a \<le> i \<Longrightarrow> i < length h \<Longrightarrow> g i = f (h ! i)) \<Longrightarrow>
    map g [a..<length h] = map f (drop a h)"
  by (intro nth_equalityI) auto

lemma usum_split:
  assumes "length h = kBlock"
  shows "sum_list (map (\<lambda>i. unat (if in_chksum i then 0x20 else h ! i :: byte)) [0..<kBlock]) =
    sum_list (map unat (take 148 h)) + 256 + sum_list (map unat (drop 156 h))"
proof -
  let ?g = "\<lambda>i. unat (if in_chksum i then 0x20 else h ! i :: byte)"
  have split: "[0..<kBlock] = [0..<148] @ [148..<156] @ [156..<kBlock]"
    using upt_add_eq_append [of 0 148 "364"] upt_add_eq_append [of 148 156 "356"] by (simp add: kBlock_def)
  have a: "map ?g [0..<148] = map unat (take 148 h)"
    by (rule map_upt_take) (use assms in \<open>auto simp: in_chksum_def kChksumField_def kBlock_def\<close>)
  have b: "map ?g [148..<156] = [32, 32, 32, 32, 32, 32, 32, 32]"
    by (simp add: in_chksum_def kChksumField_def)
  have c: "map ?g [156..<kBlock] = map unat (drop 156 h)"
    unfolding assms [symmetric]
    by (rule map_upt_drop) (auto simp: in_chksum_def kChksumField_def)
  show ?thesis unfolding split by (simp only: map_append a b c sum_list.append) simp
qed

lemma sum_list_zeros [simp]: "sum_list (map unat (zeros n)) = 0"
  by (simp add: zeros_def sum_list_replicate)

definition sample_tar_header :: bytes where
  "sample_tar_header = zeros 124 @ [0x30, 0x33] @ zeros 22 @
     [0x30, 0x30, 0x31, 0x37, 0x36, 0x32, 0, 0x20] @ zeros 101 @
     [0x75, 0x73, 0x74, 0x61, 0x72, 0, 0x30, 0x30] @ zeros 247"

lemma sample_tar_header_ok:
  "length sample_tar_header = kBlock" "is_ustar sample_tar_header"
  "sample_tar_header ! kTypeflagField = 0" "parse_octal (drop kSizeField sample_tar_header) 12 = 3"
  by (simp_all add: sample_tar_header_def kBlock_def is_ustar_def get_bytes_def kMagicField_def
      kVersionField_def kTypeflagField_def kSizeField_def parse_octal_def sscanf_llo_def is_space_def
      is_octal_def octal_value_def nth_append) 

lemma sample_tar_header_chksum: "tar_chksum_ok sample_tar_header"
proof -
  have "parse_octal (drop kChksumField sample_tar_header) 8 = 1010"
    by (simp add: sample_tar_header_def kChksumField_def parse_octal_def sscanf_llo_def is_space_def
        is_octal_def octal_value_def)
  moreover have "sum_list (map unat (take 148 sample_tar_header)) + 256 +
      sum_list (map unat (drop 156 sample_tar_header)) = 1010"
    by (simp add: sample_tar_header_def)
  ultimately show ?thesis
    using usum_split [OF sample_tar_header_ok(1)] by (simp add: tar_chksum_ok_def Let_def)
qed

theorem tar_open_payload_witness:
  "is_ustar sample_tar_header \<and> tar_chksum_ok sample_tar_header \<and>
   (\<exists>t. tar_open (Some (local_file (sample_tar_header @ [1, 2, 3] @ zeros 509) (\<lambda>_ _. None))) = Inr t \<and>
      src_size t = 3 \<and> (\<forall>count offset bs. src_pread t count offset = Inr bs \<longrightarrow>
        bs = get_bytes offset count [1, 2, 3]))"
  using tar_open_payload [of sample_tar_header "[1, 2, 3]" "zeros 509" "\<lambda>_ _. None"]
    sample_tar_header_ok sample_tar_header_chksum
  by (simp add: U64_def kBlock_def kPaxHeader_def kPaxGlobalHeader_def Let_def numeral_3_eq_3)

end
