(* ===== verification/LsmtLayer.thy ===== *)
theory LsmtLayer
  imports LsmtFormat Segments BlobSource
begin

unbundle bit_operations_syntax

text \<open>
  \<open>LsmtLayer\<close> and \<open>WarpSource\<close> of \<open>src/format/lsmt.cpp\<close>: opening one sealed layer. The validation
  follows the code check by check. A thrown \<open>format_error\<close> is \<open>Inl EINVAL\<close>, a short or failed read
  of a region \<open>Inl EIO\<close>. Trailer fields are 64-bit words and are read with \<open>unat\<close> where the code
  does arithmetic that its own guards keep in range.
\<close>

section \<open>The two-source view of a warp layer\<close>

function warp_loop :: "BlobSource \<Rightarrow> BlobSource \<Rightarrow> nat \<Rightarrow> nat \<Rightarrow> nat \<Rightarrow> bytes \<Rightarrow> io" where
  "warp_loop metadata target base count offset out =
     (let dn = length out; pos = offset + dn in
      if dn \<ge> count then Inr out
      else if pos \<ge> base then
        (case src_pread target (count - dn) (pos - base) of Inl e \<Rightarrow> Inl e | Inr bs \<Rightarrow>
          if length bs \<noteq> count - dn then Inl EIO else Inr (out @ bs))
      else if pos \<ge> src_size metadata then
        warp_loop metadata target base count offset (out @ zeros (min (count - dn) (base - pos)))
      else
        (let n = min (count - dn) (src_size metadata - pos) in
         case src_pread metadata n pos of Inl e \<Rightarrow> Inl e | Inr bs \<Rightarrow>
           if length bs \<noteq> n then Inl EIO
           else warp_loop metadata target base count offset (out @ bs)))"
  by pat_completeness auto
termination
  by (relation "measure (\<lambda>(_, _, _, count, _, out). count - length out)") (auto simp: not_le)

declare warp_loop.simps [simp del]

definition warp_pread :: "BlobSource \<Rightarrow> BlobSource \<Rightarrow> nat \<Rightarrow> reader" where
  "warp_pread metadata target base count offset =
     (if offset \<ge> base + src_size target then Inr []
      else warp_loop metadata target base (min count (base + src_size target - offset)) offset [])"

definition warp_source :: "BlobSource \<Rightarrow> BlobSource \<Rightarrow> nat \<Rightarrow> BlobSource" where
  "warp_source metadata target base =
     \<lparr>src_size = base + src_size target, src_pread = warp_pread metadata target base\<rparr>"

locale two_sources = m: sized_source metadata mc + t: sized_source target tc
  for metadata mc target tc +
  fixes base :: nat
  assumes base: "length mc \<le> base"
begin

abbreviation combined :: bytes where
  "combined \<equiv> mc @ zeros (base - length mc) @ tc"

lemma combined_meta: "pos + n \<le> length mc \<Longrightarrow> get_bytes pos n combined = get_bytes pos n mc"
  by (simp add: get_bytes_def)

lemma combined_gap: "length mc \<le> pos \<Longrightarrow> pos + n \<le> base \<Longrightarrow> get_bytes pos n combined = zeros n"
  using base by (auto simp: get_bytes_def min_def)

lemma combined_target: "base \<le> pos \<Longrightarrow> get_bytes pos n combined = get_bytes (pos - base) n tc"
  using base by (simp add: get_bytes_def)

lemma grow_prefix:
  assumes "out = get_bytes offset (length out) c" "bs = get_bytes (offset + length out) (length bs) c"
  shows "out @ bs = get_bytes offset (length (out @ bs)) c"
  using assms get_bytes_append [of offset "length out" "length bs" c] by simp

lemma warp_loop_content:
  assumes "warp_loop metadata target base count offset out = Inr r"
    "out = get_bytes offset (length out) combined" "length out \<le> count"
  shows "r = get_bytes offset (length r) combined \<and> length r = count"
  using assms
proof (induction "count - length out" arbitrary: out rule: less_induct)
  case less
  let ?dn = "length out" and ?pos = "offset + length out"
  note step = less.prems(1) [unfolded warp_loop.simps [of _ _ _ _ _ out] Let_def]
  consider (stop) "?dn \<ge> count" | (target) "?dn < count" "base \<le> ?pos"
    | (gap) "?dn < count" "?pos < base" "src_size metadata \<le> ?pos"
    | (meta) "?dn < count" "?pos < base" "?pos < src_size metadata" by linarith
  then show ?case
  proof cases
    case stop
    then show ?thesis using step less.prems(2,3) by simp
  next
    case target
    with step obtain bs where bs: "src_pread target (count - ?dn) (?pos - base) = Inr bs"
      "length bs = count - ?dn" "r = out @ bs" by (auto split: sum.splits if_splits)
    have "bs = get_bytes ?pos (length bs) combined"
      using t.pread_content [OF bs(1)] bs(2) target(2) by (simp add: combined_target)
    then have "r = get_bytes offset (length r) combined"
      unfolding bs(3) by (rule grow_prefix [OF less.prems(2)])
    moreover have "length r = count" using bs target by simp
    ultimately show ?thesis by simp
  next
    case gap
    let ?n = "min (count - ?dn) (base - ?pos)"
    have "warp_loop metadata target base count offset (out @ zeros ?n) = Inr r"
      using step gap by simp
    moreover have "zeros ?n = get_bytes ?pos (length (zeros ?n)) combined"
      using gap m.size_content by (subst combined_gap) auto
    moreover have "count - length (out @ zeros ?n) < count - ?dn" "length (out @ zeros ?n) \<le> count"
      using gap by auto
    ultimately show ?thesis using less.hyps grow_prefix [OF less.prems(2)] by blast
  next
    case meta
    let ?n = "min (count - ?dn) (src_size metadata - ?pos)"
    from step meta obtain bs where bs: "src_pread metadata ?n ?pos = Inr bs" "length bs = ?n"
      "warp_loop metadata target base count offset (out @ bs) = Inr r"
      by (auto split: sum.splits if_splits)
    have "bs = get_bytes ?pos (length bs) combined"
      using m.pread_content [OF bs(1)] bs(2) meta m.size_content by (subst combined_meta) auto
    moreover have "count - length (out @ bs) < count - ?dn" "length (out @ bs) \<le> count"
      using meta bs(2) by auto
    ultimately show ?thesis using bs(3) less.hyps grow_prefix [OF less.prems(2)] by blast
  qed
qed

lemma warp_source_sized: "sized_source (warp_source metadata target base) combined"
proof
  fix count offset bs
  assume r: "src_pread (warp_source metadata target base) count offset = Inr bs"
  show "bs = get_bytes offset count combined"
  proof (cases "offset \<ge> base + src_size target")
    case True
    then show ?thesis using r base t.size_content
      by (simp add: warp_source_def warp_pread_def get_bytes_beyond)
  next
    case False
    have len: "length combined = base + src_size target" using base t.size_content by simp
    let ?n = "min count (length combined - offset)"
    have "warp_loop metadata target base ?n offset [] = Inr bs"
      unfolding len using r False by (simp add: warp_source_def warp_pread_def)
    from warp_loop_content [OF this] have "bs = get_bytes offset ?n combined"
      by (metis get_bytes_0 list.size(3) le0)
    then show ?thesis by (simp only: get_bytes_clamp)
  qed
next
  show "src_size (warp_source metadata target base) = length combined"
    using base t.size_content by (simp add: warp_source_def)
qed

end

section \<open>Opening a layer\<close>

record LsmtLayer =
  l_src :: BlobSource
  l_ht :: HeaderTrailer
  l_segments :: "segment_mapping list"

definition l_virtual_size :: "LsmtLayer \<Rightarrow> nat" where
  "l_virtual_size l = unat (ht_virtual_size (l_ht l))"

text \<open>A read that must be complete.\<close>

definition read_exact :: "BlobSource \<Rightarrow> nat \<Rightarrow> nat \<Rightarrow> bytes result" where
  "read_exact src n offset = (case src_pread src n offset of
     Inl _ \<Rightarrow> Inl EIO | Inr bs \<Rightarrow> if length bs \<noteq> n then Inl EIO else Inr bs)"

text \<open>The flag bits a Hybrid header or trailer may have.\<close>

definition hybrid_allowed :: "32 word" where
  "hybrid_allowed = push_bit kFlagShiftHeader 1 OR push_bit kFlagShiftType 1 OR
     push_bit kFlagShiftSealed 1 OR push_bit kFlagShiftHybridRw 1"

definition hybrid_layout_ok :: "HeaderTrailer \<Rightarrow> HeaderTrailer \<Rightarrow> bool" where
  "hybrid_layout_ok hht tht \<longleftrightarrow>
     ht_flags hht AND NOT hybrid_allowed = 0 \<and> ht_flags tht AND NOT hybrid_allowed = 0 \<and>
     ht_version hht = 1 \<and> ht_sub_version hht = 1 \<and> ht_version tht = 1 \<and> ht_sub_version tht = 1"

text \<open>The loop over the raw index: deleted entries are dropped, wire tags cleared unless the layer
  is a warp layer.\<close>

definition load_index :: "bool \<Rightarrow> nat \<Rightarrow> bytes \<Rightarrow> segment_mapping list" where
  "load_index warp n raw =
     map (\<lambda>s. if warp then s else s\<lparr>s_tag := 0\<rparr>)
       (filter (\<lambda>s. s_offset s \<noteq> kInvalidOffset)
         (map (\<lambda>i. load_segment_le (drop (i * kEncodedSize) raw)) [0..<n]))"

fun ordered :: "segment_mapping list \<Rightarrow> bool" where
  "ordered (a # b # v) \<longleftrightarrow> \<not> (seg_end a > s_offset b) \<and> ordered (b # v)"
| "ordered _ \<longleftrightarrow> True"

definition warp_base :: "nat \<Rightarrow> nat" where
  "warp_base file_size = (file_size + kAlignment - 1) div kAlignment * kAlignment"

definition min_tag :: "segment_mapping list \<Rightarrow> nat" where
  "min_tag v = foldl (\<lambda>t m. min t (s_tag m)) 255 v"

text \<open>The data-region check at the end of the loop body.\<close>

definition moffset_ok :: "bool \<Rightarrow> nat \<Rightarrow> segment_mapping \<Rightarrow> bool" where
  "moffset_ok hybrid moffset_end m =
     (if s_zeroed m
      then (hybrid \<and> s_moffset m = kMaxMoffset) \<or>
           (kDataStartSector \<le> s_moffset m \<and> s_moffset m \<le> moffset_end)
      else kDataStartSector \<le> s_moffset m \<and> s_moffset m < moffset_end \<and>
           kDataStartSector < seg_mend m \<and> seg_mend m \<le> moffset_end)"

definition logical_extent_ok :: "nat \<Rightarrow> segment_mapping \<Rightarrow> bool" where
  "logical_extent_ok vsize m \<longleftrightarrow>
     \<not> (s_length m = 0 \<or> vsize mod kAlignment \<noteq> 0 \<or> seg_end m > vsize div kAlignment)"

text \<open>One iteration of the validation loop; \<open>target\<close> is the size of the warp target and the base
  its payload is addressed from.\<close>

definition check_segment :: "bool \<Rightarrow> (nat \<times> nat) option \<Rightarrow> nat \<Rightarrow> nat \<Rightarrow> nat \<Rightarrow> segment_mapping
    \<Rightarrow> segment_mapping result" where
  "check_segment hybrid target mtag vsize moffset_end m =
     (if hybrid \<and> \<not> logical_extent_ok vsize m then Inl EINVAL
      else case target of
        None \<Rightarrow> if moffset_ok hybrid moffset_end m then Inr m else Inl EINVAL
      | Some (tsize, tbase) \<Rightarrow>
          let source_tag = s_tag m - mtag in
          if source_tag > 1 then Inl EINVAL
          else if \<not> logical_extent_ok vsize m \<or> seg_end m > kMaxOffset then Inl EINVAL
          else let m' = m\<lparr>s_tag := 0\<rparr> in
            if s_zeroed m' then Inr m'
            else if source_tag = 1 then
              (let sectors = tsize div kAlignment in
               if s_moffset m' > sectors \<or> s_length m' > sectors - s_moffset m' then Inl EINVAL
               else Inr (m'\<lparr>s_moffset := s_moffset m' + tbase div kAlignment\<rparr>))
            else if moffset_ok hybrid moffset_end m' then Inr m' else Inl EINVAL)"

fun check_segments :: "(segment_mapping \<Rightarrow> segment_mapping result) \<Rightarrow> segment_mapping list
    \<Rightarrow> segment_mapping list result" where
  "check_segments f [] = Inr []"
| "check_segments f (m # ms) =
     bindR (f m) (\<lambda>m'. bindR (check_segments f ms) (\<lambda>ms'. Inr (m' # ms')))"

text \<open>Checks of the warp layout; the result is the target's size and base.\<close>

definition warp_layout :: "nat \<Rightarrow> BlobSource option \<Rightarrow> nat \<Rightarrow> (nat \<times> nat) option result" where
  "warp_layout file_size target vsize = (case target of None \<Rightarrow> Inr None | Some t \<Rightarrow>
     if vsize mod kAlignment \<noteq> 0 then Inl EINVAL
     else if file_size > U64 - 1 - (kAlignment - 1) then Inl EINVAL
     else if src_size t > U64 - 1 - warp_base file_size then Inl EINVAL
     else Inr (Some (src_size t, warp_base file_size)))"

text \<open>The part of \<open>open_impl\<close> after the header and trailer are accepted.\<close>

definition load_layer :: "BlobSource \<Rightarrow> BlobSource option \<Rightarrow> bool \<Rightarrow> HeaderTrailer \<Rightarrow> LsmtLayer result" where
  "load_layer src target hybrid tht =
     (let file_size = src_size src;
          trailer_offset = file_size - kSpace;
          index_size = unat (ht_index_size tht);
          index_offset = unat (ht_index_offset tht);
          vsize = unat (ht_virtual_size tht);
          index_bytes = index_size * kEncodedSize
      in if index_size > kMaxRoIndexSize then Inl EINVAL
      else if index_offset < kSpace \<or> index_offset > trailer_offset \<or>
              index_bytes > trailer_offset - index_offset then Inl EINVAL
      else bindR (if index_bytes > 0 then read_exact src index_bytes index_offset else Inr []) (\<lambda>raw.
        let segments = load_index (\<not> Option.is_none target) index_size raw in
        if \<not> ordered segments then Inl EINVAL
        else bindR (warp_layout file_size target vsize) (\<lambda>tgt.
          bindR (check_segments
              (check_segment hybrid tgt (min_tag segments) vsize (index_offset div kAlignment)) segments)
            (\<lambda>segs. Inr \<lparr>
               l_src = (case target of None \<Rightarrow> src | Some t \<Rightarrow> warp_source src t (warp_base file_size)),
               l_ht = tht\<lparr>ht_index_size := of_nat (length segs)\<rparr>,
               l_segments = segs\<rparr>))))"

definition open_impl :: "BlobSource option \<Rightarrow> BlobSource option \<Rightarrow> LsmtLayer result" where
  "open_impl src_opt target = (case src_opt of None \<Rightarrow> Inl EINVAL | Some src \<Rightarrow>
     let file_size = src_size src in
     if file_size < kSpace * 2 then Inl EINVAL
     else bindR (read_exact src kSpace 0) (\<lambda>region.
       bindR (parse_ht region) (\<lambda>hht.
       if \<not> is_header hht then Inl EINVAL
       else if \<not> is_data_file hht then Inl EINVAL
       else bindR (read_exact src kSpace (file_size - kSpace)) (\<lambda>region.
         bindR (parse_ht region) (\<lambda>tht.
         if \<not> is_trailer tht \<or> \<not> is_data_file tht \<or> \<not> is_sealed tht then Inl EINVAL
         else let hybrid = get_flag_bit hht kFlagShiftHybridRw in
           if hybrid \<noteq> get_flag_bit tht kFlagShiftHybridRw then Inl EINVAL
           else if hybrid \<and> (\<not> Option.is_none target \<or> \<not> hybrid_layout_ok hht tht) then Inl EINVAL
           else load_layer src target hybrid tht)))))"

definition layer_open :: "BlobSource option \<Rightarrow> LsmtLayer result" where
  "layer_open src = open_impl src None"

definition layer_open_warp :: "BlobSource option \<Rightarrow> BlobSource option \<Rightarrow> LsmtLayer result" where
  "layer_open_warp metadata target =
     (if Option.is_none target then Inl EINVAL else open_impl metadata target)"

section \<open>What an accepted index satisfies\<close>

lemma ordered_sorted: "ordered v \<longleftrightarrow> sorted_wrt (\<lambda>a b. seg_end a \<le> s_offset b) v"
proof (induction v rule: ordered.induct)
  case (1 a b v)
  have "\<lbrakk>seg_end a \<le> s_offset b; \<forall>t \<in> set v. seg_end b \<le> s_offset t\<rbrakk> \<Longrightarrow>
      \<forall>t \<in> set v. seg_end a \<le> s_offset t"
    by (auto simp: seg_end_def)
  then show ?case using 1 by auto
qed auto

lemma check_segments_Inr:
  "check_segments f ms = Inr ms' \<longleftrightarrow> list_all2 (\<lambda>m m'. f m = Inr m') ms ms'"
  by (induction ms arbitrary: ms') (auto simp: list_all2_Cons1)

lemma check_segment_shape:
  assumes "check_segment hybrid tgt mtag vsize mend m = Inr m'"
  shows "s_offset m' = s_offset m" "s_length m' = s_length m" "s_zeroed m' = s_zeroed m"
    "tgt = None \<Longrightarrow> m' = m" "tgt \<noteq> None \<Longrightarrow> s_tag m' = 0"
    "hybrid \<or> tgt \<noteq> None \<Longrightarrow> logical_extent_ok vsize m'"
  using assms
  by (auto simp: check_segment_def Let_def logical_extent_ok_def seg_end_def
      split: if_splits option.splits)

lemma check_segments_set:
  assumes "check_segments f ms = Inr ms'" "m' \<in> set ms'"
  shows "\<exists>m \<in> set ms. f m = Inr m'"
  using assms by (induction ms arbitrary: ms') auto

lemma check_segments_sorted:
  assumes "check_segments (check_segment hybrid tgt mtag vsize mend) ms = Inr ms'" "ordered ms"
  shows "sorted_wrt (\<lambda>a b. seg_end a \<le> s_offset b) ms'"
proof -
  have "list_all2 (\<lambda>m m'. s_offset m' = s_offset m \<and> seg_end m' = seg_end m) ms ms'"
    using assms(1) unfolding check_segments_Inr
    by (rule list_all2_mono) (auto simp: seg_end_def check_segment_shape(1,2))
  then show ?thesis
    using assms(2) unfolding ordered_sorted sorted_wrt_iff_nth_less list_all2_conv_all_nth by auto
qed

lemma load_index_set:
  assumes "s \<in> set (load_index warp n raw)"
  shows "seg_fits s" "s_offset s \<noteq> kInvalidOffset" "\<not> warp \<Longrightarrow> s_tag s = 0"
  using assms load_segment_fits by (auto simp: load_index_def seg_fits_def)

lemma min_tag_le: "m \<in> set v \<Longrightarrow> min_tag v \<le> s_tag m"
proof -
  have "foldl (\<lambda>t m. min t (s_tag m)) a v \<le> a \<and>
      (m \<in> set v \<longrightarrow> foldl (\<lambda>t m. min t (s_tag m)) a v \<le> s_tag m)" for a
    by (induction v arbitrary: a) (auto, (meson min.cobounded1 min.cobounded2 order_trans)+)
  then show "m \<in> set v \<Longrightarrow> min_tag v \<le> s_tag m" by (simp add: min_tag_def)
qed

text \<open>Where a mapping's payload lies.\<close>

definition payload_within :: "nat \<Rightarrow> segment_mapping \<Rightarrow> bool" where
  "payload_within n s \<longleftrightarrow> s_zeroed s \<or> seg_mend s * kAlignment \<le> n"

lemma moffset_ok_within:
  "moffset_ok hybrid (index_offset div kAlignment) m \<Longrightarrow> payload_within index_offset m"
  by (auto simp: moffset_ok_def payload_within_def kAlignment_def split: if_splits)

lemma warp_base_props: "kAlignment dvd warp_base n" "n \<le> warp_base n"
  by (auto simp: warp_base_def kAlignment_def)

lemma check_segment_payload:
  assumes "check_segment hybrid tgt mtag vsize (index_offset div kAlignment) m = Inr m'"
  shows "(case tgt of None \<Rightarrow> payload_within index_offset m'
    | Some (tsize, tbase) \<Rightarrow> kAlignment dvd tbase \<longrightarrow> index_offset \<le> tbase \<longrightarrow> payload_within (tbase + tsize) m')"
proof (cases tgt)
  case None
  then show ?thesis using assms
    by (auto simp: check_segment_def dest: moffset_ok_within split: if_splits)
next
  case (Some p)
  obtain tsize tbase where p: "p = (tsize, tbase)" by force
  have "payload_within (tbase + tsize) m'" if dvd: "kAlignment dvd tbase" and le: "index_offset \<le> tbase"
  proof -
    have "payload_within index_offset m' \<or> s_zeroed m' \<or>
        s_moffset m' + s_length m' \<le> tsize div kAlignment + tbase div kAlignment"
      using assms unfolding Some p
      by (auto simp: check_segment_def Let_def dest: moffset_ok_within split: if_splits)
    moreover have "s_moffset m' + s_length m' \<le> tsize div kAlignment + tbase div kAlignment \<Longrightarrow>
        (s_moffset m' + s_length m') * kAlignment \<le> tbase + tsize"
      using dvd by (auto simp: kAlignment_def)
    ultimately show ?thesis using le by (auto simp: payload_within_def seg_mend_def)
  qed
  then show ?thesis by (simp add: Some p)
qed

lemma read_exact_Inr: "read_exact src n off = Inr bs \<longleftrightarrow> src_pread src n off = Inr bs \<and> length bs = n"
  by (auto simp: read_exact_def split: sum.splits)

lemma load_layer_facts:
  assumes "load_layer src target hybrid tht = Inr l"
  shows "sorted_wrt (\<lambda>a b. seg_end a \<le> s_offset b) (l_segments l)"
    and "\<forall>s \<in> set (l_segments l). s_tag s = 0 \<and> s_offset s < kInvalidOffset \<and> s_length s \<le> kMaxLength \<and>
      (hybrid \<or> \<not> Option.is_none target \<longrightarrow> logical_extent_ok (l_virtual_size l) s)"
    and "l_virtual_size l = unat (ht_virtual_size tht)"
proof -
  let ?io = "unat (ht_index_offset tht)" and ?vs = "unat (ht_virtual_size tht)"
  from assms obtain raw tgt segments where
    segments: "segments = load_index (\<not> Option.is_none target) (unat (ht_index_size tht)) raw"
    "ordered segments"
    and tgt: "warp_layout (src_size src) target ?vs = Inr tgt"
    and segs: "check_segments (check_segment hybrid tgt (min_tag segments) ?vs (?io div kAlignment)) segments
        = Inr (l_segments l)"
    and l: "l_ht l = tht\<lparr>ht_index_size := of_nat (length (l_segments l))\<rparr>"
    by (auto simp: load_layer_def Let_def split: if_splits)
  show vs: "l_virtual_size l = ?vs" by (simp add: l_virtual_size_def l)
  show "sorted_wrt (\<lambda>a b. seg_end a \<le> s_offset b) (l_segments l)"
    by (rule check_segments_sorted [OF segs segments(2)])
  have none: "Option.is_none target \<longleftrightarrow> tgt = None"
    using tgt by (auto simp: warp_layout_def split: option.splits if_splits)
  show "\<forall>s \<in> set (l_segments l). s_tag s = 0 \<and> s_offset s < kInvalidOffset \<and> s_length s \<le> kMaxLength \<and>
      (hybrid \<or> \<not> Option.is_none target \<longrightarrow> logical_extent_ok (l_virtual_size l) s)"
  proof
    fix s assume "s \<in> set (l_segments l)"
    from check_segments_set [OF segs this] obtain m where m: "m \<in> set segments"
      "check_segment hybrid tgt (min_tag segments) ?vs (?io div kAlignment) m = Inr s" by blast
    note raw = load_index_set [OF m(1) [unfolded segments(1)]]
    show "s_tag s = 0 \<and> s_offset s < kInvalidOffset \<and> s_length s \<le> kMaxLength \<and>
      (hybrid \<or> \<not> Option.is_none target \<longrightarrow> logical_extent_ok (l_virtual_size l) s)"
      using check_segment_shape [OF m(2)] raw none vs
      by (auto simp: seg_fits_def kInvalidOffset_def)
  qed
qed

lemma load_layer_payload:
  assumes "load_layer src target hybrid tht = Inr l" "s \<in> set (l_segments l)"
  shows "payload_within (src_size (l_src l)) s"
    and "Option.is_none target \<Longrightarrow> payload_within (src_size src - kSpace) s"
    and "Option.is_none target \<Longrightarrow> \<not> s_zeroed s \<Longrightarrow> kDataStartSector \<le> s_moffset s"
proof -
  let ?io = "unat (ht_index_offset tht)" and ?vs = "unat (ht_virtual_size tht)"
  from assms(1) obtain tgt segments where
    io: "?io \<le> src_size src - kSpace"
    and tgt: "warp_layout (src_size src) target ?vs = Inr tgt"
    and segs: "check_segments (check_segment hybrid tgt (min_tag segments) ?vs (?io div kAlignment)) segments
        = Inr (l_segments l)"
    and l: "l_src l = (case target of None \<Rightarrow> src | Some t \<Rightarrow> warp_source src t (warp_base (src_size src)))"
    by (auto simp: load_layer_def Let_def split: if_splits)
  from check_segments_set [OF segs assms(2)] obtain m where
    m: "check_segment hybrid tgt (min_tag segments) ?vs (?io div kAlignment) m = Inr s" by blast
  note p = check_segment_payload [OF m]
  have mono: "payload_within a s \<Longrightarrow> a \<le> b \<Longrightarrow> payload_within b s" for a b
    by (auto simp: payload_within_def)
  have io': "?io \<le> src_size src" using io by simp
  show "payload_within (src_size (l_src l)) s"
    using p tgt mono [OF _ io'] warp_base_props [of "src_size src"] io'
    by (auto simp: l warp_layout_def warp_source_def split: option.splits if_splits)
  show "Option.is_none target \<Longrightarrow> payload_within (src_size src - kSpace) s"
    using p tgt mono [OF _ io] by (auto simp: warp_layout_def Option.is_none_def)
  show "Option.is_none target \<Longrightarrow> \<not> s_zeroed s \<Longrightarrow> kDataStartSector \<le> s_moffset s"
    using m tgt by (auto simp: warp_layout_def Option.is_none_def check_segment_def moffset_ok_def
        split: if_splits)
qed

lemma open_impl_load:
  assumes "open_impl (Some src) target = Inr l"
  obtains hht tht where "load_layer src target (get_flag_bit tht kFlagShiftHybridRw) tht = Inr l"
    "kSpace * 2 \<le> src_size src"
    "read_exact src kSpace 0 = Inr hht" "\<exists>ht. parse_ht hht = Inr ht \<and> is_header ht \<and> is_data_file ht"
    "is_trailer tht" "is_data_file tht" "is_sealed tht"
  using assms by (auto simp: open_impl_def Let_def split: if_splits)

definition is_hybrid :: "LsmtLayer \<Rightarrow> bool" where
  "is_hybrid l = get_flag_bit (l_ht l) kFlagShiftHybridRw"

lemma load_layer_flags: "load_layer src target hybrid tht = Inr l \<Longrightarrow> ht_flags (l_ht l) = ht_flags tht"
  by (auto simp: load_layer_def Let_def split: if_splits)

lemma layer_wf:
  assumes "sorted_wrt (\<lambda>a b. seg_end a \<le> s_offset b) v" "\<forall>s \<in> set v. s_length s \<noteq> 0"
  shows "wf_segs v"
  using assms by (auto simp: wf_segs_def)

lemma logical_extent_bytes: "logical_extent_ok vsize s \<Longrightarrow> seg_end s * kAlignment \<le> vsize"
  by (auto simp: logical_extent_ok_def kAlignment_def not_less)

section \<open>Files that open\<close>

text \<open>The layout of a sealed layer file: header, payload, index, padding, trailer.\<close>

definition sealed_file :: "HeaderTrailer \<Rightarrow> bytes \<Rightarrow> segment_mapping list \<Rightarrow> bytes \<Rightarrow> HeaderTrailer \<Rightarrow> bytes" where
  "sealed_file hht data segs pad tht =
     ht_fields hht @ data @ concat (map store_segment_le segs) @ pad @ ht_fields tht"

definition ht_ok :: "HeaderTrailer \<Rightarrow> bool" where
  "ht_ok ht \<longleftrightarrow> ht_strings_ok ht \<and> ht_cstrs_ok ht \<and> ht_size ht = of_nat kHeaderSize"

lemma length_store_segments: "length (concat (map store_segment_le segs)) = length segs * kEncodedSize"
  by (induction segs) (simp_all add: length_store_segment kEncodedSize_def)

lemma load_store_nth:
  assumes "i < length segs" "seg_fits (segs ! i)"
  shows "load_segment_le (drop (i * kEncodedSize) (concat (map store_segment_le segs))) = segs ! i"
  using assms
proof (induction segs arbitrary: i)
  case (Cons s segs)
  then show ?case
    by (cases i) (simp_all add: load_store_segment_append kEncodedSize_def length_store_segment)
qed simp

lemma load_index_store:
  assumes "\<forall>s \<in> set segs. seg_fits s \<and> s_offset s \<noteq> kInvalidOffset"
  shows "load_index warp (length segs) (concat (map store_segment_le segs)) =
    map (\<lambda>s. if warp then s else s\<lparr>s_tag := 0\<rparr>) segs"
proof -
  have "map (\<lambda>i. load_segment_le (drop (i * kEncodedSize) (concat (map store_segment_le segs)))) [0..<length segs]
      = map ((!) segs) [0..<length segs]"
    using assms by (intro map_cong refl load_store_nth) auto
  then have raw: "map (\<lambda>i. load_segment_le (drop (i * kEncodedSize) (concat (map store_segment_le segs)))) [0..<length segs]
      = segs" by (simp add: map_nth)
  show ?thesis using assms unfolding load_index_def raw by simp
qed

lemma read_exact_ok:
  assumes "\<And>n k. fault n k = None" "off + n \<le> length f"
  shows "read_exact (local_file f fault) n off = Inr (get_bytes off n f)"
  using assms by (simp add: read_exact_def local_pread_succeeds length_get_bytes)

lemma sealed_file_regions:
  fixes hht tht :: HeaderTrailer and data pad :: bytes and segs :: "segment_mapping list"
  assumes "ht_strings_ok hht" "ht_strings_ok tht"
  defines "f \<equiv> sealed_file hht data segs pad tht"
  shows "get_bytes 0 kSpace f = ht_fields hht"
    "get_bytes (length f - kSpace) kSpace f = ht_fields tht"
    "get_bytes (kSpace + length data) (length segs * kEncodedSize) f = concat (map store_segment_le segs)"
    "length f = kSpace + length data + length segs * kEncodedSize + length pad + kSpace"
  unfolding f_def using length_ht_fields [OF assms(1)] length_ht_fields [OF assms(2)]
  by (simp_all add: sealed_file_def get_bytes_def length_store_segments)

lemma open_sealed_file:
  assumes ok: "ht_ok hht" "is_header hht" "is_data_file hht"
      "ht_ok tht" "is_trailer tht" "is_data_file tht" "is_sealed tht"
      "\<not> get_flag_bit hht kFlagShiftHybridRw" "\<not> get_flag_bit tht kFlagShiftHybridRw"
    and index: "unat (ht_index_offset tht) = kSpace + length data" "unat (ht_index_size tht) = length segs"
      "length segs \<le> kMaxRoIndexSize"
      "\<forall>s \<in> set segs. seg_fits s \<and> s_offset s \<noteq> kInvalidOffset" "ordered segs"
    and io: "\<And>n k. fault n k = None"
    and warp: "warp_layout (length (sealed_file hht data segs pad tht)) target (unat (ht_virtual_size tht)) = Inr tgt"
    and segs': "check_segments (check_segment False tgt
        (min_tag (map (\<lambda>s. if target \<noteq> None then s else s\<lparr>s_tag := 0\<rparr>) segs))
        (unat (ht_virtual_size tht)) ((kSpace + length data) div kAlignment))
        (map (\<lambda>s. if target \<noteq> None then s else s\<lparr>s_tag := 0\<rparr>) segs) = Inr segs'"
  shows "\<exists>l. open_impl (Some (local_file (sealed_file hht data segs pad tht) fault)) target = Inr l \<and>
    l_segments l = segs' \<and> l_ht l = tht\<lparr>ht_index_size := of_nat (length segs')\<rparr> \<and>
    l_src l = (case target of None \<Rightarrow> local_file (sealed_file hht data segs pad tht) fault
      | Some t \<Rightarrow> warp_source (local_file (sealed_file hht data segs pad tht) fault) t
                    (warp_base (length (sealed_file hht data segs pad tht))))"
proof -
  let ?f = "sealed_file hht data segs pad tht" and ?src = "local_file (sealed_file hht data segs pad tht) fault"
  let ?segs = "map (\<lambda>s. if target \<noteq> None then s else s\<lparr>s_tag := 0\<rparr>) segs"
  note r = sealed_file_regions [of hht tht data segs pad]
  have size: "src_size ?src = length ?f" by (simp add: local_file_def)
  have regions: "read_exact ?src kSpace 0 = Inr (ht_fields hht)"
    "read_exact ?src kSpace (length ?f - kSpace) = Inr (ht_fields tht)"
    "length segs * kEncodedSize > 0 \<Longrightarrow> read_exact ?src (length segs * kEncodedSize) (kSpace + length data) =
       Inr (concat (map store_segment_le segs))"
    using ok r io by (simp_all add: read_exact_ok ht_ok_def)
  have parses: "parse_ht (ht_fields hht) = Inr hht" "parse_ht (ht_fields tht) = Inr tht"
    using ok by (simp_all add: ht_ok_def parse_serialize_ht)
  have ord: "ordered ?segs"
    using index(5) by (cases target) (simp_all add: ordered_sorted sorted_wrt_map seg_end_def)
  have none: "\<not> Option.is_none target \<longleftrightarrow> target \<noteq> None" by (simp add: Option.is_none_def)
  have raw: "(if length segs * kEncodedSize > 0
      then read_exact ?src (length segs * kEncodedSize) (kSpace + length data) else Inr []) =
      Inr (concat (map store_segment_le segs))"
    using regions(3) by (auto simp: kEncodedSize_def)
  have "load_layer ?src target False tht = Inr \<lparr>
      l_src = (case target of None \<Rightarrow> ?src | Some t \<Rightarrow> warp_source ?src t (warp_base (length ?f))),
      l_ht = tht\<lparr>ht_index_size := of_nat (length segs')\<rparr>, l_segments = segs'\<rparr>"
    using index ord warp segs' r(4) ok raw
    unfolding load_layer_def Let_def size index(1,2) none load_index_store [OF index(4)]
    by (simp add: load_index_store [OF index(4)] ht_ok_def)
  moreover have "open_impl (Some ?src) target = load_layer ?src target False tht"
    using ok regions(1,2) parses r(4) by (simp add: open_impl_def Let_def size ht_ok_def)
  ultimately show ?thesis by simp
qed

text \<open>A small layer: one data sector, a deletion of the next one, payload in its own file or, as a warp
  layer, a second data sector in the target.\<close>

definition sample_header :: HeaderTrailer where
  "sample_header = default_ht\<lparr>ht_flags := 3, ht_virtual_size := 2048\<rparr>"

definition sample_trailer :: "nat \<Rightarrow> HeaderTrailer" where
  "sample_trailer n = default_ht\<lparr>ht_flags := 6, ht_index_offset := 4608, ht_index_size := of_nat n,
     ht_virtual_size := 2048\<rparr>"

definition sample_segs :: "segment_mapping list" where
  "sample_segs = [\<lparr>s_offset = 0, s_length = 1, s_moffset = 8, s_zeroed = False, s_tag = 0\<rparr>,
     \<lparr>s_offset = 1, s_length = 1, s_moffset = 9, s_zeroed = True, s_tag = 0\<rparr>]"

definition sample_warp_segs :: "segment_mapping list" where
  "sample_warp_segs = [\<lparr>s_offset = 0, s_length = 1, s_moffset = 8, s_zeroed = False, s_tag = 4\<rparr>,
     \<lparr>s_offset = 2, s_length = 1, s_moffset = 1, s_zeroed = False, s_tag = 5\<rparr>]"

definition sample_layer :: bytes where
  "sample_layer = sealed_file sample_header (replicate 512 7) sample_segs [] (sample_trailer 2)"

definition sample_warp_layer :: bytes where
  "sample_warp_layer = sealed_file sample_header (replicate 512 7) sample_warp_segs [] (sample_trailer 2)"

lemma sample_hts:
  "ht_ok sample_header" "is_header sample_header" "is_data_file sample_header"
  "ht_ok (sample_trailer n)" "is_trailer (sample_trailer n)" "is_data_file (sample_trailer n)"
  "is_sealed (sample_trailer n)"
  "\<not> get_flag_bit sample_header kFlagShiftHybridRw" "\<not> get_flag_bit (sample_trailer n) kFlagShiftHybridRw"
  by (simp_all add: sample_header_def sample_trailer_def ht_ok_def ht_strings_ok_def ht_cstrs_ok_def
      cstr_ok_def default_ht_def is_header_def is_trailer_def is_data_file_def is_sealed_def
      get_flag_bit_def flag_shifts)

lemmas sample_defs = sample_segs_def sample_warp_segs_def sample_trailer_def default_ht_def
  kSpace_def kMaxRoIndexSize_def seg_fits_def kInvalidOffset_def kMaxOffset_def
  kMaxLength_def kMaxMoffset_def seg_end_def seg_mend_def check_segment_def moffset_ok_def
  kDataStartSector_def kAlignment_def

lemma sample_layer_opens:
  "\<exists>l. layer_open (Some (local_file sample_layer (\<lambda>_ _. None))) = Inr l \<and> l_segments l = sample_segs"
  using open_sealed_file [OF sample_hts, of 2 "replicate 512 7" sample_segs "\<lambda>_ _. None" "[]" None None sample_segs]
  by (auto simp: layer_open_def sample_layer_def warp_layout_def sample_defs)

lemma sample_warp_layer_opens:
  "\<exists>l. layer_open_warp (Some (local_file sample_warp_layer (\<lambda>_ _. None)))
      (Some (local_file (replicate 1024 9) (\<lambda>_ _. None))) = Inr l \<and>
    map s_moffset (l_segments l) = [8, 19]"
proof -
  have len: "length sample_warp_layer = 8736"
    using sealed_file_regions(4) [of sample_header "sample_trailer 2"] sample_hts
    by (simp add: sample_warp_layer_def ht_ok_def kSpace_def kEncodedSize_def sample_warp_segs_def)
  have base: "warp_base 8736 = 9216" by (simp add: warp_base_def kAlignment_def)
  show ?thesis
    using open_sealed_file [OF sample_hts, of 2 "replicate 512 7" sample_warp_segs "\<lambda>_ _. None" "[]"
        "Some (local_file (replicate 1024 9) (\<lambda>_ _. None))" "Some (1024, 9216)"
        "[(sample_warp_segs ! 0)\<lparr>s_tag := 0\<rparr>, (sample_warp_segs ! 1)\<lparr>s_tag := 0, s_moffset := 19\<rparr>]"]
    unfolding sample_warp_layer_def [symmetric] len
    by (auto simp: layer_open_warp_def warp_layout_def base U64_def min_tag_def logical_extent_ok_def
        local_file_def sample_defs)
qed

interpretation wf2: two_sources "local_file f fault" f "local_file t fault'" t "warp_base (length f)"
  for f fault t fault'
  by unfold_locales (rule warp_base_props)

interpretation wl: sized_source "warp_source (local_file f fault) (local_file t fault') (warp_base (length f))"
    "f @ zeros (warp_base (length f) - length f) @ t" for f fault t fault'
  by (rule wf2.warp_source_sized)

text \<open>C14: What \<open>LsmtLayer::open\<close> guarantees of every index it accepts, whatever bytes the layer
  file holds: the mappings are sorted and disjoint, carry tag 0 and no deletion mark, and the
  payload of every data mapping lies inside the file before its trailer. A Hybrid layer's index
  has in addition no empty mapping and stays inside the virtual size.\<close>

theorem layer_open_validates:
  assumes "layer_open (Some (local_file f fault)) = Inr l"
  shows "sorted_wrt (\<lambda>a b. seg_end a \<le> s_offset b) (l_segments l) \<and>
    (\<forall>s \<in> set (l_segments l). s_tag s = 0 \<and> s_offset s < kInvalidOffset \<and> s_length s \<le> kMaxLength \<and>
       (s_zeroed s \<or> kDataStartSector \<le> s_moffset s \<and> seg_mend s * kAlignment \<le> length f - kSpace)) \<and>
    (is_hybrid l \<longrightarrow> wf_segs (l_segments l) \<and>
       (\<forall>s \<in> set (l_segments l). seg_end s * kAlignment \<le> l_virtual_size l))"
proof -
  obtain tht where ll: "load_layer (local_file f fault) None (get_flag_bit tht kFlagShiftHybridRw) tht = Inr l"
    using assms unfolding layer_open_def by (rule open_impl_load)
  have h: "is_hybrid l = get_flag_bit tht kFlagShiftHybridRw"
    by (simp add: is_hybrid_def get_flag_bit_def load_layer_flags [OF ll])
  note facts = load_layer_facts [OF ll]
  have "s_zeroed s \<or> kDataStartSector \<le> s_moffset s \<and> seg_mend s * kAlignment \<le> length f - kSpace"
    if "s \<in> set (l_segments l)" for s
    using load_layer_payload(2,3) [OF ll that] by (auto simp: payload_within_def local_file_def)
  moreover have "wf_segs (l_segments l)" if "is_hybrid l"
    using facts(1,2) that by (intro layer_wf) (auto simp: h logical_extent_ok_def)
  moreover have "seg_end s * kAlignment \<le> l_virtual_size l" if "is_hybrid l" "s \<in> set (l_segments l)" for s
    using facts(2) that by (intro logical_extent_bytes) (auto simp: h)
  ultimately show ?thesis using facts(1,2) by blast
qed

theorem layer_open_validates_witness:
  "\<exists>l. layer_open (Some (local_file sample_layer (\<lambda>_ _. None))) = Inr l \<and> l_segments l = sample_segs \<and>
     sorted_wrt (\<lambda>a b. seg_end a \<le> s_offset b) (l_segments l)"
  using sample_layer_opens layer_open_validates [of sample_layer "\<lambda>_ _. None"] by blast

text \<open>C21: The same for a warp layer, whose mappings may point into the metadata file or into the
  target. After translation every data mapping lies inside the combined source, whose bytes are
  the metadata file, zero padding to a sector and the target; so a successful read of an accepted
  mapping is complete and returns those bytes.\<close>

theorem layer_open_warp_validates:
  assumes "layer_open_warp (Some (local_file f fault)) (Some (local_file t fault')) = Inr l"
  shows "wf_segs (l_segments l) \<and>
    (\<forall>s \<in> set (l_segments l). s_tag s = 0 \<and> seg_end s * kAlignment \<le> l_virtual_size l) \<and>
    (\<forall>s \<in> set (l_segments l). \<forall>bs. \<not> s_zeroed s \<longrightarrow>
       src_pread (l_src l) (s_length s * kAlignment) (s_moffset s * kAlignment) = Inr bs \<longrightarrow>
       bs = get_bytes (s_moffset s * kAlignment) (s_length s * kAlignment)
              (f @ zeros (warp_base (length f) - length f) @ t) \<and>
       length bs = s_length s * kAlignment)"
proof -
  obtain tht where ll: "load_layer (local_file f fault) (Some (local_file t fault'))
      (get_flag_bit tht kFlagShiftHybridRw) tht = Inr l"
    using assms unfolding layer_open_warp_def by (auto elim: open_impl_load)
  note facts = load_layer_facts [OF ll]
  have src: "l_src l = warp_source (local_file f fault) (local_file t fault') (warp_base (length f))"
    using ll by (auto simp: load_layer_def Let_def local_file_def split: if_splits)
  have "wf_segs (l_segments l)"
    using facts(1,2) by (intro layer_wf) (auto simp: logical_extent_ok_def)
  moreover have "length bs = s_length s * kAlignment"
    if "s \<in> set (l_segments l)" "\<not> s_zeroed s"
      "src_pread (l_src l) (s_length s * kAlignment) (s_moffset s * kAlignment) = Inr bs" for s bs
    using load_layer_payload(1) [OF ll that(1)] that(2) wl.pread_exact [OF that(3) [unfolded src]]
    by (auto simp: src payload_within_def seg_mend_def add_mult_distrib)
  ultimately show ?thesis
    using facts(2) logical_extent_bytes wl.pread_content by (auto simp: src)
qed

theorem layer_open_warp_validates_witness:
  "\<exists>l. layer_open_warp (Some (local_file sample_warp_layer (\<lambda>_ _. None)))
      (Some (local_file (replicate 1024 9) (\<lambda>_ _. None))) = Inr l \<and>
    map s_moffset (l_segments l) = [8, 19] \<and> wf_segs (l_segments l)"
proof -
  obtain l where l: "layer_open_warp (Some (local_file sample_warp_layer (\<lambda>_ _. None)))
      (Some (local_file (replicate 1024 9) (\<lambda>_ _. None))) = Inr l" "map s_moffset (l_segments l) = [8, 19]"
    using sample_warp_layer_opens by (elim exE conjE)
  have "wf_segs (l_segments l)" by (rule layer_open_warp_validates [OF l(1), THEN conjunct1])
  then show ?thesis by (intro exI [of _ l] conjI l)
qed

end
