(* ===== verification/MergedLsmt.thy ===== *)
theory MergedLsmt
  imports LsmtMerge LsmtLayer
begin

text \<open>
  \<open>MergedLsmt\<close> (\<open>src/format/lsmt.cpp\<close>): the merged read-only view of a layer stack. \<open>merged_open\<close>
  is \<open>MergedLsmt::open\<close> with the lookup directory of large indexes, \<open>merged_pread\<close> the positional
  read. The read receives the caller's buffer, since the code writes only the sectors it serves.
  The specification is the stack itself: \<open>image_bytes\<close> takes each sector from the topmost layer
  that maps it.
\<close>

record MergedLsmt =
  m_layers :: "LsmtLayer list"
  m_index :: "segment_mapping list"
  m_lookup_ends :: "nat list"
  m_lookup_stride :: nat
  m_vsize :: nat

definition kMaxDirectory :: nat where "kMaxDirectory = 4096"

definition lookup_stride :: "nat \<Rightarrow> nat" where
  "lookup_stride sz = max 64 (sz div kMaxDirectory + (if sz mod kMaxDirectory \<noteq> 0 then 1 else 0))"

function directory_loop :: "segment_mapping list \<Rightarrow> nat \<Rightarrow> nat \<Rightarrow> nat list" where
  "directory_loop index stride from =
     (if stride = 0 \<or> from \<ge> length index then []
      else seg_end (index ! (from + min stride (length index - from) - 1))
           # directory_loop index stride (from + stride))"
  by pat_completeness auto
termination by (relation "measure (\<lambda>(index, stride, from). length index - from)") auto

declare directory_loop.simps [simp del]

definition stack_vsize :: "LsmtLayer list \<Rightarrow> nat" where
  "stack_vsize layers_bottom_up =
     (case filter (\<lambda>v. v \<noteq> 0) (map l_virtual_size (rev layers_bottom_up)) of [] \<Rightarrow> 0 | v # _ \<Rightarrow> v)"

definition merged_open :: "LsmtLayer list \<Rightarrow> MergedLsmt result" where
  "merged_open layers_bottom_up =
     (if layers_bottom_up = [] then Inl EINVAL
      else if length layers_bottom_up > kMaxStackLayers then Inl EINVAL
      else let vsize = stack_vsize layers_bottom_up; layers = rev layers_bottom_up in
        if vsize = 0 then Inl EINVAL
        else bindR (merge_indexes (map l_segments layers) []) (\<lambda>index.
          if length index \<ge> 65536
          then let stride = lookup_stride (length index) in
            Inr \<lparr>m_layers = layers, m_index = index, m_lookup_ends = directory_loop index stride 0,
                 m_lookup_stride = stride, m_vsize = vsize\<rparr>
          else Inr \<lparr>m_layers = layers, m_index = index, m_lookup_ends = [], m_lookup_stride = 0,
                    m_vsize = vsize\<rparr>))"

text \<open>The iterator the read starts from, as the rest of the index behind it.\<close>

definition find_first :: "MergedLsmt \<Rightarrow> nat \<Rightarrow> segment_mapping list" where
  "find_first m start_sec =
     (if m_lookup_ends m \<noteq> [] then
        (let group = length (m_lookup_ends m) - length (upper_bound id start_sec (m_lookup_ends m));
             begin' = min (group * m_lookup_stride m) (length (m_index m));
             n = min (m_lookup_stride m) (length (m_index m) - begin')
         in upper_bound seg_end start_sec (take n (drop begin' (m_index m))) @ drop (begin' + n) (m_index m))
      else upper_bound seg_end start_sec (m_index m))"

text \<open>One piece of payload: a short read is retried once for the rest, and what is still missing
  is zero-filled.\<close>

definition read_piece :: "BlobSource \<Rightarrow> nat \<Rightarrow> nat \<Rightarrow> io" where
  "read_piece src piece_bytes data_off =
     bindR (src_pread src piece_bytes data_off) (\<lambda>bs.
       if length bs < piece_bytes then
         (let bs2 = (case src_pread src (piece_bytes - length bs) (data_off + length bs) of
                       Inl _ \<Rightarrow> [] | Inr bs2 \<Rightarrow> bs2)
          in Inr (bs @ bs2 @ zeros (piece_bytes - (length bs2 + length bs))))
       else Inr bs)"

function pread_loop :: "MergedLsmt \<Rightarrow> nat \<Rightarrow> nat \<Rightarrow> segment_mapping list \<Rightarrow> bytes \<Rightarrow> io" where
  "pread_loop m end_sec cur it out =
     (if cur \<ge> end_sec then Inr out
      else if it = [] \<or> s_offset (hd it) \<ge> end_sec then Inr (out @ zeros ((end_sec - cur) * kAlignment))
      else if s_offset (hd it) > cur then
        (let h = min (s_offset (hd it)) end_sec
         in pread_loop m end_sec h it (out @ zeros ((h - cur) * kAlignment)))
      else
        (let s = hd it;
             seg_from = max (s_offset s) cur;
             seg_to = min (seg_end s) end_sec;
             piece_bytes = (seg_to - seg_from) * kAlignment
         in bindR (if s_zeroed s then Inr (zeros piece_bytes)
                   else read_piece (l_src (m_layers m ! s_tag s)) piece_bytes
                          ((s_moffset s + (seg_from - s_offset s)) * kAlignment))
              (\<lambda>piece. pread_loop m end_sec seg_to (if seg_end s \<le> seg_to then tl it else it) (out @ piece))))"
  by pat_completeness auto
termination
  by (relation "measures [\<lambda>(m, end_sec, cur, it, out). length it, \<lambda>(m, end_sec, cur, it, out). end_sec - cur]")
    (auto simp: min_def split: if_splits)

declare pread_loop.simps [simp del]

definition merged_pread :: "MergedLsmt \<Rightarrow> bytes \<Rightarrow> reader" where
  "merged_pread m buf count offset =
     (if offset mod kAlignment \<noteq> 0 \<or> count mod kAlignment \<noteq> 0 then Inl EINVAL
      else if offset \<ge> m_vsize m then Inr []
      else let count = (if count > m_vsize m - offset then m_vsize m - offset else count) in
        if count = 0 then Inr []
        else let start_sec = offset div kAlignment; end_sec = (offset + count) div kAlignment in
          bindR (pread_loop m end_sec start_sec (find_first m start_sec) [])
            (\<lambda>out. Inr (take count (put_bytes 0 out buf))))"

section \<open>Specification\<close>

text \<open>The bytes of a file from \<open>off\<close> on, with zeros behind its end.\<close>

definition padded :: "nat \<Rightarrow> nat \<Rightarrow> bytes \<Rightarrow> bytes" where
  "padded off n c = map (\<lambda>i. if off + i < length c then c ! (off + i) else 0) [0..<n]"

definition sector_bytes :: "bytes list \<Rightarrow> owner option \<Rightarrow> bytes" where
  "sector_bytes contents own = (case own of
     Some (t, Some p) \<Rightarrow> padded (p * kAlignment) kAlignment (contents ! t)
   | _ \<Rightarrow> zeros kAlignment)"

definition sectors :: "(nat \<Rightarrow> bytes) \<Rightarrow> nat \<Rightarrow> nat \<Rightarrow> bytes" where
  "sectors f a b = concat (map f [a..<b])"

definition image_sector :: "segment_mapping list list \<Rightarrow> bytes list \<Rightarrow> nat \<Rightarrow> bytes" where
  "image_sector segs contents x = sector_bytes contents (stack_lookup 0 segs x)"

section \<open>Sectors and padding\<close>

lemma length_padded [simp]: "length (padded off n c) = n"
  by (simp add: padded_def)

lemma padded_append: "padded off (m + n) c = padded off m c @ padded (off + m) n c"
  by (intro nth_equalityI) (auto simp: padded_def nth_append add.assoc)

lemma padded_get: "padded off n c = get_bytes off n c @ zeros (n - length (get_bytes off n c))"
  by (intro nth_equalityI) (auto simp: padded_def get_bytes_def nth_append min_def)

lemma sectors_split: "a \<le> c \<Longrightarrow> c \<le> b \<Longrightarrow> sectors f a b = sectors f a c @ sectors f c b"
  using upt_add_eq_append [of a c "b - c"] by (simp add: sectors_def)

lemma sectors_cong: "(\<And>x. a \<le> x \<Longrightarrow> x < b \<Longrightarrow> f x = g x) \<Longrightarrow> sectors f a b = sectors g a b"
  unfolding sectors_def by (auto intro!: arg_cong [of _ _ concat])

lemma sectors_zeros: "sectors (\<lambda>_. zeros k) a b = zeros ((b - a) * k)"
proof -
  have "concat (map (\<lambda>_. zeros k) xs) = zeros (length xs * k)" for xs :: "nat list"
    by (induction xs) auto
  then show ?thesis by (simp add: sectors_def)
qed

lemma sectors_padded:
  "sectors (\<lambda>x. padded ((p + (x - a)) * k) k c) a (a + n) = padded (p * k) (n * k) c"
proof (induction n)
  case (Suc n)
  have "sectors (\<lambda>x. padded ((p + (x - a)) * k) k c) a (a + Suc n) =
      sectors (\<lambda>x. padded ((p + (x - a)) * k) k c) a (a + n) @ padded ((p + n) * k) k c"
    by (simp add: sectors_def)
  also have "\<dots> = padded (p * k) (n * k + k) c"
    unfolding Suc.IH by (simp add: padded_append add_mult_distrib)
  finally show ?case by (simp add: add.commute)
qed (simp add: sectors_def padded_def)

lemma length_sectors: "(\<And>x. length (f x) = k) \<Longrightarrow> length (sectors f a b) = (b - a) * k"
  by (simp add: sectors_def length_concat comp_def sum_list_triv)

lemma length_sector_bytes [simp]: "length (sector_bytes contents own) = kAlignment"
  by (auto simp: sector_bytes_def split: option.splits)

section \<open>The lookup directory\<close>

definition mono_ends :: "segment_mapping list \<Rightarrow> bool" where
  "mono_ends v \<longleftrightarrow> sorted_wrt (\<lambda>a b. seg_end a \<le> seg_end b) v"

lemma wf_mono_ends: "wf_segs v \<Longrightarrow> mono_ends v"
  unfolding mono_ends_def wf_segs_def
  by (elim conjE, erule sorted_wrt_mono_rel [rotated]) (auto simp: seg_end_def)

lemma mono_ends_drop: "mono_ends v \<Longrightarrow> mono_ends (drop n v)"
  by (simp add: mono_ends_def sorted_wrt_drop)

lemma mono_ends_last:
  assumes "mono_ends v" "s \<in> set v"
  shows "seg_end s \<le> seg_end (last v)"
  using assms by (cases v rule: rev_cases) (auto simp: mono_ends_def sorted_wrt_append)

lemma directory_loop_unfold:
  assumes "0 < stride"
  shows "directory_loop index stride from =
    (if drop from index = [] then []
     else seg_end (last (take stride (drop from index))) # directory_loop index stride (from + stride))"
proof (cases "from < length index")
  case True
  let ?n = "min stride (length index - from)"
  have "last (take stride (drop from index)) = index ! (from + ?n - 1)"
    using assms True by (subst last_conv_nth) (auto simp: min.commute)
  then show ?thesis using assms True by (subst directory_loop.simps) simp
qed (simp add: directory_loop.simps)

lemma directory_search:
  assumes "mono_ends v" "0 < stride"
  shows "let g = length (takeWhile (\<lambda>e. e \<le> x) (directory_loop v stride from)) in
    dropWhile (\<lambda>s. seg_end s \<le> x) (take stride (drop (from + g * stride) v)) @ drop (from + g * stride + stride) v
    = dropWhile (\<lambda>s. seg_end s \<le> x) (drop from v)"
  using assms
proof (induction v stride "from" rule: directory_loop.induct)
  case (1 v stride k)
  let ?P = "\<lambda>s. seg_end s \<le> x" and ?w = "drop k v"
  have w: "?w = take stride ?w @ drop (k + stride) v"
    by (metis append_take_drop_id drop_drop add.commute)
  show ?case
  proof (cases "?w = []")
    case True
    then show ?thesis by (subst directory_loop_unfold [OF "1.prems"(2)]) (simp add: Let_def)
  next
    case ne: False
    have dir: "directory_loop v stride k =
        seg_end (last (take stride ?w)) # directory_loop v stride (k + stride)"
      using directory_loop_unfold [OF "1.prems"(2)] ne by simp
    show ?thesis
    proof (cases "seg_end (last (take stride ?w)) \<le> x")
      case True
      have "mono_ends (take stride ?w)"
        using "1.prems"(1) by (simp add: mono_ends_def sorted_wrt_take sorted_wrt_drop)
      then have "\<forall>s \<in> set (take stride ?w). ?P s" using True mono_ends_last order_trans by blast
      then have "dropWhile ?P ?w = dropWhile ?P (drop (k + stride) v)"
        by (subst w) (auto intro: dropWhile_append2)
      moreover have "\<not> (stride = 0 \<or> length v \<le> k)" using ne "1.prems"(2) by simp
      ultimately show ?thesis
        using "1.IH" "1.prems" True dir by (simp add: Let_def add.assoc)
    next
      case False
      have "last (take stride ?w) \<in> set (take stride ?w)" using ne "1.prems"(2) by (intro last_in_set) simp
      then have "dropWhile ?P (take stride ?w @ drop (k + stride) v) =
          dropWhile ?P (take stride ?w) @ drop (k + stride) v"
        using False by (intro dropWhile_append1)
      then show ?thesis using w False dir by (simp add: Let_def)
    qed
  qed
qed

lemma find_first_directory:
  assumes "mono_ends (m_index m)" "0 < m_lookup_stride m"
    "m_lookup_ends m = directory_loop (m_index m) (m_lookup_stride m) 0"
  shows "find_first m x = upper_bound seg_end x (m_index m)"
proof -
  let ?v = "m_index m" and ?st = "m_lookup_stride m" and ?e = "m_lookup_ends m"
  have g: "length ?e - length (upper_bound id x ?e) = length (takeWhile (\<lambda>e. e \<le> x) ?e)"
    using arg_cong [OF takeWhile_dropWhile_id [of "\<lambda>e. e \<le> x" ?e], of length]
    by (simp add: upper_bound_def del: takeWhile_dropWhile_id)
  have clamp: "dropWhile P (take (min st (length v - min k (length v))) (drop (min k (length v)) v)) @
      drop (min k (length v) + min st (length v - min k (length v))) v
      = dropWhile P (take st (drop k v)) @ drop (k + st) v" for P k st and v :: "segment_mapping list"
    by (auto simp: min_def)
  show ?thesis
    using directory_search [OF assms(1,2), of x 0] unfolding find_first_def Let_def g
    unfolding upper_bound_def clamp by (simp add: assms(3) [symmetric])
qed

section \<open>The read loop\<close>

context blob_source
begin

lemma read_piece_padded:
  assumes "read_piece src n off = Inr r"
  shows "r = padded off n content"
proof -
  from assms obtain bs where bs: "src_pread src n off = Inr bs" by (auto simp: read_piece_def)
  have c: "bs = get_bytes off n content" by (rule pread_content [OF bs])
  show ?thesis
  proof (cases "length bs < n")
    case True
    then have "length content \<le> off + length bs" using c by (auto simp: get_bytes_def)
    then have "src_pread src k (off + length bs) = Inr b2 \<Longrightarrow> b2 = []" for k b2
      by (auto dest: pread_content simp: get_bytes_beyond)
    then have "(case src_pread src k (off + length bs) of Inl _ \<Rightarrow> [] | Inr b2 \<Rightarrow> b2) = []" for k
      by (auto split: sum.splits)
    then have "r = bs @ zeros (n - length bs)"
      using assms bs True by (simp add: read_piece_def Let_def)
    then show ?thesis by (simp add: padded_get c)
  next
    case False
    moreover have "length bs \<le> n" using c by (simp add: get_bytes_def)
    ultimately show ?thesis using assms bs c by (simp add: read_piece_def padded_get)
  qed
qed

lemma read_piece_succeeds:
  assumes "\<And>k o'. \<exists>bs. src_pread src k o' = Inr bs"
  shows "\<exists>r. read_piece src n off = Inr r"
proof -
  obtain bs where "src_pread src n off = Inr bs" using assms [of n off] by (elim exE)
  then show ?thesis by (cases "length bs < n") (simp_all add: read_piece_def Let_def)
qed

end

locale source_stack =
  fixes layers :: "LsmtLayer list" and contents :: "bytes list"
  assumes same_length: "length contents = length layers"
    and source: "i < length layers \<Longrightarrow> blob_source (l_src (layers ! i)) (contents ! i)"
begin

definition tags_ok :: "segment_mapping list \<Rightarrow> bool" where
  "tags_ok v \<longleftrightarrow> (\<forall>s \<in> set v. s_tag s < length layers)"

lemma piece_bytes:
  assumes "s_offset s \<le> cur" "cur \<le> to'" "to' \<le> seg_end s" "s_tag s < length layers"
    and "(if s_zeroed s then Inr (zeros ((to' - cur) * kAlignment))
          else read_piece (l_src (layers ! s_tag s)) ((to' - cur) * kAlignment)
                 ((s_moffset s + (cur - s_offset s)) * kAlignment)) = Inr piece"
  shows "piece = sectors (\<lambda>x. sector_bytes contents (Some (s_tag s, place s x))) cur to'"
proof (cases "s_zeroed s")
  case True
  then show ?thesis using assms(5) by (simp add: sector_bytes_def place_def sectors_zeros)
next
  case False
  let ?p = "s_moffset s + (cur - s_offset s)"
  have "piece = padded (?p * kAlignment) ((to' - cur) * kAlignment) (contents ! s_tag s)"
    using False assms(5) by (intro blob_source.read_piece_padded [OF source [OF assms(4)]]) simp
  also have "\<dots> = sectors (\<lambda>x. padded ((?p + (x - cur)) * kAlignment) kAlignment (contents ! s_tag s)) cur (cur + (to' - cur))"
    by (rule sectors_padded [symmetric])
  also have "\<dots> = sectors (\<lambda>x. sector_bytes contents (Some (s_tag s, place s x))) cur to'"
    unfolding le_add_diff_inverse [OF assms(2)]
    by (rule sectors_cong) (use assms(1,2) False in \<open>simp add: sector_bytes_def place_def\<close>)
  finally show ?thesis .
qed

lemma pread_loop_step:
  assumes "cur < end_sec" "it = s # rest" "s_offset s \<le> cur" "s_offset s < end_sec"
  shows "pread_loop m end_sec cur it out =
    bindR (if s_zeroed s then Inr (zeros ((min (seg_end s) end_sec - cur) * kAlignment))
           else read_piece (l_src (m_layers m ! s_tag s)) ((min (seg_end s) end_sec - cur) * kAlignment)
                  ((s_moffset s + (cur - s_offset s)) * kAlignment))
      (\<lambda>piece. pread_loop m end_sec (min (seg_end s) end_sec)
         (if seg_end s \<le> min (seg_end s) end_sec then rest else s # rest) (out @ piece))"
  using assms by (subst pread_loop.simps) (simp add: Let_def max_def)

lemma pread_loop_correct:
  assumes "pread_loop m end_sec cur it out = Inr r" "m_layers m = layers"
    "wf_segs it" "tags_ok it" "\<forall>s \<in> set it. cur < seg_end s" "cur \<le> end_sec"
  shows "r = out @ sectors (\<lambda>x. sector_bytes contents (lookup it x)) cur end_sec"
  using assms
proof (induction "end_sec - cur" arbitrary: cur it out rule: less_induct)
  case less
  let ?f = "\<lambda>x. sector_bytes contents (lookup it x)"
  have hole: "sectors ?f cur h = zeros ((h - cur) * kAlignment)" if "\<forall>x. cur \<le> x \<longrightarrow> x < h \<longrightarrow> lookup it x = None" for h
    using that sectors_zeros [of kAlignment cur h]
    by (subst sectors_cong [where g = "\<lambda>_. zeros kAlignment"]) (auto simp: sector_bytes_def)
  show ?case
  proof (cases "cur < end_sec \<and> it \<noteq> [] \<and> s_offset (hd it) < end_sec")
    case False
    have "\<forall>x. cur \<le> x \<longrightarrow> x < end_sec \<longrightarrow> lookup it x = None" if "cur < end_sec"
      using False that less.prems(3) lookup_before_head by (cases it) (auto simp del: lookup.simps(2))
    then show ?thesis
      using False less.prems(1,6) hole [of end_sec]
      by (subst (asm) pread_loop.simps) (auto simp: sectors_def split: if_splits)
  next
    case True
    then obtain s rest where it: "it = s # rest" by (cases it) auto
    have rest: "wf_segs rest" "tags_ok rest" "0 < s_length s" "s_tag s < length layers"
        "\<forall>t \<in> set rest. seg_end s \<le> s_offset t" "cur < seg_end s"
      using less.prems(3,4,5) by (auto simp: it wf_segs_Cons tags_ok_def)
    show ?thesis
    proof (cases "cur < s_offset s")
      case gap: True
      let ?h = "s_offset s"
      have "pread_loop m end_sec ?h it (out @ zeros ((?h - cur) * kAlignment)) = Inr r"
        using less.prems(1) True gap by (subst (asm) pread_loop.simps) (simp add: it Let_def min_def)
      moreover have "\<forall>t \<in> set it. ?h < seg_end t"
        using wf_segs_ends_gt [of s rest ?h] less.prems(3) rest(3) seg_end_gt by (auto simp: it)
      ultimately have "r = (out @ zeros ((?h - cur) * kAlignment)) @ sectors ?f ?h end_sec"
        using less.prems True gap by (intro less.hyps) (auto simp: it)
      moreover have "\<forall>x. cur \<le> x \<longrightarrow> x < ?h \<longrightarrow> lookup it x = None"
        using less.prems(3) lookup_before_head unfolding it by blast
      ultimately show ?thesis using hole [of ?h] sectors_split [of cur ?h end_sec ?f] True gap
        by (simp add: it)
    next
      case False
      let ?to = "min (seg_end s) end_sec"
      let ?it' = "if seg_end s \<le> ?to then rest else s # rest"
      obtain piece where piece: "(if s_zeroed s then Inr (zeros ((?to - cur) * kAlignment))
          else read_piece (l_src (layers ! s_tag s)) ((?to - cur) * kAlignment)
                 ((s_moffset s + (cur - s_offset s)) * kAlignment)) = Inr piece"
        and next_: "pread_loop m end_sec ?to ?it' (out @ piece) = Inr r"
        using less.prems(1,2) pread_loop_step [of cur end_sec it s rest m out] True False
        unfolding it by (auto simp: bindR_Inr)
      have "piece = sectors (\<lambda>x. sector_bytes contents (Some (s_tag s, place s x))) cur ?to"
        using piece_bytes [OF _ _ _ rest(4) piece] False rest(6) True by auto
      also have "\<dots> = sectors ?f cur ?to"
        by (rule sectors_cong) (use False in \<open>auto simp: it covers_def\<close>)
      finally have p: "piece = sectors ?f cur ?to" .
      have ends: "\<forall>t \<in> set ?it'. ?to < seg_end t"
      proof (cases "seg_end s \<le> end_sec")
        case True
        have "seg_end s < seg_end t" if "t \<in> set rest" for t
          using rest(5) that seg_end_gt [OF wf_segs_pos [OF rest(1) that]] by force
        then show ?thesis using True by simp
      next
        case False
        then show ?thesis using wf_segs_ends_gt [of s rest end_sec] less.prems(3) by (simp add: it)
      qed
      have "r = (out @ piece) @ sectors (\<lambda>x. sector_bytes contents (lookup ?it' x)) ?to end_sec"
        using next_ less.prems(2,3,4) rest ends True False
        by (intro less.hyps) (auto simp: it)
      also have "sectors (\<lambda>x. sector_bytes contents (lookup ?it' x)) ?to end_sec = sectors ?f ?to end_sec"
        by (rule sectors_cong) (auto simp: it covers_def)
      finally show ?thesis
        using p sectors_split [of cur ?to end_sec ?f] rest(6) True by (simp add: it)
    qed
  qed
qed

lemma lookup_tag_bound: "stack_lookup k segs x = Some (t, p) \<Longrightarrow> k + length segs \<le> 256 \<Longrightarrow> t < k + length segs"
proof (induction segs arbitrary: k)
  case (Cons a segs)
  show ?case
  proof (cases "lookup a x")
    case None
    then show ?thesis using Cons.IH [of "Suc k"] Cons.prems by simp
  next
    case (Some v)
    then show ?thesis using Cons.prems by (cases v) auto
  qed
qed simp

lemma tags_of_lookup:
  assumes "wf_segs v" "\<And>x t p. lookup v x = Some (t, p) \<Longrightarrow> t < length layers"
  shows "tags_ok v"
  unfolding tags_ok_def
proof
  fix s assume s: "s \<in> set v"
  then have "lookup v (s_offset s) = Some (s_tag s, place s (s_offset s))"
    using assms(1) by (intro lookup_memI) (auto simp: covers_def seg_end_def wf_segs_pos)
  then show "s_tag s < length layers" by (rule assms(2))
qed

lemma read_piece_error: "read_piece src n off = Inl e \<Longrightarrow> src_pread src n off = Inl e"
  by (cases "src_pread src n off") (auto simp: read_piece_def Let_def split: if_splits)

lemma pread_loop_error:
  assumes "pread_loop m end_sec cur it out = Inl e" "m_layers m = layers" "tags_ok it"
  shows "\<exists>i < length layers. \<exists>n k. src_pread (l_src (layers ! i)) n k = Inl e"
  using assms
proof (induction m end_sec cur it out rule: pread_loop.induct)
  case (1 m end_sec cur it out)
  note step = "1.prems"(1) [unfolded pread_loop.simps [of m end_sec cur it out] Let_def]
  show ?case
  proof (cases "cur < end_sec \<and> it \<noteq> [] \<and> s_offset (hd it) < end_sec")
    case False
    then show ?thesis using step by (auto split: if_splits)
  next
    case True
    then obtain s rest where it: "it = s # rest" by (cases it) auto
    show ?thesis
    proof (cases "cur < s_offset s")
      case True
      with step "1.IH"(1) "1.prems"(2,3) show ?thesis using \<open>cur < end_sec \<and> _\<close> by (auto simp: it)
    next
      case False
      let ?r = "if s_zeroed s then Inr (zeros ((min (seg_end s) end_sec - cur) * kAlignment))
           else read_piece (l_src (m_layers m ! s_tag s)) ((min (seg_end s) end_sec - cur) * kAlignment)
                  ((s_moffset s + (cur - s_offset s)) * kAlignment)"
      have r: "bindR ?r (\<lambda>piece. pread_loop m end_sec (min (seg_end s) end_sec)
         (if seg_end s \<le> min (seg_end s) end_sec then rest else s # rest) (out @ piece)) = Inl e"
        using "1.prems"(1) pread_loop_step [of cur end_sec it s rest m out] False True by (simp add: it)
      show ?thesis
      proof (cases ?r)
        case (Inl e')
        then have "src_pread (l_src (layers ! s_tag s)) ((min (seg_end s) end_sec - cur) * kAlignment)
            ((s_moffset s + (cur - s_offset s)) * kAlignment) = Inl e"
          using r "1.prems"(2) by (auto split: if_splits dest: read_piece_error)
        then show ?thesis using "1.prems"(3) by (auto simp: it tags_ok_def)
      next
        case (Inr piece)
        with r have "pread_loop m end_sec (min (seg_end s) end_sec)
           (if seg_end s \<le> min (seg_end s) end_sec then rest else s # rest) (out @ piece) = Inl e" by simp
        moreover have hd: "hd it = s" "tl it = rest" "max (s_offset s) cur = cur"
          using False by (auto simp: it)
        ultimately show ?thesis
          using "1.IH"(2) [OF _ _ _ refl refl refl refl, of piece, unfolded hd] Inr "1.prems"(2,3) True False
          by (cases "seg_end s \<le> end_sec") (simp_all add: it tags_ok_def)
      qed
    qed
  qed
qed

end

lemma image_sectors_get:
  assumes "\<And>x. length (f x) = k" "a + n \<le> N"
  shows "get_bytes (a * k) (n * k) (sectors f 0 N) = sectors f a (a + n)"
proof -
  have "sectors f 0 N = sectors f 0 a @ sectors f a (a + n) @ sectors f (a + n) N"
    using assms(2) sectors_split [of 0 a N f] sectors_split [of a "a + n" N f] by simp
  then show ?thesis using length_sectors [of f k, OF assms(1)] by (simp add: get_bytes_def)
qed

definition image_bytes :: "LsmtLayer list \<Rightarrow> bytes list \<Rightarrow> nat \<Rightarrow> bytes" where
  "image_bytes layers contents vsize =
     sectors (image_sector (map l_segments layers) contents) 0 (vsize div kAlignment)"

lemma merged_open_facts:
  assumes "merged_open lbu = Inr m" "\<forall>l \<in> set lbu. wf_segs (l_segments l)"
  shows "m_layers m = rev lbu" "m_vsize m = stack_vsize lbu" "wf_segs (m_index m)"
    "length lbu \<le> kMaxStackLayers"
    "find_first m x = upper_bound seg_end x (m_index m)"
    "lookup (m_index m) x = (if x < kMaxOffset then stack_lookup 0 (map l_segments (rev lbu)) x else None)"
proof -
  from assms(1) obtain index where
    merge: "merge_indexes (map l_segments (rev lbu)) [] = Inr index" and m: "m_index m = index"
      "m_layers m = rev lbu" "m_vsize m = stack_vsize lbu" "length lbu \<le> kMaxStackLayers"
    and dir: "m_lookup_ends m = [] \<or> m_lookup_stride m = lookup_stride (length index) \<and>
      m_lookup_ends m = directory_loop index (lookup_stride (length index)) 0"
    by (auto simp: merged_open_def Let_def split: if_splits)
  from m show "m_layers m = rev lbu" "m_vsize m = stack_vsize lbu" "length lbu \<le> kMaxStackLayers"
    by auto
  have "\<forall>l \<in> set (map l_segments (rev lbu)). wf_segs l" using assms(2) by auto
  from merge_indexes_spec [OF this merge] show wf: "wf_segs (m_index m)"
    and "lookup (m_index m) x = (if x < kMaxOffset then stack_lookup 0 (map l_segments (rev lbu)) x else None)"
    by (auto simp: m)
  have "0 < lookup_stride n" for n by (simp add: lookup_stride_def)
  then show "find_first m x = upper_bound seg_end x (m_index m)"
    using dir find_first_directory [of m x] wf_mono_ends [OF wf] by (auto simp: m find_first_def)
qed

lemma merged_pread_aligned:
  assumes "m_vsize m = N * kAlignment" "a < N" "n > 0"
  shows "merged_pread m buf (n * kAlignment) (a * kAlignment) =
    bindR (pread_loop m (a + min n (N - a)) a (find_first m a) [])
      (\<lambda>out. Inr (take (min n (N - a) * kAlignment) (put_bytes 0 out buf)))"
proof -
  have c: "(if n * kAlignment > N * kAlignment - a * kAlignment then N * kAlignment - a * kAlignment
      else n * kAlignment) = min n (N - a) * kAlignment"
    by (auto simp: kAlignment_def min_def)
  have "(a * kAlignment + min n (N - a) * kAlignment) div kAlignment = a + min n (N - a)"
    by (simp add: kAlignment_def)
  then show ?thesis
    using assms(2,3) unfolding merged_pread_def Let_def assms(1) c by (auto simp: kAlignment_def min_def)
qed

lemma merged_pread_sectors:
  assumes len: "\<And>x. length (f x) = kAlignment" and vs: "kAlignment dvd m_vsize m" "m_vsize m \<le> kMaxOffset * kAlignment"
    and loop: "\<And>a b out. a \<le> b \<Longrightarrow> b \<le> kMaxOffset \<Longrightarrow> pread_loop m b a (find_first m a) [] = Inr out \<Longrightarrow> out = sectors f a b"
    and r: "merged_pread m buf count offset = Inr bs"
  shows "bs = get_bytes offset count (sectors f 0 (m_vsize m div kAlignment))"
proof -
  obtain N where N: "m_vsize m = N * kAlignment" using vs(1) by (metis dvd_def mult.commute)
  have vN: "m_vsize m div kAlignment = N" by (simp add: N kAlignment_def)
  have total: "length (sectors f 0 N) = m_vsize m"
    using length_sectors [of f kAlignment, OF len] by (simp add: N)
  from r have "offset mod kAlignment = 0" "count mod kAlignment = 0"
    by (auto simp: merged_pread_def split: if_splits)
  then obtain a n where an: "offset = a * kAlignment" "count = n * kAlignment"
    by (metis mod_0_imp_dvd dvd_def mult.commute)
  show ?thesis
  proof (cases "a < N \<and> n > 0")
    case False
    then have "bs = []" using r by (auto simp: merged_pread_def an N kAlignment_def Let_def split: if_splits)
    then show ?thesis using False total by (auto simp: vN an N kAlignment_def get_bytes_beyond)
  next
    case True
    let ?n = "min n (N - a)"
    have le: "a + ?n \<le> N" using True by linarith
    obtain out where out: "pread_loop m (a + ?n) a (find_first m a) [] = Inr out"
        "bs = take (?n * kAlignment) (put_bytes 0 out buf)"
      using r merged_pread_aligned [OF N] True by (auto simp: an)
    have "out = sectors f a (a + ?n)"
      using True vs(2) N out(1) by (intro loop) (auto simp: kAlignment_def)
    moreover from this have "length out = ?n * kAlignment" using length_sectors [of f, OF len] by simp
    ultimately have "bs = sectors f a (a + ?n)" using out(2) by (simp add: put_bytes_def)
    also have "\<dots> = get_bytes offset (?n * kAlignment) (sectors f 0 N)"
      using image_sectors_get [of f kAlignment a ?n N, OF len le] by (simp add: an)
    also have "?n * kAlignment = min count (length (sectors f 0 N) - offset)"
      unfolding total by (auto simp: an N min_def kAlignment_def)
    finally show ?thesis by (simp only: get_bytes_clamp vN)
  qed
qed

context source_stack
begin

lemma merged_tags:
  assumes "merged_open (rev layers) = Inr m" "\<forall>l \<in> set layers. wf_segs (l_segments l)"
  shows "tags_ok (m_index m)"
proof (rule tags_of_lookup)
  have wf: "\<forall>l \<in> set (rev layers). wf_segs (l_segments l)" using assms(2) by simp
  note facts = merged_open_facts [OF assms(1) wf]
  show "wf_segs (m_index m)" by (rule facts)
  show "t < length layers" if "lookup (m_index m) x = Some (t, p)" for x t p
    using that facts(4,6) lookup_tag_bound [of 0 "map l_segments layers" x t p]
    by (auto simp: kMaxStackLayers_def split: if_splits)
qed

lemma tags_ok_upper_bound: "tags_ok v \<Longrightarrow> tags_ok (upper_bound key x v)"
  using upper_bound_subset [of key x v] by (auto simp: tags_ok_def)

lemma merged_loop_image:
  assumes m: "merged_open (rev layers) = Inr m" and wf: "\<forall>l \<in> set layers. wf_segs (l_segments l)"
    and "a \<le> b" "b \<le> kMaxOffset" "pread_loop m b a (find_first m a) [] = Inr out"
  shows "out = sectors (image_sector (map l_segments layers) contents) a b"
proof -
  have wf': "\<forall>l \<in> set (rev layers). wf_segs (l_segments l)" using wf by simp
  note facts = merged_open_facts [OF m wf']
  let ?it = "upper_bound seg_end a (m_index m)"
  have "out = [] @ sectors (\<lambda>x. sector_bytes contents (lookup ?it x)) a b"
    using assms(3,5) facts(1,3,5) tags_ok_upper_bound [OF merged_tags [OF m wf]]
      upper_bound_wf [OF facts(3)] upper_bound_ends [OF facts(3)]
    by (intro pread_loop_correct [of m b a ?it "[]" out]) auto
  also have "\<dots> = sectors (image_sector (map l_segments layers) contents) a b"
    using assms(4) by (auto simp: image_sector_def lookup_upper_bound facts(6) intro!: sectors_cong)
  finally show ?thesis .
qed

lemma merged_pread_image:
  assumes m: "merged_open (rev layers) = Inr m" "\<forall>l \<in> set layers. wf_segs (l_segments l)"
    and vs: "kAlignment dvd m_vsize m" "m_vsize m \<le> kMaxOffset * kAlignment"
    and r: "merged_pread m buf count offset = Inr bs"
  shows "bs = get_bytes offset count (image_bytes layers contents (m_vsize m))"
  unfolding image_bytes_def
  by (rule merged_pread_sectors [OF _ vs _ r]) (use merged_loop_image [OF m] in \<open>auto simp: image_sector_def\<close>)

lemma merged_pread_error:
  assumes m: "merged_open (rev layers) = Inr m" "\<forall>l \<in> set layers. wf_segs (l_segments l)"
    and r: "merged_pread m buf count offset = Inl e" "offset mod kAlignment = 0" "count mod kAlignment = 0"
  shows "\<exists>l \<in> set layers. \<exists>n k. src_pread (l_src l) n k = Inl e"
proof -
  have wf': "\<forall>l \<in> set (rev layers). wf_segs (l_segments l)" using m(2) by simp
  note facts = merged_open_facts [OF m(1) wf']
  have bind: "bindR q (\<lambda>x. Inr (g x)) = Inl e \<Longrightarrow> q = Inl e" for q :: io and g :: "bytes \<Rightarrow> bytes"
    by (cases q) auto
  obtain a b where "pread_loop m b a (find_first m a) [] = Inl e"
    using r by (auto simp: merged_pread_def Let_def split: if_splits dest!: bind)
  then obtain i n k where "i < length layers" "src_pread (l_src (layers ! i)) n k = Inl e"
    using pread_loop_error [of m b a "find_first m a" "[]" e] facts(1,5)
      tags_ok_upper_bound [OF merged_tags [OF m]] by auto
  then show ?thesis using nth_mem by blast
qed

lemma merged_sized_source:
  assumes m: "merged_open (rev layers) = Inr m" "\<forall>l \<in> set layers. wf_segs (l_segments l)"
    and vs: "kAlignment dvd m_vsize m" "m_vsize m \<le> kMaxOffset * kAlignment"
  shows "sized_source \<lparr>src_size = m_vsize m, src_pread = merged_pread m buf\<rparr>
    (image_bytes layers contents (m_vsize m))"
proof
  show "src_size \<lparr>src_size = m_vsize m, src_pread = merged_pread m buf\<rparr> =
      length (image_bytes layers contents (m_vsize m))"
    using length_sectors [of "image_sector (map l_segments layers) contents" kAlignment] vs(1)
    by (simp add: image_bytes_def image_sector_def)
qed (use merged_pread_image [OF m vs] in simp)

end

text \<open>Layers over local files form such a stack.\<close>

interpretation fs: source_stack "map (\<lambda>(l, f, fault). l\<lparr>l_src := local_file f fault\<rparr>) xs"
    "map (\<lambda>(l, f, fault). f) xs" for xs
  by (rule source_stack.intro) (auto simp: lf.blob_source_axioms split: prod.splits)

section \<open>Properties\<close>

text \<open>C1: Reading a merged image. For a stack of layers with sorted, disjoint, non-empty mappings
  over sources that keep the \<open>BlobSource\<close> contract, a sector-aligned \<open>pread\<close> either returns
  exactly the image bytes of the range, clamped at the virtual size, whatever the caller's buffer
  held before, or returns the error number of a failed read of one of the layers. In the image
  each sector comes from the topmost layer that maps it, and holes, zeroed mappings and payload
  beyond the end of a layer's blob read as zeros.\<close>

theorem merged_pread_correct:
  assumes "merged_open layers_bottom_up = Inr m"
    and "\<forall>l \<in> set layers_bottom_up. wf_segs (l_segments l)"
    and "list_all2 (\<lambda>l c. blob_source (l_src l) c) (rev layers_bottom_up) contents"
    and "kAlignment dvd m_vsize m" and "m_vsize m \<le> kMaxOffset * kAlignment"
    and "offset mod kAlignment = 0" and "count mod kAlignment = 0"
  shows "case merged_pread m buf count offset of
      Inr bs \<Rightarrow> bs = get_bytes offset count (image_bytes (rev layers_bottom_up) contents (m_vsize m))
    | Inl e \<Rightarrow> \<exists>l \<in> set layers_bottom_up. \<exists>n k. src_pread (l_src l) n k = Inl e"
proof -
  have st: "source_stack (rev layers_bottom_up) contents"
    using assms(3) by (intro source_stack.intro) (auto simp: list_all2_conv_all_nth)
  have m: "merged_open (rev (rev layers_bottom_up)) = Inr m"
    "\<forall>l \<in> set (rev layers_bottom_up). wf_segs (l_segments l)" using assms(1,2) by simp_all
  show ?thesis
    using source_stack.merged_pread_image [OF st m assms(4,5)]
      source_stack.merged_pread_error [OF st m _ assms(6,7)] by (auto split: sum.split)
qed

text \<open>C22: The lookup directory of large merged indexes. Searching the group of the directory first
  and then inside the group finds the same mapping as the binary search over the whole index, for
  every index and every stride the constructor chooses.\<close>

theorem lookup_directory_equiv:
  assumes "merged_open layers_bottom_up = Inr m"
    and "\<forall>l \<in> set layers_bottom_up. wf_segs (l_segments l)"
  shows "find_first m start_sec = upper_bound seg_end start_sec (m_index m)"
  using merged_open_facts(5) [OF assms] .

text \<open>A stack of the sample layer over one that maps sectors 0 to 3.\<close>

definition sample_bottom :: LsmtLayer where
  "sample_bottom = \<lparr>l_src = local_file (replicate 2048 3) (\<lambda>_ _. None),
     l_ht = default_ht\<lparr>ht_virtual_size := 2048\<rparr>,
     l_segments = [\<lparr>s_offset = 0, s_length = 4, s_moffset = 0, s_zeroed = False, s_tag = 0\<rparr>]\<rparr>"

definition sample_top :: LsmtLayer where
  "sample_top = \<lparr>l_src = local_file (replicate 600 7) (\<lambda>_ _. None),
     l_ht = default_ht\<lparr>ht_virtual_size := 2048\<rparr>,
     l_segments = [\<lparr>s_offset = 1, s_length = 2, s_moffset = 0, s_zeroed = False, s_tag = 0\<rparr>]\<rparr>"

lemma sample_stack_opens:
  "\<exists>m. merged_open [sample_bottom, sample_top] = Inr m \<and> m_vsize m = 2048"
  by (simp add: merged_open_def sample_bottom_def sample_top_def stack_vsize_def l_virtual_size_def
      kMaxStackLayers_def merge_indexes_def upper_bound_def clip_head_def clip_tail_def emit_def
      coalesces_def seg_end_def seg_mend_def Let_def kMaxOffset_def kMaxRoIndexSize_def)

theorem merged_pread_correct_witness:
  "\<exists>m. merged_open [sample_bottom, sample_top] = Inr m \<and>
     (case merged_pread m [] 1024 512 of
        Inr bs \<Rightarrow> bs = get_bytes 512 1024 (image_bytes [sample_top, sample_bottom]
                    [replicate 600 7, replicate 2048 3] 2048)
      | Inl e \<Rightarrow> \<exists>l \<in> set [sample_bottom, sample_top]. \<exists>n k. src_pread (l_src l) n k = Inl e)"
proof -
  obtain m where m: "merged_open [sample_bottom, sample_top] = Inr m" "m_vsize m = 2048"
    using sample_stack_opens by (elim exE conjE)
  have "\<forall>l \<in> set [sample_bottom, sample_top]. wf_segs (l_segments l)"
    by (simp add: sample_bottom_def sample_top_def)
  moreover have "list_all2 (\<lambda>l c. blob_source (l_src l) c) (rev [sample_bottom, sample_top])
      [replicate 600 7, replicate 2048 3]"
    by (simp add: sample_bottom_def sample_top_def lf.blob_source_axioms)
  ultimately have "case merged_pread m [] 1024 512 of
        Inr bs \<Rightarrow> bs = get_bytes 512 1024 (image_bytes (rev [sample_bottom, sample_top])
                    [replicate 600 7, replicate 2048 3] (m_vsize m))
      | Inl e \<Rightarrow> \<exists>l \<in> set [sample_bottom, sample_top]. \<exists>n k. src_pread (l_src l) n k = Inl e"
    by (intro merged_pread_correct m(1)) (simp_all add: m(2) kAlignment_def kMaxOffset_def)
  then show ?thesis by (intro exI [of _ m] conjI m(1)) (simp only: m(2) rev.simps append.simps)
qed

theorem lookup_directory_equiv_witness:
  "\<exists>m. merged_open [sample_bottom, sample_top] = Inr m \<and> find_first m 2 = upper_bound seg_end 2 (m_index m)"
proof -
  obtain m where m: "merged_open [sample_bottom, sample_top] = Inr m"
    using sample_stack_opens by (elim exE conjE)
  moreover have "\<forall>l \<in> set [sample_bottom, sample_top]. wf_segs (l_segments l)"
    by (simp add: sample_bottom_def sample_top_def)
  ultimately show ?thesis using lookup_directory_equiv [of "[sample_bottom, sample_top]" m 2] by blast
qed

section \<open>Where the code departs from its contract\<close>

text \<open>A plain layer file whose only mapping is zeroed and empty, at sector 2.\<close>

definition empty_mapping :: segment_mapping where
  "empty_mapping = \<lparr>s_offset = 2, s_length = 0, s_moffset = 9, s_zeroed = True, s_tag = 0\<rparr>"

definition empty_mapping_layer :: bytes where
  "empty_mapping_layer = sealed_file sample_header (replicate 512 7) [empty_mapping] [] (sample_trailer 1)"

definition two_mappings :: "segment_mapping list" where
  "two_mappings = [\<lparr>s_offset = 0, s_length = 1, s_moffset = 9, s_zeroed = False, s_tag = 0\<rparr>,
     \<lparr>s_offset = 1, s_length = 2, s_moffset = 20, s_zeroed = False, s_tag = 0\<rparr>]"

lemma empty_mapping_layer_opens:
  "\<exists>l. layer_open (Some (local_file empty_mapping_layer (\<lambda>_ _. None))) = Inr l \<and> l_segments l = [empty_mapping]"
  using open_sealed_file [OF sample_hts, of 1 "replicate 512 7" "[empty_mapping]" "\<lambda>_ _. None" "[]" None None "[empty_mapping]"]
  by (auto simp: layer_open_def empty_mapping_layer_def warp_layout_def sample_defs empty_mapping_def)

text \<open>C31: The checks of \<open>LsmtLayer::open\<close> reject empty mappings only in Hybrid and warp layers. A
  plain layer file with one empty zeroed mapping opens, and merging its index over a lower layer
  yields an index that is neither sorted nor disjoint: the mapping behind position 1 ends before
  the one at position 1 does, so the read loop reaches a mapping that ends before its cursor and
  computes a negative piece length.\<close>

theorem empty_mapping_breaks_merge:
  "\<exists>l idx. layer_open (Some (local_file empty_mapping_layer (\<lambda>_ _. None))) = Inr l \<and>
     wf_segs two_mappings \<and> merge_indexes [l_segments l, two_mappings] [] = Inr idx \<and>
     \<not> wf_segs idx \<and> length idx = 4 \<and>
     seg_end (idx ! 2) < seg_end (idx ! 1) \<and> s_offset (idx ! 2) \<le> seg_end (idx ! 1)"
proof -
  obtain l where l: "layer_open (Some (local_file empty_mapping_layer (\<lambda>_ _. None))) = Inr l"
      "l_segments l = [empty_mapping]"
    using empty_mapping_layer_opens by (elim exE conjE)
  let ?idx = "[(two_mappings ! 0)\<lparr>s_tag := 1\<rparr>, (two_mappings ! 1)\<lparr>s_length := 1, s_tag := 1\<rparr>,
     (two_mappings ! 0)\<lparr>s_tag := 1\<rparr>, (two_mappings ! 1)\<lparr>s_tag := 1\<rparr>]"
  have "merge_indexes [l_segments l, two_mappings] [] = Inr ?idx"
    by (simp add: l(2) empty_mapping_def two_mappings_def merge_indexes_def upper_bound_def clip_head_def
        clip_tail_def emit_def coalesces_def seg_end_def seg_mend_def Let_def kMaxOffset_def kMaxRoIndexSize_def)
  moreover have "wf_segs two_mappings" "\<not> wf_segs ?idx" "length ?idx = 4"
    "seg_end (?idx ! 2) < seg_end (?idx ! 1)" "s_offset (?idx ! 2) \<le> seg_end (?idx ! 1)"
    by (simp_all add: two_mappings_def wf_segs_Cons seg_end_def)
  ultimately show ?thesis using l(1) by blast
qed

text \<open>A plain layer file of 1000 bytes virtual size: two whole mappings of one sector, the second one
  reaching behind the end of the image.\<close>

definition odd_file :: bytes where
  "odd_file = sealed_file sample_header (replicate 512 7) sample_segs []
     ((sample_trailer 2)\<lparr>ht_virtual_size := 1000\<rparr>)"

lemma odd_file_opens:
  "\<exists>l. layer_open (Some (local_file odd_file (\<lambda>_ _. None))) = Inr l \<and> l_segments l = sample_segs \<and>
     l_virtual_size l = 1000 \<and> l_src l = local_file odd_file (\<lambda>_ _. None)"
proof -
  let ?t = "(sample_trailer 2)\<lparr>ht_virtual_size := 1000\<rparr>"
  have t: "ht_ok ?t" "is_trailer ?t" "is_data_file ?t" "is_sealed ?t" "\<not> get_flag_bit ?t kFlagShiftHybridRw"
    by (simp_all add: sample_trailer_def ht_ok_def ht_strings_ok_def ht_cstrs_ok_def cstr_ok_def default_ht_def
        is_header_def is_trailer_def is_data_file_def is_sealed_def get_flag_bit_def flag_shifts)
  show ?thesis
    using open_sealed_file [OF sample_hts(1-3) t(1-4) sample_hts(8) t(5), of "replicate 512 7" sample_segs
        "\<lambda>_ _. None" "[]" None None sample_segs]
    by (auto simp: layer_open_def odd_file_def warp_layout_def sample_defs l_virtual_size_def)
qed

lemma div_diff_mult: "(v - a * k) div k = v div k - (a :: nat)" if "0 < k" for k v :: nat
proof (cases "a * k \<le> v")
  case True
  then obtain d where "v = d + a * k" by (metis add.commute le_Suc_ex)
  then show ?thesis using that by simp
next
  case False
  then have "v div k < a" by (simp add: less_mult_imp_div_less)
  then show ?thesis using False by simp
qed

text \<open>C32: The virtual size of a plain layer is not checked to be a multiple of the sector size. For
  a stack whose size is off the sector grid every successful read that reaches the end of the image
  returns the image bytes of the whole sectors and, for the last partial sector, what the
  caller's buffer held before: the partial sector is counted in the result and never written.\<close>

theorem unaligned_size_leaks_buffer:
  assumes "merged_open layers_bottom_up = Inr m"
    and "\<forall>l \<in> set layers_bottom_up. wf_segs (l_segments l)"
    and "list_all2 (\<lambda>l c. blob_source (l_src l) c) (rev layers_bottom_up) contents"
    and "m_vsize m mod kAlignment \<noteq> 0" and "m_vsize m \<le> kMaxOffset * kAlignment"
    and "offset < m_vsize m" and "m_vsize m - offset \<le> count"
    and "merged_pread m buf count offset = Inr bs"
  shows "let whole = m_vsize m div kAlignment * kAlignment - offset in
    bs = get_bytes offset whole (image_bytes (rev layers_bottom_up) contents (m_vsize m)) @
         get_bytes whole (m_vsize m mod kAlignment) buf"
proof -
  let ?f = "image_sector (map l_segments (rev layers_bottom_up)) contents" and ?N = "m_vsize m div kAlignment"
  have st: "source_stack (rev layers_bottom_up) contents"
    using assms(3) by (intro source_stack.intro) (auto simp: list_all2_conv_all_nth)
  have m: "merged_open (rev (rev layers_bottom_up)) = Inr m"
    "\<forall>l \<in> set (rev layers_bottom_up). wf_segs (l_segments l)" using assms(1,2) by simp_all
  have len: "length (?f x) = kAlignment" for x by (simp add: image_sector_def)
  from assms(8) have "offset mod kAlignment = 0" by (auto simp: merged_pread_def split: if_splits)
  then obtain a where a: "offset = a * kAlignment" by (metis mod_0_imp_dvd dvd_def mult.commute)
  have aN: "a \<le> ?N" "?N \<le> kMaxOffset" using assms(5,6) a by (auto simp: kAlignment_def)
  have split: "m_vsize m - offset = (?N - a) * kAlignment + m_vsize m mod kAlignment"
    using aN(1) div_mult_mod_eq [of "m_vsize m" kAlignment] by (simp add: a diff_mult_distrib kAlignment_def)
  have endsec: "a + (m_vsize m - a * 512) div 512 = m_vsize m div 512"
    using aN(1) div_diff_mult [of 512 "m_vsize m" a] by (simp add: kAlignment_def)
  obtain out where out: "pread_loop m ?N a (find_first m a) [] = Inr out"
      "bs = take (m_vsize m - offset) (put_bytes 0 out buf)"
    using assms(6,7,8) endsec by (auto simp: merged_pread_def Let_def a kAlignment_def split: if_splits)
  have "out = sectors ?f a ?N" by (rule source_stack.merged_loop_image [OF st m aN out(1)])
  moreover have "sectors ?f a ?N = get_bytes offset ((?N - a) * kAlignment) (sectors ?f 0 ?N)"
    using image_sectors_get [of ?f kAlignment a "?N - a" ?N, OF len] aN(1) by (simp add: a)
  moreover have "length (sectors ?f a ?N) = (?N - a) * kAlignment"
    using length_sectors [of ?f, OF len] by simp
  ultimately have "bs = get_bytes offset ((?N - a) * kAlignment) (sectors ?f 0 ?N) @
      take (m_vsize m mod kAlignment) (drop ((?N - a) * kAlignment) buf)"
    unfolding out(2) split by (simp add: put_bytes_def)
  moreover have "?N * kAlignment - offset = (?N - a) * kAlignment" by (simp add: a diff_mult_distrib)
  ultimately show ?thesis by (simp only: Let_def image_bytes_def) (simp add: get_bytes_def)
qed

theorem unaligned_size_leaks_buffer_witness:
  "\<exists>l m. layer_open (Some (local_file odd_file (\<lambda>_ _. None))) = Inr l \<and> merged_open [l] = Inr m \<and>
     merged_pread m (replicate 1024 0xAA) 1024 0 =
       Inr (get_bytes 0 512 (image_bytes [l] [odd_file] 1000) @ replicate 488 0xAA)"
proof -
  obtain l where l: "layer_open (Some (local_file odd_file (\<lambda>_ _. None))) = Inr l" "l_segments l = sample_segs"
      "l_virtual_size l = 1000" "l_src l = local_file odd_file (\<lambda>_ _. None)"
    using odd_file_opens by (elim exE conjE)
  have "\<exists>m. merged_open [l] = Inr m \<and> m_vsize m = 1000"
    using l(2,3) by (simp add: merged_open_def sample_segs_def stack_vsize_def kMaxStackLayers_def merge_indexes_def
        upper_bound_def clip_head_def clip_tail_def emit_def coalesces_def seg_end_def seg_mend_def
        Let_def kMaxOffset_def kMaxRoIndexSize_def)
  then obtain m where m: "merged_open [l] = Inr m" "m_vsize m = 1000" by (elim exE conjE)
  have wf: "\<forall>l' \<in> set [l]. wf_segs (l_segments l')" by (simp add: l(2) sample_segs_def wf_segs_Cons seg_end_def)
  have src: "list_all2 (\<lambda>l c. blob_source (l_src l) c) (rev [l]) [odd_file]"
    by (simp add: l(4) lf.blob_source_axioms)
  then have st: "source_stack [l] [odd_file]"
    by (intro source_stack.intro) (auto simp: list_all2_conv_all_nth)
  have "merged_pread m (replicate 1024 0xAA) 1024 0 \<noteq> Inl e" for e
    using source_stack.merged_pread_error [OF st, of m "replicate 1024 0xAA" 1024 0 e] m(1) wf
    by (auto simp: l(4) local_pread_succeeds kAlignment_def)
  then obtain bs where bs: "merged_pread m (replicate 1024 0xAA) 1024 0 = Inr bs"
    by (cases "merged_pread m (replicate 1024 0xAA) 1024 0") auto
  show ?thesis
    using unaligned_size_leaks_buffer [OF m(1) wf src _ _ _ _ bs] l(1) m bs
    by (auto simp: m(2) kAlignment_def kMaxOffset_def Let_def get_bytes_def)
qed

end
