(* ===== verification/LsmtRw.thy ===== *)
theory LsmtRw
  imports LsmtRwMap LsmtRwFile MergedLsmt
begin

text \<open>
  \<open>src/format/lsmt_rw.cpp\<close>: \<open>LsmtRwLayer\<close>, the writable top layer. Its state is the payload file, the
  in-memory index over it, and the file pair that journals every change of ownership. The state
  flags that other threads read are fields like the others: callers serialize the operations.

  The theorems relate the layer to a plain block device: the content of sector \<open>x\<close> is
  \<open>rw_sector st x\<close>; a write changes exactly the sectors it names, a discard makes them zero, and a
  failure at any system call leaves every other sector as it was. Together with that the journal
  keeps replaying to the index.
\<close>

record LsmtRw =
  rw_file :: bytes
  rw_open :: bool
  rw_data_bytes :: nat
  rw_vsize :: nat
  rw_data_end :: nat
  rw_uuid :: bytes
  rw_pair :: "FilePair option"
  rw_journal_failed :: bool
  rw_sealed :: bool
  rw_checkpointed :: bool
  rw_grow_op :: bool
  rw_terminal_op :: bool
  rw_segments :: "segment_mapping list"
  rw_revision :: nat

definition kUnknownRevision :: nat where "kUnknownRevision = U64 - 1"

definition mappings_changed :: "LsmtRw \<Rightarrow> LsmtRw" where
  "mappings_changed st =
     (if rw_revision st \<noteq> kUnknownRevision then st\<lparr>rw_revision := rw_revision st + 1\<rparr> else st)"

definition segments_revision :: "LsmtRw \<Rightarrow> nat option" where
  "segments_revision st = (if rw_revision st = kUnknownRevision then None else Some (rw_revision st))"

section \<open>Mutations\<close>

definition prepare_mutation :: "LsmtRw \<Rightarrow> script \<Rightarrow> errno option \<times> LsmtRw \<times> script" where
  "prepare_mutation st io =
     (if rw_journal_failed st then (Some EIO, st, io)
      else case rw_pair st of
        None \<Rightarrow> (None, st, io)
      | Some fp \<Rightarrow>
          if (fp_index_bytes fp - kSpace) div 16 \<ge> max 4096 (4 * length (rw_segments st))
          then (case compact_sync (rw_segments st) (rw_file st) fp io of
                  (r, fp', io') \<Rightarrow> (r, st\<lparr>rw_pair := Some fp'\<rparr>, io'))
          else (None, st, io))"

text \<open>The payload writes of one piece; the readable extent grows with each of them.\<close>

fun exec_ops :: "bytes \<Rightarrow> nat \<Rightarrow> Op list \<Rightarrow> bytes \<Rightarrow> nat \<Rightarrow> script \<Rightarrow> errno option \<times> bytes \<times> nat \<times> script" where
  "exec_ops src offset [] f db io = (None, f, db, io)"
| "exec_ops src offset (op # ops) f db io =
     (case write_all (get_bytes (op_voff op * kSector - offset) (op_nsector op * kSector) src)
             (op_moff op * kSector) f io of
        (Some e, f', io') \<Rightarrow> (Some e, f', db, io')
      | (None, f', io') \<Rightarrow> exec_ops src offset ops f' (max db ((op_moff op + op_nsector op) * kSector)) io')"

text \<open>Journalling the new ownership of a piece: the error comes with the value \<open>journal_failed_\<close> gets.\<close>

fun publish_ops :: "Op list \<Rightarrow> bool \<Rightarrow> FilePair \<Rightarrow> script \<Rightarrow> (errno \<times> bool) option \<times> FilePair \<times> script" where
  "publish_ops [] published fp io = (None, fp, io)"
| "publish_ops (op # ops) published fp io =
     (if op_inplace op then publish_ops ops published fp io
      else case pair_append (op_seg op) fp io of
        (Some e, fp', io') \<Rightarrow> (Some (e, fp_poisoned fp' \<or> published), fp', io')
      | (None, fp', io') \<Rightarrow> publish_ops ops True fp' io')"

definition pwrite_piece :: "bytes \<Rightarrow> nat \<Rightarrow> nat \<Rightarrow> nat \<Rightarrow> LsmtRw \<Rightarrow> script \<Rightarrow> errno option \<times> LsmtRw \<times> script" where
  "pwrite_piece src offset lo hi st io =
     (let (ops, fin) = plan_ops (rw_segments st) lo hi (rw_data_end st);
          (r, f, db, io) = exec_ops src offset ops (rw_file st) (rw_data_bytes st) io;
          st = st\<lparr>rw_data_end := fin, rw_file := f, rw_data_bytes := db\<rparr>
      in case r of
        Some e \<Rightarrow> (Some e, st, io)
      | None \<Rightarrow>
          if \<forall>op \<in> set ops. op_inplace op then (None, st, io)
          else
            let (p, st, io) = (case rw_pair st of
                  None \<Rightarrow> (None, st, io)
                | Some fp \<Rightarrow> (case publish_ops ops False fp io of
                    (p, fp', io) \<Rightarrow> (p, st\<lparr>rw_pair := Some fp'\<rparr>, io)))
            in case p of
              Some (e, failed) \<Rightarrow> (Some e, st\<lparr>rw_journal_failed := failed\<rparr>, io)
            | None \<Rightarrow> (None, (mappings_changed st)\<lparr>rw_segments := install lo hi (map op_seg ops) (rw_segments st)\<rparr>, io))"

function pwrite_loop :: "bytes \<Rightarrow> nat \<Rightarrow> nat \<Rightarrow> nat \<Rightarrow> LsmtRw \<Rightarrow> script \<Rightarrow> errno option \<times> LsmtRw \<times> script" where
  "pwrite_loop src offset count pos st io =
     (if pos \<ge> count then (None, st, io)
      else
        let piece = min (count - pos) (kMaxSegLen * kSector);
            lo = (offset + pos) div kSector;
            hi = lo + piece div kSector
        in case pwrite_piece src offset lo hi st io of
          (Some e, st, io) \<Rightarrow> (Some e, st, io)
        | (None, st, io) \<Rightarrow> pwrite_loop src offset count (pos + piece) st io)"
  by pat_completeness auto
termination
  by (relation "measure (\<lambda>(src, offset, count, pos, st, io). count - pos)")
    (auto simp: kMaxSegLen_def kMaxLength_def kSector_def)

declare pwrite_loop.simps [simp del]

definition rw_pwrite :: "bytes \<Rightarrow> nat \<Rightarrow> LsmtRw \<Rightarrow> script \<Rightarrow> nat result \<times> LsmtRw \<times> script" where
  "rw_pwrite src offset st io =
     (let count = length src in
      if rw_sealed st \<or> rw_checkpointed st then (Inl EROFS, st, io)
      else if offset mod kSector \<noteq> 0 \<or> count mod kSector \<noteq> 0 \<or> count = 0 then (Inl EINVAL, st, io)
      else if offset > rw_vsize st \<or> count > rw_vsize st - offset then (Inl EINVAL, st, io)
      else case prepare_mutation st io of
        (Some e, st, io) \<Rightarrow> (Inl e, st, io)
      | (None, st, io) \<Rightarrow>
          if \<not> rw_open st then (Inl EBADF, st, io)
          else case pwrite_loop src offset count 0 st io of
            (Some e, st, io) \<Rightarrow> (Inl e, st, io)
          | (None, st, io) \<Rightarrow> (Inr count, st\<lparr>rw_data_bytes := rw_data_end st * kSector\<rparr>, io))"

text \<open>The zeroed mappings of a discard, journalled one by one and staged in the new index.\<close>

definition zero_seg :: "nat \<Rightarrow> nat \<Rightarrow> segment_mapping" where
  "zero_seg cur n = \<lparr>s_offset = cur, s_length = n, s_moffset = kHeaderSectors, s_zeroed = True, s_tag = 0\<rparr>"

function zero_loop :: "nat \<Rightarrow> nat \<Rightarrow> nat \<Rightarrow> segment_mapping list \<Rightarrow> FilePair option \<Rightarrow> script
    \<Rightarrow> (errno \<times> bool) option \<times> segment_mapping list \<times> FilePair option \<times> script" where
  "zero_loop lo hi cur staged pair io =
     (if cur \<ge> hi then (None, staged, pair, io)
      else
        let n = min (hi - cur) kMaxSegLen;
            m = zero_seg cur n
        in case (case pair of
              None \<Rightarrow> (None, None, io)
            | Some fp \<Rightarrow> (case pair_append m fp io of
                (r, fp', io) \<Rightarrow> (map_option (\<lambda>e. (e, fp_poisoned fp' \<or> cur \<noteq> lo)) r, Some fp', io))) of
          (Some e, pair, io) \<Rightarrow> (Some e, staged, pair, io)
        | (None, pair, io) \<Rightarrow> zero_loop lo hi (cur + n) (insert_sorted m staged) pair io)"
  by pat_completeness auto
termination
  by (relation "measure (\<lambda>(lo, hi, cur, staged, pair, io). hi - cur)")
    (auto simp: kMaxSegLen_def kMaxLength_def)

declare zero_loop.simps [simp del]

definition rw_discard :: "nat \<Rightarrow> nat \<Rightarrow> LsmtRw \<Rightarrow> script \<Rightarrow> errno option \<times> LsmtRw \<times> script" where
  "rw_discard offset len st io =
     (if rw_sealed st \<or> rw_checkpointed st then (Some EROFS, st, io)
      else if offset mod kSector \<noteq> 0 \<or> len mod kSector \<noteq> 0 \<or> len = 0 then (Some EINVAL, st, io)
      else if offset > rw_vsize st \<or> len > rw_vsize st - offset then (Some EINVAL, st, io)
      else case prepare_mutation st io of
        (Some e, st, io) \<Rightarrow> (Some e, st, io)
      | (None, st, io) \<Rightarrow>
          let lo = offset div kSector; hi = lo + len div kSector in
          case zero_loop lo hi lo (carve lo hi (rw_segments st)) (rw_pair st) io of
            (Some (e, failed), _, pair, io) \<Rightarrow> (Some e, st\<lparr>rw_pair := pair, rw_journal_failed := failed\<rparr>, io)
          | (None, staged, pair, io) \<Rightarrow>
              (None, (mappings_changed (st\<lparr>rw_pair := pair\<rparr>))\<lparr>rw_segments := staged\<rparr>, io))"

section \<open>Reads\<close>

text \<open>The scan of the index: the last mapping reaching past the sector, and where the next one starts.\<close>

fun scan :: "nat \<Rightarrow> segment_mapping list \<Rightarrow> segment_mapping option \<Rightarrow> nat \<Rightarrow> segment_mapping option \<times> nat" where
  "scan sector [] hit next_start = (hit, next_start)"
| "scan sector (s # ss) hit next_start =
     (if s_offset s > sector then (hit, min next_start (s_offset s * kSector))
      else scan sector ss (if seg_end s > sector then Some s else hit) next_start)"

lemma scan_progress:
  assumes "scan (pos div kSector) ss hit limit = (hit', next_start)" "pos < limit"
    "\<And>s. hit = Some s \<Longrightarrow> pos < seg_end s * kSector"
  shows "pos < next_start" "hit' = Some s \<Longrightarrow> pos < seg_end s * kSector"
proof -
  have le: "pos < k * kSector" if "pos div kSector < k" for k
    using that by (simp add: div_less_iff_less_mult kSector_def)
  have "pos < next_start \<and> (\<forall>s. hit' = Some s \<longrightarrow> pos < seg_end s * kSector)"
    using assms
  proof (induction ss arbitrary: hit)
    case (Cons a ss)
    show ?case
    proof (cases "s_offset a > pos div kSector")
      case True
      then show ?thesis using Cons.prems le [OF True] by auto
    next
      case False
      let ?hit = "if seg_end a > pos div kSector then Some a else hit"
      have "scan (pos div kSector) ss ?hit limit = (hit', next_start)" using Cons.prems(1) False by simp
      moreover have "\<And>s. ?hit = Some s \<Longrightarrow> pos < seg_end s * kSector"
        using Cons.prems(3) le [of "seg_end a"] by (auto split: if_splits)
      ultimately show ?thesis using Cons.IH Cons.prems(2) by blast
    qed
  qed simp
  then show "pos < next_start" "hit' = Some s \<Longrightarrow> pos < seg_end s * kSector" by auto
qed

lemma scan_none: "(None, n) = scan (p div kSector) segs None lim \<Longrightarrow> p < lim \<Longrightarrow> p < n"
  using scan_progress(1) [of p segs None lim None n] by simp

lemma scan_some: "(Some s, n) = scan (p div kSector) segs None lim \<Longrightarrow> p < lim \<Longrightarrow> p < seg_end s * kSector"
  using scan_progress(2) [of p segs None lim "Some s" n s] by simp

function rw_pread_loop :: "segment_mapping list \<Rightarrow> bytes \<Rightarrow> nat \<Rightarrow> nat \<Rightarrow> nat \<Rightarrow> script \<Rightarrow> bytes result \<times> script" where
  "rw_pread_loop segs f count offset pos io =
     (if pos \<ge> count then (Inr [], io)
      else
        let at = offset + pos;
            sector = at div kSector;
            (hit, next_start) = scan sector segs None (offset + count)
        in case hit of
          Some s \<Rightarrow>
            if \<not> s_zeroed s then
              (let n = min (seg_end s * kSector - at) (count - pos) in
               case read_all n ((s_moffset s + (sector - s_offset s)) * kSector) f io of
                 (Inl e, io) \<Rightarrow> (Inl e, io)
               | (Inr bs, io) \<Rightarrow>
                   (case rw_pread_loop segs f count offset (pos + n) io of
                      (Inl e, io) \<Rightarrow> (Inl e, io) | (Inr rest, io) \<Rightarrow> (Inr (bs @ rest), io)))
            else
              (let n = min (seg_end s * kSector - at) (count - pos) in
               case rw_pread_loop segs f count offset (pos + n) io of
                 (Inl e, io) \<Rightarrow> (Inl e, io) | (Inr rest, io) \<Rightarrow> (Inr (zeros n @ rest), io))
        | None \<Rightarrow>
            (let n = min (next_start - at) (count - pos) in
             case rw_pread_loop segs f count offset (pos + n) io of
               (Inl e, io) \<Rightarrow> (Inl e, io) | (Inr rest, io) \<Rightarrow> (Inr (zeros n @ rest), io)))"
  by pat_completeness auto
termination
  by (relation "measure (\<lambda>(segs, f, count, offset, pos, io). count - pos)")
    (auto dest!: scan_none scan_some)

declare rw_pread_loop.simps [simp del]

definition rw_pread :: "LsmtRw \<Rightarrow> nat \<Rightarrow> nat \<Rightarrow> script \<Rightarrow> bytes result \<times> script" where
  "rw_pread st count offset io =
     (if rw_journal_failed st then (Inl EIO, io)
      else if offset mod kSector \<noteq> 0 \<or> count mod kSector \<noteq> 0 then (Inl EINVAL, io)
      else if offset \<ge> rw_vsize st then (Inr [], io)
      else if \<not> rw_open st then (Inl EBADF, io)
      else rw_pread_loop (rw_segments st) (rw_file st) (min count (rw_vsize st - offset)) offset 0 io)"

section \<open>The layer as a block device\<close>

definition rw_sectors :: "LsmtRw \<Rightarrow> nat" where
  "rw_sectors st = rw_vsize st div kSector"

definition rw_sector :: "LsmtRw \<Rightarrow> nat \<Rightarrow> bytes" where
  "rw_sector st x = sector_bytes [rw_file st] (lookup (rw_segments st) x)"

text \<open>What the journal says about a sector, and the content a reopened layer would show.\<close>

definition journal_view :: "LsmtRw \<Rightarrow> nat \<Rightarrow> owner option" where
  "journal_view st x = (case rw_pair st of
     None \<Rightarrow> lookup (rw_segments st) x
   | Some fp \<Rightarrow> log_owner (decode_log (log_bytes fp)) x)"

definition rw_durable :: "LsmtRw \<Rightarrow> nat \<Rightarrow> bytes" where
  "rw_durable st x = sector_bytes [rw_file st] (journal_view st x)"

definition rw_inv :: "LsmtRw \<Rightarrow> bool" where
  "rw_inv st \<longleftrightarrow> wf_segs (rw_segments st) \<and> owns_once (rw_segments st) \<and>
     (\<forall>s \<in> set (rw_segments st). seg_bounded (rw_sectors st) (rw_data_end st) s) \<and>
     (\<forall>x t p. lookup (rw_segments st) x = Some (t, Some p) \<longrightarrow> (p + 1) * kSector \<le> length (rw_file st)) \<and>
     kHeaderSectors \<le> rw_data_end st \<and> rw_vsize st mod kSector = 0 \<and> rw_sectors st \<le> kMaxOffset"

definition journal_inv :: "LsmtRw \<Rightarrow> bool" where
  "journal_inv st \<longleftrightarrow> (case rw_pair st of None \<Rightarrow> True | Some fp \<Rightarrow>
     unat (ht_virtual_size (fp_header fp)) = rw_vsize st \<and>
     (\<exists>r. pair_log (rw_sectors st) (length (rw_file st) div kSector) fp r) \<and>
     (\<not> rw_journal_failed st \<longrightarrow> (\<forall>x. journal_view st x = lookup (rw_segments st) x)))"

text \<open>Every owned payload sector lies inside the extent the data source of the layer shows.\<close>

definition in_view :: "LsmtRw \<Rightarrow> bool" where
  "in_view st \<longleftrightarrow> (\<forall>x t p. lookup (rw_segments st) x = Some (t, Some p) \<longrightarrow> (p + 1) * kSector \<le> rw_data_bytes st)"

text \<open>What a step does to the index: ownership changes inside \<open>[lo, hi)\<close> only, and an unchanged revision means an unchanged index.\<close>

definition remapped :: "nat \<Rightarrow> nat \<Rightarrow> LsmtRw \<Rightarrow> LsmtRw \<Rightarrow> bool" where
  "remapped lo hi st st' \<longleftrightarrow>
     (\<forall>x. \<not> (lo \<le> x \<and> x < hi) \<longrightarrow> lookup (rw_segments st') x = lookup (rw_segments st) x) \<and>
     rw_revision st \<le> rw_revision st' \<and>
     (rw_revision st' = rw_revision st \<longrightarrow> rw_revision st = kUnknownRevision \<or> rw_segments st' = rw_segments st) \<and>
     (in_view st \<longrightarrow> in_view st')"

text \<open>A step that affects at most the sectors \<open>[lo, hi)\<close>, of the live layer and of what is durable.\<close>

definition confined :: "nat \<Rightarrow> nat \<Rightarrow> LsmtRw \<Rightarrow> LsmtRw \<Rightarrow> bool" where
  "confined lo hi st st' \<longleftrightarrow> rw_inv st' \<and> journal_inv st' \<and> rw_vsize st' = rw_vsize st \<and>
     rw_open st' = rw_open st \<and> rw_sealed st' = rw_sealed st \<and> rw_checkpointed st' = rw_checkpointed st \<and>
     (\<forall>x. \<not> (lo \<le> x \<and> x < hi) \<longrightarrow> rw_sector st' x = rw_sector st x \<and> rw_durable st' x = rw_durable st x) \<and>
     remapped lo hi st st'"

lemma remapped_same:
  "rw_segments st' = rw_segments st \<Longrightarrow> rw_revision st' = rw_revision st \<Longrightarrow> rw_data_bytes st \<le> rw_data_bytes st' \<Longrightarrow> remapped lo hi st st'"
  unfolding remapped_def in_view_def by (auto dest: order_trans)

lemma remapped_refl [simp]: "remapped lo hi st st"
  by (rule remapped_same) simp_all

lemma remapped_mono:
  assumes "remapped lo hi st st'" "lo' \<le> lo" "hi \<le> hi'"
  shows "remapped lo' hi' st st'"
proof -
  have "\<not> (lo \<le> x \<and> x < hi)" if "\<not> (lo' \<le> x \<and> x < hi')" for x using assms(2,3) that by auto
  then show ?thesis using assms(1) unfolding remapped_def by blast
qed

lemma remapped_trans:
  assumes "remapped lo hi st st1" "remapped lo hi st1 st2"
  shows "remapped lo hi st st2"
  using assms unfolding remapped_def by auto

lemma confined_trans:
  assumes "confined lo mid st st1" "confined mid hi st1 st2" "lo \<le> mid" "mid \<le> hi"
  shows "confined lo hi st st2"
proof -
  have "remapped lo hi st st1" "remapped lo hi st1 st2"
    using assms remapped_mono [of lo mid st st1 lo hi] remapped_mono [of mid hi st1 st2 lo hi] by (auto simp: confined_def)
  then have "remapped lo hi st st2" by (rule remapped_trans)
  then show ?thesis using assms unfolding confined_def by auto
qed

lemma pair_log_owner:
  assumes "pair_log V n fp r"
  shows "log_owner (decode_log (log_bytes fp)) x = lookup (r_live r) x"
  using replay_loop_correct [OF replay_from_inv, of V n "log_bytes fp" r x] assms
  by (simp add: pair_log_def log_owner_def replay_from_def)

lemma journal_agrees:
  assumes "journal_inv st" "\<not> rw_journal_failed st"
  shows "rw_durable st x = rw_sector st x"
  using assms by (auto simp: journal_inv_def rw_durable_def rw_sector_def journal_view_def split: option.splits)

section \<open>Payload writes\<close>

lemma sector_padded:
  assumes "(p + 1) * kSector \<le> length f"
  shows "sector_bytes [f] (Some (0, Some p)) = get_bytes (p * kSector) kSector f"
  using assms by (simp add: sector_bytes_def padded_get length_get_bytes kAlignment_def kSector_def)

lemma exec_ops_frame:
  assumes "exec_ops src offset ops f db io = (r, f', db', io')"
  shows "length f \<le> length f'" "db \<le> db'"
    "(p + 1) * kSector \<le> length f \<Longrightarrow> \<forall>op \<in> set ops. p < op_moff op \<or> op_moff op + op_nsector op \<le> p \<Longrightarrow>
       get_bytes (p * kSector) kSector f' = get_bytes (p * kSector) kSector f"
proof -
  have "length f \<le> length f' \<and> db \<le> db' \<and>
    ((p + 1) * kSector \<le> length f \<longrightarrow> (\<forall>op \<in> set ops. p < op_moff op \<or> op_moff op + op_nsector op \<le> p) \<longrightarrow>
       get_bytes (p * kSector) kSector f' = get_bytes (p * kSector) kSector f)"
    using assms
  proof (induction ops arbitrary: f db io)
    case (Cons op ops)
    let ?bs = "get_bytes (op_voff op * kSector - offset) (op_nsector op * kSector) src"
    have frame: "get_bytes (p * kSector) kSector (file_write (op_moff op * kSector) bs f) = get_bytes (p * kSector) kSector f"
      if "(p + 1) * kSector \<le> length f" "p < op_moff op \<or> op_moff op + op_nsector op \<le> p"
        "length bs \<le> op_nsector op * kSector" for bs
    proof (rule get_file_write_outside)
      show "p * kSector + kSector \<le> length f" using that(1) by simp
      have "(p + 1) * kSector \<le> op_moff op * kSector \<or> (op_moff op + op_nsector op) * kSector \<le> p * kSector"
        using that(2) by (metis Suc_eq_plus1 Suc_leI mult_le_mono1)
      then show "p * kSector + kSector \<le> op_moff op * kSector \<or> op_moff op * kSector + length bs \<le> p * kSector"
        using that(3) by (auto simp: add_mult_distrib)
    qed
    have len: "length (take n ?bs) \<le> op_nsector op * kSector" "length ?bs \<le> op_nsector op * kSector" for n
      by (auto simp: get_bytes_def)
    show ?case
    proof (rule write_all_cases [of ?bs "op_moff op * kSector" f io])
      assume w: "write_all ?bs (op_moff op * kSector) f io = (None, file_write (op_moff op * kSector) ?bs f, tl io)"
      let ?f = "file_write (op_moff op * kSector) ?bs f"
      have "exec_ops src offset ops ?f (max db ((op_moff op + op_nsector op) * kSector)) (tl io) = (r, f', db', io')"
        using Cons.prems w by simp
      from Cons.IH [OF this] frame [of ?bs] len file_write_length_ge [of f "op_moff op * kSector" ?bs]
      show ?thesis by (auto intro: order_trans)
    next
      fix e n assume w: "write_all ?bs (op_moff op * kSector) f io =
          (Some e, file_write (op_moff op * kSector) (take n ?bs) f, tl io)"
      then have "f' = file_write (op_moff op * kSector) (take n ?bs) f" "db' = db" using Cons.prems by auto
      then show ?thesis using frame [of "take n ?bs"] len file_write_length_ge by auto
    qed
  qed simp
  then show "length f \<le> length f'" "db \<le> db'"
    "(p + 1) * kSector \<le> length f \<Longrightarrow> \<forall>op \<in> set ops. p < op_moff op \<or> op_moff op + op_nsector op \<le> p \<Longrightarrow>
       get_bytes (p * kSector) kSector f' = get_bytes (p * kSector) kSector f" by auto
qed

lemma exec_ops_extent:
  "exec_ops src offset ops f db io = (r, f', db', io') \<Longrightarrow> db \<le> db'"
  "exec_ops src offset ops f db io = (None, f', db', io') \<Longrightarrow> op \<in> set ops \<Longrightarrow> (op_moff op + op_nsector op) * kSector \<le> db'"
proof -
  show le: "db \<le> db'" if "exec_ops src offset ops f db io = (r, f', db', io')" for ops f db io r f' db' io'
    using that by (induction ops arbitrary: f db io) (fastforce split: prod.splits option.splits)+
  show "(op_moff op + op_nsector op) * kSector \<le> db'"
    if "exec_ops src offset ops f db io = (None, f', db', io')" "op \<in> set ops"
    using that
  proof (induction ops arbitrary: f db io)
    case (Cons a ops)
    obtain f1 io1 where rest: "exec_ops src offset ops f1 (max db ((op_moff a + op_nsector a) * kSector)) io1 = (None, f', db', io')"
      using Cons.prems(1) by (auto split: prod.splits option.splits)
    show ?case using le [OF rest] Cons.IH [OF rest] Cons.prems(2) by auto
  qed simp
qed

lemma exec_ops_done:
  assumes "exec_ops src offset ops f db io = (None, f', db', io')"
    "sorted_wrt (\<lambda>a b. op_moff a + op_nsector a \<le> op_moff b \<or> op_moff b + op_nsector b \<le> op_moff a) ops"
    "\<forall>op \<in> set ops. offset \<le> op_voff op * kSector \<and> (op_voff op + op_nsector op) * kSector \<le> offset + length src"
    "op \<in> set ops" "i < op_nsector op"
  shows "(op_moff op + i + 1) * kSector \<le> length f' \<and>
    get_bytes ((op_moff op + i) * kSector) kSector f' = get_bytes ((op_voff op + i) * kSector - offset) kSector src"
  using assms
proof (induction ops arbitrary: f db io)
  case (Cons a ops)
  let ?bs = "get_bytes (op_voff a * kSector - offset) (op_nsector a * kSector) src"
  let ?f = "file_write (op_moff a * kSector) ?bs f"
  have rest: "exec_ops src offset ops ?f (max db ((op_moff a + op_nsector a) * kSector)) (tl io) = (None, f', db', io')"
    using Cons.prems(1) by (rule_tac write_all_cases [of ?bs "op_moff a * kSector" f io]) auto
  show ?case
  proof (cases "op \<in> set ops")
    case True
    then show ?thesis using Cons.IH [OF rest] Cons.prems by auto
  next
    case False
    then have op: "op = a" using Cons.prems(4) by simp
    have range: "offset \<le> op_voff a * kSector" "(op_voff a + op_nsector a) * kSector \<le> offset + length src"
      using Cons.prems(3) by auto
    have len: "length ?bs = op_nsector a * kSector"
      using range by (intro length_get_bytes) (simp add: add_mult_distrib)
    have inside: "(i + 1) * kSector \<le> op_nsector a * kSector" using Cons.prems(5) op by (intro mult_le_mono1) simp
    have "(op_moff a + op_nsector a) * kSector \<le> length ?f"
      using len inside by (auto simp: length_file_write add_mult_distrib kSector_def)
    then have there: "(op_moff a + i + 1) * kSector \<le> length ?f"
      using inside by (simp add: add_mult_distrib)
    have "get_bytes ((op_moff a + i) * kSector) kSector ?f = get_bytes (i * kSector) kSector ?bs"
      using inside len by (subst get_file_write_inside) (auto simp: add_mult_distrib)
    also have "\<dots> = get_bytes ((op_voff a + i) * kSector - offset) kSector src"
      using inside range(1) by (simp add: get_get_bytes add_mult_distrib)
    finally have "get_bytes ((op_moff a + i) * kSector) kSector ?f = get_bytes ((op_voff a + i) * kSector - offset) kSector src" .
    moreover have "\<forall>b \<in> set ops. op_moff a + i < op_moff b \<or> op_moff b + op_nsector b \<le> op_moff a + i"
      using Cons.prems(2,5) op by fastforce
    ultimately show ?thesis
      using exec_ops_frame(3) [OF rest there] exec_ops_frame(1) [OF rest] there op by auto
  qed
qed simp

section \<open>One piece of a write\<close>

lemma fresh_tiles: "tiles lo hi ops \<Longrightarrow> fresh fin fin' ops \<Longrightarrow> fin' + lo \<le> fin + hi"
proof (induction ops arbitrary: lo fin)
  case (Cons a ops)
  have t: "tiles (lo + op_nsector a) hi ops" using Cons.prems(1) by simp
  have "fresh (if op_inplace a then fin else fin + op_nsector a) fin' ops"
    using Cons.prems(2) by (auto split: if_splits)
  from Cons.IH [OF t this] show ?case by (auto split: if_splits)
qed simp

lemma reused_payload:
  assumes "tiles lo hi ops" "\<forall>op \<in> set ops. reuses segs op" "\<forall>s \<in> set segs. seg_bounded V E s" "op \<in> set ops" "op_inplace op"
  shows "kHeaderSectors \<le> op_moff op \<and> op_moff op + op_nsector op \<le> E"
proof -
  have pos: "0 < op_nsector op" using tiles_segs(3) [OF assms(1,4)] by simp
  have "kHeaderSectors \<le> op_moff op + i \<and> op_moff op + i < E" if "i < op_nsector op" for i
  proof -
    have "data_at segs (op_voff op + i) = Some (op_moff op + i)"
      using assms(2,4,5) that by (simp add: reuses_def covers_def place_def)
    then show ?thesis using data_atD bounded_lookup(3) [OF assms(3)] by blast
  qed
  from this [of 0] this [of "op_nsector op - 1"] pos show ?thesis by auto
qed

lemma plan_index:
  assumes inv: "rw_inv st" and plan: "plan_ops (rw_segments st) lo hi (rw_data_end st) = (ops, fin)"
    and range: "lo < hi" "hi \<le> rw_sectors st" "hi - lo \<le> kMaxSegLen"
  defines "v \<equiv> install lo hi (map op_seg ops) (rw_segments st)"
  shows "rw_data_end st \<le> fin" "fin \<le> rw_data_end st + (hi - lo)"
    "\<forall>op \<in> set ops. seg_bounded (rw_sectors st) fin (op_seg op)"
    "wf_segs v" "owns_once v" "\<forall>s \<in> set v. seg_bounded (rw_sectors st) fin s"
    "lookup v x = (if lo \<le> x \<and> x < hi then lookup (map op_seg ops) x else lookup (rw_segments st) x)"
proof -
  let ?segs = "rw_segments st" and ?V = "rw_sectors st" and ?E = "rw_data_end st"
  have wf: "wf_segs ?segs" and b: "\<forall>s \<in> set ?segs. seg_bounded ?V ?E s" and once: "owns_once ?segs"
    and E: "kHeaderSectors \<le> ?E" using inv by (auto simp: rw_inv_def)
  note p = plan_ops_correct [OF wf range(1) plan]
  show le: "?E \<le> fin" by (rule fresh_le [OF p(2)])
  show "fin \<le> ?E + (hi - lo)" using fresh_tiles [OF p(1,2)] range(1) by simp
  show ops: "\<forall>op \<in> set ops. seg_bounded ?V fin (op_seg op)"
  proof
    fix op assume op: "op \<in> set ops"
    have "kHeaderSectors \<le> op_moff op \<and> op_moff op + op_nsector op \<le> fin"
      using reused_payload [OF p(1,3) b op] fresh_range [OF p(2) op] E le by (cases "op_inplace op") auto
    then show "seg_bounded ?V fin (op_seg op)"
      using tiles_segs(3) [OF p(1) op] range by (auto simp: seg_bounded_def)
  qed
  have b': "\<forall>s \<in> set ?segs. seg_bounded ?V fin s" using b le seg_bounded_mono by blast
  have ops': "\<forall>s \<in> set (map op_seg ops). seg_bounded ?V fin s" using ops by simp
  have "\<forall>s \<in> set (map op_seg ops). lo \<le> s_offset s \<and> seg_end s \<le> hi"
    using tiles_segs(3) [OF p(1)] by auto
  note i = install_correct [OF wf range(1) tiles_segs(1) [OF p(1)] b' ops' this, folded v_def]
  show "wf_segs v" "\<forall>s \<in> set v. seg_bounded ?V fin s" by (rule i)+
  show "lookup v x = (if lo \<le> x \<and> x < hi then lookup (map op_seg ops) x else lookup ?segs x)" by (rule i)
  show "owns_once v" by (rule write_owns_once [OF wf range(1) b p once]) (rule i)
qed

lemma planned_targets:
  assumes "tiles lo hi ops" "owns_once v"
    "\<And>x. lookup v x = (if lo \<le> x \<and> x < hi then lookup (map op_seg ops) x else lookup segs x)"
  shows "sorted_wrt (\<lambda>a b. op_moff a + op_nsector a \<le> op_moff b \<or> op_moff b + op_nsector b \<le> op_moff a) ops"
    "\<not> (lo \<le> x \<and> x < hi) \<Longrightarrow> lookup segs x = Some (t, Some p) \<Longrightarrow>
      \<forall>op \<in> set ops. p < op_moff op \<or> op_moff op + op_nsector op \<le> p"
proof -
  have wf: "wf_segs (map op_seg ops)" by (rule tiles_segs(1) [OF assms(1)])
  have in_range: "lo \<le> x \<and> x < hi" if "lookup (map op_seg ops) x = Some w" for x w
    using lookup_SomeD [OF that] tiles_segs(2) [OF assms(1), of x] by auto
  have "owns_once (map op_seg ops)"
    unfolding owns_once_def
  proof (intro allI impI)
    fix x y t u p
    assume l: "lookup (map op_seg ops) x = Some (t, Some p)" "lookup (map op_seg ops) y = Some (u, Some p)"
    then have "lookup v x = Some (t, Some p)" "lookup v y = Some (u, Some p)"
      using assms(3) in_range [OF l(1)] in_range [OF l(2)] by simp_all
    then show "x = y" using assms(2) unfolding owns_once_def by blast
  qed
  then have d: "\<forall>s \<in> set (map op_seg ops). \<forall>t \<in> set (map op_seg ops). s \<noteq> t \<longrightarrow> \<not> s_zeroed s \<longrightarrow> \<not> s_zeroed t \<longrightarrow>
      seg_mend s \<le> s_moffset t \<or> seg_mend t \<le> s_moffset s"
    using owns_once_disjoint [OF wf] by blast
  have "distinct (map op_seg ops)" by (rule wf_segs_distinct [OF wf])
  then show "sorted_wrt (\<lambda>a b. op_moff a + op_nsector a \<le> op_moff b \<or> op_moff b + op_nsector b \<le> op_moff a) ops"
    using d
  proof (induction ops)
    case (Cons a ops)
    have "op_moff a + op_nsector a \<le> op_moff b \<or> op_moff b + op_nsector b \<le> op_moff a" if "b \<in> set ops" for b
    proof -
      have "op_seg a \<noteq> op_seg b" using Cons.prems(1) that by auto
      then show ?thesis using Cons.prems(2) that by fastforce
    qed
    then show ?case using Cons by auto
  qed simp
  show "\<forall>op \<in> set ops. p < op_moff op \<or> op_moff op + op_nsector op \<le> p"
    if x: "\<not> (lo \<le> x \<and> x < hi)" "lookup segs x = Some (t, Some p)"
  proof (rule ccontr)
    assume "\<not> ?thesis"
    then obtain op where op: "op \<in> set ops" "op_moff op \<le> p" "p < op_moff op + op_nsector op"
      by (auto simp: not_less not_le)
    let ?y = "op_voff op + (p - op_moff op)"
    have c: "covers (op_seg op) ?y" using op by (auto simp: covers_def)
    have "lookup (map op_seg ops) ?y = Some (0, Some p)" using lookup_ops [OF assms(1) op(1) c] op(2) by simp
    moreover have "lo \<le> ?y \<and> ?y < hi" using tiles_segs(2) [OF assms(1), of ?y] op(1) c by blast
    ultimately have "lookup v ?y = Some (0, Some p)" "lookup v x = Some (t, Some p)" using assms(3) x by auto
    then have "x = ?y" using assms(2) unfolding owns_once_def by blast
    then show False using x(1) \<open>lo \<le> ?y \<and> ?y < hi\<close> by simp
  qed
qed

lemma exec_plan:
  assumes inv: "rw_inv st" and plan: "plan_ops (rw_segments st) lo hi (rw_data_end st) = (ops, fin)"
    and range: "lo < hi" "hi \<le> rw_sectors st" "hi - lo \<le> kMaxSegLen"
    and src: "offset \<le> lo * kSector" "hi * kSector \<le> offset + length src"
    and run: "exec_ops src offset ops (rw_file st) db io = (r, f, db', io')"
  shows "length (rw_file st) \<le> length f"
    "\<not> (lo \<le> x \<and> x < hi) \<Longrightarrow>
       sector_bytes [f] (lookup (rw_segments st) x) = sector_bytes [rw_file st] (lookup (rw_segments st) x)"
    "r = None \<Longrightarrow> lo \<le> x \<Longrightarrow> x < hi \<Longrightarrow> \<exists>p. lookup (map op_seg ops) x = Some (0, Some p) \<and>
       (p + 1) * kSector \<le> length f \<and> sector_bytes [f] (Some (0, Some p)) = get_bytes (x * kSector - offset) kSector src"
    "r = None \<Longrightarrow> op \<in> set ops \<Longrightarrow> op_moff op + op_nsector op \<le> length f div kSector"
proof -
  let ?segs = "rw_segments st" and ?v = "install lo hi (map op_seg ops) (rw_segments st)"
  have wf: "wf_segs ?segs" and b: "\<forall>s \<in> set ?segs. seg_bounded (rw_sectors st) (rw_data_end st) s"
    and payload: "\<And>x t p. lookup ?segs x = Some (t, Some p) \<Longrightarrow> (p + 1) * kSector \<le> length (rw_file st)"
    using inv by (auto simp: rw_inv_def)
  note p = plan_ops_correct [OF wf range(1) plan]
  note idx = plan_index [OF inv plan range]
  note tg = planned_targets [OF p(1) idx(5) idx(7)]
  show len: "length (rw_file st) \<le> length f" by (rule exec_ops_frame(1) [OF run])
  show "sector_bytes [f] (lookup ?segs x) = sector_bytes [rw_file st] (lookup ?segs x)" if x: "\<not> (lo \<le> x \<and> x < hi)"
  proof (cases "\<exists>t q. lookup ?segs x = Some (t, Some q)")
    case True
    then obtain t q where l: "lookup ?segs x = Some (t, Some q)" by blast
    then have "t = 0" using bounded_lookup(1) [OF b] by blast
    moreover have "get_bytes (q * kSector) kSector f = get_bytes (q * kSector) kSector (rw_file st)"
      by (rule exec_ops_frame(3) [OF run payload [OF l] tg(2) [OF x l]])
    ultimately show ?thesis using payload [OF l] len l by (simp add: sector_padded)
  next
    case False
    then show ?thesis by (auto simp: sector_bytes_def split: option.splits)
  qed
  have slices: "\<forall>op \<in> set ops. offset \<le> op_voff op * kSector \<and> (op_voff op + op_nsector op) * kSector \<le> offset + length src"
  proof
    fix op assume "op \<in> set ops"
    then have "lo * kSector \<le> op_voff op * kSector" "(op_voff op + op_nsector op) * kSector \<le> hi * kSector"
      using tiles_segs(3) [OF p(1)] by (auto intro: mult_le_mono1)
    then show "offset \<le> op_voff op * kSector \<and> (op_voff op + op_nsector op) * kSector \<le> offset + length src"
      using src by linarith
  qed
  show "\<exists>q. lookup (map op_seg ops) x = Some (0, Some q) \<and>
       (q + 1) * kSector \<le> length f \<and> sector_bytes [f] (Some (0, Some q)) = get_bytes (x * kSector - offset) kSector src"
    if r: "r = None" and x: "lo \<le> x" "x < hi"
  proof -
    obtain op where op: "op \<in> set ops" "covers (op_seg op) x" using tiles_segs(2) [OF p(1)] x by blast
    have i: "x - op_voff op < op_nsector op" "op_voff op + (x - op_voff op) = x" using op(2) by (auto simp: covers_def)
    from exec_ops_done [OF run [unfolded r] tg(1) slices op(1) i(1)] i(2) lookup_ops [OF p(1) op]
    show ?thesis by (intro exI [of _ "op_moff op + (x - op_voff op)"]) (simp add: sector_padded)
  qed
  show "op_moff op + op_nsector op \<le> length f div kSector" if r: "r = None" and op: "op \<in> set ops"
  proof -
    have pos: "0 < op_nsector op" using tiles_segs(3) [OF p(1) op] by simp
    have "(op_moff op + (op_nsector op - 1) + 1) * kSector \<le> length f"
      using exec_ops_done [OF run [unfolded r] tg(1) slices op, of "op_nsector op - 1"] pos by simp
    then show ?thesis using pos by (simp add: less_eq_div_iff_mult_less_eq kSector_def)
  qed
qed

text \<open>The journal records of a piece.\<close>

lemma pair_append_header:
  "pair_append m fp io = (r, fp', io') \<Longrightarrow> fp_header fp' = fp_header fp"
  by (auto simp: pair_append_def Let_def split: if_splits prod.splits option.splits)

lemma pair_append_step:
  assumes "pair_append m fp io = (None, fp', io')" "pair_log V n fp r" "record_ok V n m"
  obtains r' where "pair_log V n fp' r'"
    "\<And>x. lookup (r_live r') x = (if covers m x then Some (0, place m x) else lookup (r_live r) x)"
proof -
  have "wf_segs (r_live r)" using pair_log_inv(1) [OF assms(2)] by (simp add: replay_inv_def)
  moreover have "0 < s_length m" "s_tag m = 0" using assms(3) by (auto simp: record_ok_def)
  ultimately show ?thesis
    using that [OF pair_append_published(1) [OF assms]] map_replace_correct(2) by simp
qed

lemma publish_ops_log:
  assumes "publish_ops ops published fp io = (res, fp', io')" "pair_log V n fp r" "tiles lo hi ops"
    "\<forall>op \<in> set ops. \<not> op_inplace op \<longrightarrow> record_ok V n (op_seg op)"
  shows "fp_header fp' = fp_header fp \<and> (\<forall>e. res = Some (e, False) \<longrightarrow> \<not> published \<and> fp' = fp) \<and>
    (\<exists>r'. pair_log V n fp' r' \<and> (\<forall>x. \<not> (lo \<le> x \<and> x < hi) \<longrightarrow> lookup (r_live r') x = lookup (r_live r) x) \<and>
      (res = None \<longrightarrow> (\<forall>x. lookup (r_live r') x =
         (case lookup (map op_seg (filter (\<lambda>op. \<not> op_inplace op) ops)) x of Some w \<Rightarrow> Some w | None \<Rightarrow> lookup (r_live r) x))))"
  using assms
proof (induction ops arbitrary: lo published fp io r)
  case Nil
  then show ?case by auto
next
  case (Cons op ops)
  have op: "op_voff op = lo" "0 < op_nsector op" and t: "tiles (lo + op_nsector op) hi ops" using Cons.prems(3) by auto
  have le: "lo + op_nsector op \<le> hi" by (rule tiles_le [OF t])
  have none: "lookup (map op_seg (filter (\<lambda>op. \<not> op_inplace op) ops)) x = None" if "covers (op_seg op) x" for x
    using that op tiles_segs(3) [OF t] by (intro lookup_below) (fastforce simp: covers_def)
  show ?case
  proof (cases "op_inplace op")
    case True
    then have run: "publish_ops ops published fp io = (res, fp', io')" using Cons.prems(1) by simp
    have new: "filter (\<lambda>op. \<not> op_inplace op) (op # ops) = filter (\<lambda>op. \<not> op_inplace op) ops" using True by simp
    have ok: "\<forall>op \<in> set ops. \<not> op_inplace op \<longrightarrow> record_ok V n (op_seg op)" using Cons.prems(4) by simp
    note IH = Cons.IH [OF run Cons.prems(2) t ok]
    have "\<not> (lo + op_nsector op \<le> x \<and> x < hi)" if "\<not> (lo \<le> x \<and> x < hi)" for x using that by simp
    then show ?thesis unfolding new using IH by meson
  next
    case False
    then have ok: "record_ok V n (op_seg op)" using Cons.prems(4) by simp
    obtain a fp1 io1 where ap: "pair_append (op_seg op) fp io = (a, fp1, io1)" by (cases "pair_append (op_seg op) fp io")
    show ?thesis
    proof (cases a)
      case (Some e)
      then have r: "res = Some (e, fp_poisoned fp1 \<or> published)" "fp' = fp1" using Cons.prems(1) False ap by auto
      note f = pair_append_failed [OF ap [unfolded Some] Cons.prems(2)]
      show ?thesis
      proof (intro conjI)
        show "fp_header fp' = fp_header fp" using pair_append_header [OF ap] r by simp
        show "\<forall>e. res = Some (e, False) \<longrightarrow> \<not> published \<and> fp' = fp" using f r by auto
        have "pair_log V n fp' r" "res \<noteq> None" using f r by auto
        then show "\<exists>r'. pair_log V n fp' r' \<and> (\<forall>x. \<not> (lo \<le> x \<and> x < hi) \<longrightarrow> lookup (r_live r') x = lookup (r_live r) x) \<and>
          (res = None \<longrightarrow> (\<forall>x. lookup (r_live r') x =
            (case lookup (map op_seg (filter (\<lambda>op. \<not> op_inplace op) (op # ops))) x of Some w \<Rightarrow> Some w | None \<Rightarrow> lookup (r_live r) x)))"
          by blast
      qed
    next
      case None
      obtain r1 where r1: "pair_log V n fp1 r1"
        "\<And>x. lookup (r_live r1) x = (if covers (op_seg op) x then Some (0, place (op_seg op) x) else lookup (r_live r) x)"
        using pair_append_step [OF ap [unfolded None] Cons.prems(2) ok] by blast
      have run: "publish_ops ops True fp1 io1 = (res, fp', io')" using Cons.prems(1) False ap None by simp
      have IH: "fp_header fp' = fp_header fp1 \<and> (\<forall>e. res = Some (e, False) \<longrightarrow> \<not> True \<and> fp' = fp1) \<and>
        (\<exists>r'. pair_log V n fp' r' \<and>
          (\<forall>x. \<not> (lo + op_nsector op \<le> x \<and> x < hi) \<longrightarrow> lookup (r_live r') x = lookup (r_live r1) x) \<and>
          (res = None \<longrightarrow> (\<forall>x. lookup (r_live r') x =
            (case lookup (map op_seg (filter (\<lambda>op. \<not> op_inplace op) ops)) x of Some w \<Rightarrow> Some w | None \<Rightarrow> lookup (r_live r1) x))))"
        using Cons.prems(4) by (intro Cons.IH [OF run r1(1) t]) simp
      then obtain r' where r': "pair_log V n fp' r'"
        "\<forall>x. \<not> (lo + op_nsector op \<le> x \<and> x < hi) \<longrightarrow> lookup (r_live r') x = lookup (r_live r1) x"
        "res = None \<longrightarrow> (\<forall>x. lookup (r_live r') x =
            (case lookup (map op_seg (filter (\<lambda>op. \<not> op_inplace op) ops)) x of Some w \<Rightarrow> Some w | None \<Rightarrow> lookup (r_live r1) x))"
        by blast
      have out: "\<not> covers (op_seg op) x \<and> \<not> (lo + op_nsector op \<le> x \<and> x < hi)" if "\<not> (lo \<le> x \<and> x < hi)" for x
        using that op le by (auto simp: covers_def)
      have "\<forall>x. \<not> (lo \<le> x \<and> x < hi) \<longrightarrow> lookup (r_live r') x = lookup (r_live r) x"
        using r'(2) r1(2) out by simp
      moreover have "res = None \<longrightarrow> (\<forall>x. lookup (r_live r') x =
         (case lookup (map op_seg (filter (\<lambda>op. \<not> op_inplace op) (op # ops))) x of Some w \<Rightarrow> Some w | None \<Rightarrow> lookup (r_live r) x))"
      proof (intro impI allI)
        fix x assume "res = None"
        then have "lookup (r_live r') x = (case lookup (map op_seg (filter (\<lambda>op. \<not> op_inplace op) ops)) x of
            Some w \<Rightarrow> Some w | None \<Rightarrow> lookup (r_live r1) x)" using r'(3) by blast
        then show "lookup (r_live r') x =
            (case lookup (map op_seg (filter (\<lambda>op. \<not> op_inplace op) (op # ops))) x of Some w \<Rightarrow> Some w | None \<Rightarrow> lookup (r_live r) x)"
          using none [of x] r1(2) [of x] False by (cases "covers (op_seg op) x") (simp_all cong: option.case_cong)
      qed
      moreover have "fp_header fp' = fp_header fp" "\<forall>e. res = Some (e, False) \<longrightarrow> \<not> published \<and> fp' = fp"
        using IH pair_append_header [OF ap] by auto
      ultimately show ?thesis using r'(1) by blast
    qed
  qed
qed

lemma published_lookup:
  assumes "tiles lo hi ops" "\<forall>op \<in> set ops. reuses segs op" "\<forall>s \<in> set segs. seg_bounded V E s"
  shows "(case lookup (map op_seg (filter (\<lambda>op. \<not> op_inplace op) ops)) x of Some w \<Rightarrow> Some w | None \<Rightarrow> lookup segs x) =
    (if lo \<le> x \<and> x < hi then lookup (map op_seg ops) x else lookup segs x)"
proof (cases "lo \<le> x \<and> x < hi")
  case False
  then have "lookup (map op_seg (filter (\<lambda>op. \<not> op_inplace op) ops)) x = None"
    using tiles_segs(2) [OF assms(1), of x] by (auto simp: lookup_None_iff)
  then show ?thesis using False by auto
next
  case True
  then obtain op where op: "op \<in> set ops" "covers (op_seg op) x"
    "lookup (map op_seg ops) x = Some (0, Some (op_moff op + (x - op_voff op)))"
    "op_inplace op \<Longrightarrow> data_at segs x = Some (op_moff op + (x - op_voff op))"
    using written_lookup [OF assms(1,2)] by blast
  let ?new = "filter (\<lambda>op. \<not> op_inplace op) ops"
  have wf: "wf_segs (map op_seg ops)" by (rule tiles_segs(1) [OF assms(1)])
  show ?thesis
  proof (cases "op_inplace op")
    case False
    have "wf_segs (map op_seg ?new)"
      using wf by (auto simp: wf_segs_def sorted_wrt_map intro: sorted_wrt_filter)
    then have "lookup (map op_seg ?new) x = Some (0, Some (op_moff op + (x - op_voff op)))"
      using lookup_memI [of "map op_seg ?new" "op_seg op" x] op False by (simp add: place_def)
    then show ?thesis using True op(3) by simp
  next
    case inp: True
    have "\<not> covers (op_seg o') x" if "o' \<in> set ?new" for o'
    proof
      assume "covers (op_seg o') x"
      then have "op_seg o' = op_seg op" using wf_segs_cover_once [OF wf, of "op_seg o'" "op_seg op" x] op that by auto
      then have "covers (op_seg o') x" "reuses segs o'" "reuses segs op"
        using op assms(2) that by auto
      then show False using op(2) that inp by (auto simp: reuses_def place_def)
    qed
    then have "lookup (map op_seg ?new) x = None" by (auto simp: lookup_None_iff)
    moreover have "lookup segs x = Some (0, Some (op_moff op + (x - op_voff op)))"
      using data_atD [OF op(4) [OF inp]] bounded_lookup(1) [OF assms(3)] by blast
    ultimately show ?thesis using True op(3) by simp
  qed
qed

lemma piece_record_ok:
  assumes "seg_bounded V fin (op_seg op)" "V \<le> kMaxOffset" "fin \<le> kMaxMoffset" "op_moff op + op_nsector op \<le> n"
  shows "record_ok V n (op_seg op)"
proof -
  have "op_voff op < kMaxOffset" using assms(1,2) by (auto simp: seg_bounded_def)
  moreover have "op_moff op \<le> kMaxMoffset" using assms(1,3) by (auto simp: seg_bounded_def)
  ultimately show ?thesis
    using assms(1,4) by (auto simp: record_ok_def seg_fits_def seg_bounded_def kInvalidOffset_def kMaxSegLen_def
        kHeaderSectors_def kDataStartSector_def kSpace_def kAlignment_def)
qed

lemma pair_log_grows: "\<exists>r. pair_log V n fp r \<Longrightarrow> n \<le> n' \<Longrightarrow> \<exists>r. pair_log V n' fp r"
  using pair_log_mono by blast

text \<open>The state once the payload of a piece is on disk, whatever its outcome.\<close>

lemma confined_payload:
  assumes inv: "rw_inv st" "journal_inv st" "\<not> rw_journal_failed st"
    and fin: "rw_data_end st \<le> fin" and len: "length (rw_file st) \<le> length f"
    and same: "\<And>x. \<not> (lo \<le> x \<and> x < hi) \<Longrightarrow>
      sector_bytes [f] (lookup (rw_segments st) x) = sector_bytes [rw_file st] (lookup (rw_segments st) x)"
    and db: "rw_data_bytes st \<le> db"
  shows "confined lo hi st (st\<lparr>rw_data_end := fin, rw_file := f, rw_data_bytes := db\<rparr>)"
proof -
  let ?st = "st\<lparr>rw_data_end := fin, rw_file := f, rw_data_bytes := db\<rparr>"
  have V: "rw_sectors ?st = rw_sectors st" by (simp add: rw_sectors_def)
  have "rw_inv ?st"
    using inv(1) fin len seg_bounded_mono [of "rw_sectors st" "rw_data_end st" _ "rw_sectors st" fin] order_trans
    unfolding rw_inv_def V by (simp add: rw_inv_def) blast
  moreover have view: "journal_view ?st x = journal_view st x" for x by (simp add: journal_view_def split: option.splits)
  have "journal_inv ?st"
    using inv(2) pair_log_grows [OF _ div_le_mono [OF len]] unfolding journal_inv_def V view
    by (auto split: option.splits)
  moreover have "rw_durable ?st x = rw_durable st x \<and> rw_sector ?st x = rw_sector st x" if "\<not> (lo \<le> x \<and> x < hi)" for x
    using same [OF that] journal_agrees [OF inv(2,3), of x] inv(2,3)
    by (auto simp: rw_durable_def rw_sector_def view journal_inv_def journal_view_def split: option.splits)
  moreover have "remapped lo hi st ?st" using db by (intro remapped_same) simp_all
  ultimately show ?thesis by (simp add: confined_def)
qed

lemma mappings_changed_simps [simp]:
  "rw_file (mappings_changed st) = rw_file st" "rw_pair (mappings_changed st) = rw_pair st"
  "rw_vsize (mappings_changed st) = rw_vsize st" "rw_data_end (mappings_changed st) = rw_data_end st"
  "rw_segments (mappings_changed st) = rw_segments st" "rw_open (mappings_changed st) = rw_open st"
  "rw_sealed (mappings_changed st) = rw_sealed st" "rw_checkpointed (mappings_changed st) = rw_checkpointed st"
  "rw_journal_failed (mappings_changed st) = rw_journal_failed st" "rw_data_bytes (mappings_changed st) = rw_data_bytes st"
  by (simp_all add: mappings_changed_def)

lemma journal_replay:
  assumes "journal_inv st" "\<not> rw_journal_failed st" "rw_pair st = Some fp" "length (rw_file st) \<le> m"
  obtains r where "pair_log (rw_sectors st) (m div kSector) fp r" "\<And>x. lookup (r_live r) x = lookup (rw_segments st) x"
proof -
  obtain r0 where "pair_log (rw_sectors st) (length (rw_file st) div kSector) fp r0"
    using assms(1,3) by (auto simp: journal_inv_def)
  then obtain r where r: "pair_log (rw_sectors st) (m div kSector) fp r"
    using pair_log_mono div_le_mono [OF assms(4)] by blast
  have "journal_view st x = lookup (rw_segments st) x" for x using assms(1-3) by (simp add: journal_inv_def)
  then show ?thesis using that [OF r] pair_log_owner [OF r] assms(3) by (simp add: journal_view_def)
qed

text \<open>Giving the sectors of \<open>[lo, hi)\<close> new owners, once the journal has them.\<close>

lemma confined_install:
  assumes c: "confined lo hi st st1" and inv: "rw_inv st" "journal_inv st" "\<not> rw_journal_failed st"
    and same: "rw_segments st1 = rw_segments st" "\<not> rw_journal_failed st1" "length (rw_file st) \<le> length (rw_file st1)"
      "rw_revision st1 = rw_revision st" "rw_data_bytes st \<le> rw_data_bytes st1"
    and v: "wf_segs v" "owns_once v" "\<forall>s \<in> set v. seg_bounded (rw_sectors st) (rw_data_end st1) s"
      "\<And>x. \<not> (lo \<le> x \<and> x < hi) \<Longrightarrow> lookup v x = lookup (rw_segments st) x"
      "\<And>x t p. lo \<le> x \<Longrightarrow> x < hi \<Longrightarrow> lookup v x = Some (t, Some p) \<Longrightarrow> (p + 1) * kSector \<le> length (rw_file st1) \<and> (p + 1) * kSector \<le> rw_data_bytes st1"
    and pair: "case pair' of None \<Rightarrow> True | Some fp' \<Rightarrow> unat (ht_virtual_size (fp_header fp')) = rw_vsize st \<and>
      (\<exists>r. pair_log (rw_sectors st) (length (rw_file st1) div kSector) fp' r \<and> (\<forall>x. lookup (r_live r) x = lookup v x))"
  shows "confined lo hi st ((mappings_changed (st1\<lparr>rw_pair := pair'\<rparr>))\<lparr>rw_segments := v\<rparr>)"
proof -
  let ?st = "(mappings_changed (st1\<lparr>rw_pair := pair'\<rparr>))\<lparr>rw_segments := v\<rparr>"
  have V: "rw_sectors ?st = rw_sectors st" "rw_sectors st1 = rw_sectors st" "rw_vsize st1 = rw_vsize st"
    using c by (simp_all add: rw_sectors_def confined_def)
  have view: "journal_view ?st x = lookup v x" for x
  proof (cases pair')
    case (Some fp')
    then obtain r where "pair_log (rw_sectors st) (length (rw_file st1) div kSector) fp' r"
      "lookup (r_live r) x = lookup v x" using pair by auto
    then show ?thesis using pair_log_owner by (simp add: journal_view_def Some)
  qed (simp add: journal_view_def)
  have "(p + 1) * kSector \<le> length (rw_file st1)" if l: "lookup v x = Some (t, Some p)" for x t p
  proof (cases "lo \<le> x \<and> x < hi")
    case True
    then show ?thesis using v(5) l by blast
  next
    case False
    then have "lookup (rw_segments st) x = Some (t, Some p)" using v(4) l by simp
    then have "(p + 1) * kSector \<le> length (rw_file st)" using inv(1) unfolding rw_inv_def by blast
    then show ?thesis using same(3) by simp
  qed
  then have "rw_inv ?st"
    using c v(1-3) unfolding rw_inv_def V by (simp add: confined_def rw_inv_def V)
  moreover have "journal_inv ?st"
    using pair view unfolding journal_inv_def V by (auto simp: V split: option.splits)
  moreover have "rw_sector ?st x = rw_sector st x \<and> rw_durable ?st x = rw_durable st x" if x: "\<not> (lo \<le> x \<and> x < hi)" for x
  proof -
    have "rw_sector st1 x = rw_sector st x" "rw_durable st1 x = rw_durable st x" "journal_inv st1"
      using c x by (auto simp: confined_def)
    moreover have "rw_durable st1 x = rw_sector st1 x" using journal_agrees [OF \<open>journal_inv st1\<close> same(2)] .
    ultimately show ?thesis
      using v(4) [OF x] by (simp add: rw_sector_def rw_durable_def view same(1))
  qed
  moreover have "remapped lo hi st ?st"
  proof -
    have "(p + 1) * kSector \<le> rw_data_bytes st1" if "in_view st" "lookup v x = Some (t, Some p)" for x t p
    proof (cases "lo \<le> x \<and> x < hi")
      case True
      then show ?thesis using v(5) that(2) by blast
    next
      case False
      then have "(p + 1) * kSector \<le> rw_data_bytes st" using that v(4) unfolding in_view_def by fastforce
      then show ?thesis using same(5) by simp
    qed
    then show ?thesis using v(4) same(4) by (auto simp: remapped_def in_view_def mappings_changed_def)
  qed
  ultimately show ?thesis using c by (simp add: confined_def)
qed

text \<open>A journal write that failed half-way.\<close>

lemma confined_failed:
  assumes c: "confined lo hi st st1" and inv: "journal_inv st" "\<not> rw_journal_failed st"
    and segs: "rw_segments st1 = rw_segments st"
    and fp': "unat (ht_virtual_size (fp_header fp')) = rw_vsize st"
      "pair_log (rw_sectors st) (length (rw_file st1) div kSector) fp' r"
      "\<forall>x. \<not> (lo \<le> x \<and> x < hi) \<longrightarrow> lookup (r_live r) x = lookup (rw_segments st) x"
      "\<And>x. \<not> failed \<Longrightarrow> lookup (r_live r) x = lookup (rw_segments st) x"
  shows "confined lo hi st (st1\<lparr>rw_pair := Some fp', rw_journal_failed := failed\<rparr>)"
proof -
  let ?st = "st1\<lparr>rw_pair := Some fp', rw_journal_failed := failed\<rparr>"
  have V: "rw_sectors ?st = rw_sectors st" "rw_sectors st1 = rw_sectors st" "rw_vsize st1 = rw_vsize st"
    using c by (simp_all add: rw_sectors_def confined_def)
  have view: "journal_view ?st x = lookup (r_live r) x" for x
    using pair_log_owner [OF fp'(2)] by (simp add: journal_view_def)
  have "journal_inv ?st" using fp'(1,2,4) segs unfolding journal_inv_def view V by (auto simp: V)
  moreover have "rw_inv ?st" using c unfolding confined_def rw_inv_def V by (simp add: V)
  moreover have "rw_sector ?st x = rw_sector st x \<and> rw_durable ?st x = rw_durable st x" if x: "\<not> (lo \<le> x \<and> x < hi)" for x
  proof -
    have "rw_sector st1 x = rw_sector st x" using c x by (auto simp: confined_def)
    moreover have "lookup (r_live r) x = lookup (rw_segments st) x" using fp'(3) x by blast
    ultimately show ?thesis
      using journal_agrees [OF inv, of x] unfolding rw_durable_def [of ?st] view by (simp add: rw_sector_def segs)
  qed
  moreover have "remapped lo hi st ?st"
    using c remapped_trans [OF _ remapped_same [of ?st st1 lo hi]] by (simp add: confined_def)
  ultimately show ?thesis using c by (simp add: confined_def)
qed

text \<open>A sector the layer itself owns, with its bytes.\<close>

abbreviation rw_written :: "LsmtRw \<Rightarrow> nat \<Rightarrow> bytes \<Rightarrow> bool" where
  "rw_written st x bs \<equiv> rw_sector st x = bs \<and> lookup (rw_segments st) x \<noteq> None"

lemma pwrite_piece_correct:
  assumes inv: "rw_inv st" "journal_inv st" "\<not> rw_journal_failed st"
    and range: "lo < hi" "hi \<le> rw_sectors st" "hi - lo \<le> kMaxSegLen"
    and src: "offset \<le> lo * kSector" "hi * kSector \<le> offset + length src"
    and cap: "rw_data_end st + (hi - lo) \<le> kMaxMoffset"
    and run: "pwrite_piece src offset lo hi st io = (res, st', io')"
  shows "confined lo hi st st' \<and> rw_data_end st' \<le> rw_data_end st + (hi - lo) \<and>
    (res = None \<longrightarrow> \<not> rw_journal_failed st' \<and>
       (\<forall>x. lo \<le> x \<and> x < hi \<longrightarrow> rw_written st' x (get_bytes (x * kSector - offset) kSector src)))"
proof -
  obtain ops fin where plan: "plan_ops (rw_segments st) lo hi (rw_data_end st) = (ops, fin)" by fastforce
  obtain r f db io1 where ex: "exec_ops src offset ops (rw_file st) (rw_data_bytes st) io = (r, f, db, io1)"
    by (cases "exec_ops src offset ops (rw_file st) (rw_data_bytes st) io")
  let ?st = "st\<lparr>rw_data_end := fin, rw_file := f, rw_data_bytes := db\<rparr>"
  have wf: "wf_segs (rw_segments st)" and b: "\<forall>s \<in> set (rw_segments st). seg_bounded (rw_sectors st) (rw_data_end st) s"
    and V: "rw_sectors st \<le> kMaxOffset" using inv(1) by (auto simp: rw_inv_def)
  note p = plan_ops_correct [OF wf range(1) plan]
  note idx = plan_index [OF inv(1) plan range]
  note e = exec_plan [OF inv(1) plan range src ex]
  have c: "confined lo hi st ?st" by (rule confined_payload [OF inv idx(1) e(1,2) exec_ops_extent(1) [OF ex]])
  have fin: "fin \<le> rw_data_end st + (hi - lo)" by (rule idx(2))
  have owned: "lookup (map op_seg ops) x \<noteq> None" if "lo \<le> x" "x < hi" for x
    by (rule written_lookup [OF p(1,3) that]) simp
  consider (failed) e where "r = Some e" | (same) "r = None" "\<forall>op \<in> set ops. op_inplace op"
    | (grown) "r = None" "\<not> (\<forall>op \<in> set ops. op_inplace op)" by (cases r) auto
  then show ?thesis
  proof cases
    case (failed e)
    then have "st' = ?st" "res = Some e" using run plan ex by (simp_all add: pwrite_piece_def Let_def)
    then show ?thesis using c fin by simp
  next
    case same
    then have st': "st' = ?st" "res = None" using run plan ex by (simp_all add: pwrite_piece_def Let_def)
    have "filter (\<lambda>op. \<not> op_inplace op) ops = []" using same(2) by (simp add: filter_empty_conv)
    then have eq: "lookup (rw_segments st) x = lookup (map op_seg ops) x" if "lo \<le> x" "x < hi" for x
      using published_lookup [OF p(1,3) b, of x] that by simp
    have "rw_written ?st x (get_bytes (x * kSector - offset) kSector src)" if "lo \<le> x" "x < hi" for x
      using e(3) [OF same(1) that] eq [OF that] owned [OF that] by (auto simp: rw_sector_def)
    then show ?thesis using c fin inv(3) st' by simp
  next
    case grown
    let ?v = "install lo hi (map op_seg ops) (rw_segments st)"
    have extent: "(q + 1) * kSector \<le> db" if "lo \<le> x" "x < hi" "lookup ?v x = Some (t, Some q)" for x t q
    proof -
      obtain op where op: "op \<in> set ops" "covers (op_seg op) x" "lookup (map op_seg ops) x = Some (0, Some (op_moff op + (x - op_voff op)))"
        using written_lookup [OF p(1,3) \<open>lo \<le> x\<close> \<open>x < hi\<close>] by blast
      then have "q + 1 \<le> op_moff op + op_nsector op" using idx(7) [of x] that by (auto simp: covers_def)
      then show ?thesis using exec_ops_extent(2) [OF ex [unfolded grown(1)] op(1)] mult_le_mono1 order_trans by blast
    qed
    have payload: "(q + 1) * kSector \<le> length f \<and> (q + 1) * kSector \<le> db"
      if "lo \<le> x" "x < hi" "lookup ?v x = Some (t, Some q)" for x t q
      using e(3) [OF grown(1) that(1,2)] idx(7) [of x] that extent [OF that] by auto
    have sect: "sector_bytes [f] (lookup ?v x) = get_bytes (x * kSector - offset) kSector src" if "lo \<le> x" "x < hi" for x
      using e(3) [OF grown(1) that] idx(7) [of x] that by auto
    have vown: "lookup ?v x \<noteq> None" if "lo \<le> x" "x < hi" for x using owned [OF that] idx(7) [of x] that by simp
    have out: "lookup ?v x = lookup (rw_segments st) x" if "\<not> (lo \<le> x \<and> x < hi)" for x
      using idx(7) [of x] that by auto
    have inst: "confined lo hi st ((mappings_changed (?st\<lparr>rw_pair := pair'\<rparr>))\<lparr>rw_segments := ?v\<rparr>)"
      if "case pair' of None \<Rightarrow> True | Some fp' \<Rightarrow> unat (ht_virtual_size (fp_header fp')) = rw_vsize st \<and>
        (\<exists>r. pair_log (rw_sectors st) (length f div kSector) fp' r \<and> (\<forall>x. lookup (r_live r) x = lookup ?v x))" for pair'
      using c inv e(1) idx(4-6) out payload that exec_ops_extent(1) [OF ex]
      by (intro confined_install) (simp_all cong: option.case_cong)
    show ?thesis
    proof (cases "rw_pair st")
      case None
      then have st': "st' = (mappings_changed ?st)\<lparr>rw_segments := ?v\<rparr>" "res = None"
        using run plan ex grown by (auto simp: pwrite_piece_def Let_def)
      have "?st\<lparr>rw_pair := None\<rparr> = ?st" using None by simp
      then have "confined lo hi st st'" using inst [of None] st' by simp
      then show ?thesis using fin inv(3) sect vown st' by (simp add: rw_sector_def)
    next
      case (Some fp)
      obtain pr fp' io2 where pub: "publish_ops ops False fp io1 = (pr, fp', io2)" by (cases "publish_ops ops False fp io1")
      obtain r0 where r0: "pair_log (rw_sectors st) (length f div kSector) fp r0"
        "\<And>x. lookup (r_live r0) x = lookup (rw_segments st) x"
        using journal_replay [OF inv(2,3) Some e(1)] by blast
      have "\<forall>op \<in> set ops. \<not> op_inplace op \<longrightarrow> record_ok (rw_sectors st) (length f div kSector) (op_seg op)"
        using idx(3) V fin cap e(4) [OF grown(1)] piece_record_ok by force
      note pl = publish_ops_log [OF pub r0(1) p(1) this]
      then obtain r1 where r1: "pair_log (rw_sectors st) (length f div kSector) fp' r1"
        "\<forall>x. \<not> (lo \<le> x \<and> x < hi) \<longrightarrow> lookup (r_live r1) x = lookup (r_live r0) x"
        "pr = None \<longrightarrow> (\<forall>x. lookup (r_live r1) x = (case lookup (map op_seg (filter (\<lambda>op. \<not> op_inplace op) ops)) x of
           Some w \<Rightarrow> Some w | None \<Rightarrow> lookup (r_live r0) x))" by blast
      have head: "unat (ht_virtual_size (fp_header fp')) = rw_vsize st"
        using pl inv(2) Some by (simp add: journal_inv_def)
      show ?thesis
      proof (cases pr)
        case None
        then have st': "st' = (mappings_changed (?st\<lparr>rw_pair := Some fp'\<rparr>))\<lparr>rw_segments := ?v\<rparr>" "res = None"
          using run plan ex grown Some pub by (auto simp: pwrite_piece_def Let_def)
        have "lookup (r_live r1) x = lookup ?v x" for x
          using r1(3) None published_lookup [OF p(1,3) b, of x] idx(7) [of x] unfolding r0(2) by simp
        then have "confined lo hi st st'" using inst [of "Some fp'"] head r1(1) st' by auto
        then show ?thesis using fin inv(3) sect vown st' by (simp add: rw_sector_def)
      next
        case (Some ef)
        obtain e' failed where ef: "ef = (e', failed)" by (cases ef)
        then have st': "st' = ?st\<lparr>rw_pair := Some fp', rw_journal_failed := failed\<rparr>" "res = Some e'"
          using run plan ex grown \<open>rw_pair st = Some fp\<close> pub Some by (auto simp: pwrite_piece_def Let_def)
        have "lookup (r_live r1) x = lookup (rw_segments st) x" if "\<not> failed" for x
        proof -
          have "fp' = fp" using pl Some ef that by auto
          then show ?thesis using pair_log_owner [OF r1(1), of x] pair_log_owner [OF r0(1), of x] r0(2) by simp
        qed
        then have "confined lo hi st st'"
          using c inv head r1 r0(2) unfolding st' by (intro confined_failed) simp_all
        then show ?thesis using fin st' by simp
      qed
    qed
  qed
qed

section \<open>The whole write\<close>

lemma confined_mono:
  assumes "confined lo hi st st'" "lo' \<le> lo" "hi \<le> hi'"
  shows "confined lo' hi' st st'"
proof -
  have "\<not> (lo \<le> x \<and> x < hi)" if "\<not> (lo' \<le> x \<and> x < hi')" for x using assms(2,3) that by auto
  moreover have "remapped lo' hi' st st'" using assms remapped_mono [of lo hi st st' lo' hi'] by (simp add: confined_def)
  ultimately show ?thesis using assms(1) unfolding confined_def by blast
qed

lemma pwrite_loop_correct:
  assumes "rw_inv st" "journal_inv st" "\<not> rw_journal_failed st"
    "offset mod kSector = 0" "length src mod kSector = 0" "pos mod kSector = 0" "pos \<le> length src"
    "offset + length src \<le> rw_vsize st" "rw_data_end st + (length src - pos) div kSector \<le> kMaxMoffset"
    "pwrite_loop src offset (length src) pos st io = (res, st', io')"
  shows "confined ((offset + pos) div kSector) ((offset + length src) div kSector) st st' \<and>
    (res = None \<longrightarrow> \<not> rw_journal_failed st' \<and>
       (\<forall>x. (offset + pos) div kSector \<le> x \<and> x < (offset + length src) div kSector \<longrightarrow>
          rw_written st' x (get_bytes (x * kSector - offset) kSector src)))"
  using assms
proof (induction "length src - pos" arbitrary: pos st io rule: less_induct)
  case less
  let ?lo = "(offset + pos) div kSector" and ?stop = "(offset + length src) div kSector"
  show ?case
  proof (cases "pos \<ge> length src")
    case True
    then have "st' = st" "pos = length src" "res = None" using less.prems(7,10) by (simp_all add: pwrite_loop.simps)
    then show ?thesis using less.prems(1-3) by (auto simp: confined_def)
  next
    case False
    obtain o' k n where units: "offset = o' * kSector" "pos = k * kSector" "length src = n * kSector"
      using less.prems(4-6) by (metis mod_0_imp_dvd dvdE mult.commute)
    have S: "0 < kSector" by (simp add: kSector_def)
    define d where "d = min (n - k) kMaxSegLen"
    have k: "k < n" using False units S by simp
    have d: "0 < d" "d \<le> n - k" "d \<le> kMaxSegLen" using k by (auto simp: d_def kMaxSegLen_def kMaxLength_def)
    have piece: "min (length src - pos) (kMaxSegLen * kSector) = d * kSector"
      unfolding units d_def by (simp add: diff_mult_distrib [symmetric] nat_mult_min_left)
    have lo: "(offset + pos) div kSector = o' + k" "(offset + length src) div kSector = o' + n"
      "(offset + (pos + d * kSector)) div kSector = o' + k + d"
      unfolding units add_mult_distrib [symmetric] using S by (simp_all add: add.assoc)
    have in_dev: "o' + n \<le> rw_sectors st"
      using less.prems(8) S unfolding units rw_sectors_def by (simp add: less_eq_div_iff_mult_less_eq add_mult_distrib)
    have cap: "rw_data_end st + (n - k) \<le> kMaxMoffset"
      using less.prems(9) S unfolding units diff_mult_distrib [symmetric] by simp
    obtain r1 st1 io1 where p: "pwrite_piece src offset (o' + k) (o' + k + d) st io = (r1, st1, io1)"
      by (cases "pwrite_piece src offset (o' + k) (o' + k + d) st io")
    have pc: "confined (o' + k) (o' + k + d) st st1 \<and> rw_data_end st1 \<le> rw_data_end st + (o' + k + d - (o' + k)) \<and>
      (r1 = None \<longrightarrow> \<not> rw_journal_failed st1 \<and>
        (\<forall>x. o' + k \<le> x \<and> x < o' + k + d \<longrightarrow> rw_written st1 x (get_bytes (x * kSector - offset) kSector src)))"
    proof (rule pwrite_piece_correct [OF less.prems(1-3) _ _ _ _ _ _ p])
      show "(o' + k + d) * kSector \<le> offset + length src"
        using d(2) k unfolding units add_mult_distrib [symmetric] by (intro mult_le_mono1) simp
    qed (use d in_dev cap k in \<open>auto simp: units\<close>)
    have step: "pwrite_loop src offset (length src) pos st io = (case r1 of
        Some e \<Rightarrow> (Some e, st1, io1) | None \<Rightarrow> pwrite_loop src offset (length src) (pos + d * kSector) st1 io1)"
      using False p S unfolding pwrite_loop.simps [of src offset "length src" pos] Let_def piece lo
      by (simp split: option.splits)
    show ?thesis
    proof (cases r1)
      case (Some e)
      then have "st' = st1" "res = Some e" using step less.prems(10) by auto
      then show ?thesis using confined_mono [of "o' + k" "o' + k + d" st st1 "o' + k" "o' + n"] pc d k unfolding lo by simp
    next
      case None
      have rest: "pwrite_loop src offset (length src) (pos + d * kSector) st1 io1 = (res, st', io')"
        using step None less.prems(10) by simp
      have "confined ((offset + (pos + d * kSector)) div kSector) ((offset + length src) div kSector) st1 st' \<and>
        (res = None \<longrightarrow> \<not> rw_journal_failed st' \<and>
          (\<forall>x. (offset + (pos + d * kSector)) div kSector \<le> x \<and> x < (offset + length src) div kSector \<longrightarrow>
            rw_written st' x (get_bytes (x * kSector - offset) kSector src)))"
      proof (rule less.hyps [OF _ _ _ _ _ _ _ _ _ _ rest])
        show "length src - (pos + d * kSector) < length src - pos" using mult_strict_right_mono [OF k S] mult_pos_pos [OF d(1) S] unfolding units by linarith
        show "rw_inv st1" "journal_inv st1" "\<not> rw_journal_failed st1" using pc None by (auto simp: confined_def)
        show "(pos + d * kSector) mod kSector = 0" by (simp add: units)
        show "pos + d * kSector \<le> length src"
          using d(2) k unfolding units add_mult_distrib [symmetric] by (intro mult_le_mono1) simp
        show "offset + length src \<le> rw_vsize st1" using less.prems(8) pc by (simp add: confined_def)
        show "rw_data_end st1 + (length src - (pos + d * kSector)) div kSector \<le> kMaxMoffset"
        proof -
          have "rw_data_end st1 \<le> rw_data_end st + d" using pc by simp
          moreover have "(length src - (pos + d * kSector)) div kSector = n - (k + d)"
            using S unfolding units add_mult_distrib [symmetric] diff_mult_distrib [symmetric] by simp
          ultimately show ?thesis using cap d(2) by simp
        qed
      qed (use less.prems in auto)
      then have IH: "confined (o' + k + d) (o' + n) st1 st'" "res = None \<Longrightarrow> \<not> rw_journal_failed st'"
        "\<And>x. res = None \<Longrightarrow> o' + k + d \<le> x \<Longrightarrow> x < o' + n \<Longrightarrow> rw_written st' x (get_bytes (x * kSector - offset) kSector src)"
        unfolding lo by auto
      have "rw_written st' x (get_bytes (x * kSector - offset) kSector src)"
        if "res = None" "o' + k \<le> x" "x < o' + n" for x
        using IH(1) IH(3) [OF that(1)] pc None that by (cases "x < o' + k + d") (auto simp: confined_def remapped_def)
      moreover have "confined (o' + k) (o' + n) st st'"
        using confined_trans [OF _ IH(1)] pc d k by simp
      ultimately show ?thesis using IH(2) unfolding lo by blast
    qed
  qed
qed

lemma rw_segs_fit:
  assumes "rw_inv st" "rw_data_end st \<le> kMaxMoffset"
  shows "\<forall>m \<in> set (rw_segments st). seg_fits m \<and> s_tag m = 0 \<and> s_offset m \<noteq> kInvalidOffset"
proof
  fix m assume "m \<in> set (rw_segments st)"
  then have b: "seg_bounded (rw_sectors st) (rw_data_end st) m" and V: "rw_sectors st \<le> kMaxOffset"
    using assms(1) by (auto simp: rw_inv_def)
  then have "s_offset m < kMaxOffset" by (auto simp: seg_bounded_def seg_end_def)
  moreover have "s_moffset m \<le> kMaxMoffset"
    using b assms(2) by (auto simp: seg_bounded_def seg_mend_def kHeaderSectors_def kMaxMoffset_def split: if_splits)
  ultimately show "seg_fits m \<and> s_tag m = 0 \<and> s_offset m \<noteq> kInvalidOffset"
    using b by (auto simp: seg_fits_def seg_bounded_def kInvalidOffset_def kMaxSegLen_def)
qed

lemma compact_header: "compact_sync live data fp io = (res, fp', io') \<Longrightarrow> fp_header fp' = fp_header fp"
  using compact_sync_cases by fastforce

lemma prepare_mutation_correct:
  assumes inv: "rw_inv st" "journal_inv st" and cap: "rw_data_end st \<le> kMaxMoffset"
    and run: "prepare_mutation st io = (res, st', io')"
  shows "confined 0 0 st st'" "st' = st\<lparr>rw_pair := rw_pair st'\<rparr>" "res = None \<Longrightarrow> \<not> rw_journal_failed st"
proof -
  have refl: "confined 0 0 st st" using inv by (simp add: confined_def)
  show "st' = st\<lparr>rw_pair := rw_pair st'\<rparr>" "res = None \<Longrightarrow> \<not> rw_journal_failed st"
    using run by (auto simp: prepare_mutation_def split: if_splits option.splits prod.splits)
  show "confined 0 0 st st'"
  proof (cases "st' = st")
    case False
    then obtain fp fp' where fp: "\<not> rw_journal_failed st" "rw_pair st = Some fp" "st' = st\<lparr>rw_pair := Some fp'\<rparr>"
      and cs: "compact_sync (rw_segments st) (rw_file st) fp io = (res, fp', io')"
      using run by (auto simp: prepare_mutation_def split: if_splits option.splits prod.splits)
    have head: "unat (ht_virtual_size (fp_header fp)) = rw_vsize st" using inv(2) fp(2) by (simp add: journal_inv_def)
    have "fp' \<noteq> fp" using False fp by auto
    moreover have "wf_segs (rw_segments st)" using inv(1) by (simp add: rw_inv_def)
    ultimately obtain r where r: "pair_log (rw_sectors st) (length (rw_file st) div kSector) fp' r"
      "\<And>x. lookup (r_live r) x = lookup (rw_segments st) x"
      using compact_spec [OF _ rw_segs_fit [OF inv(1) cap] cs] unfolding head rw_sectors_def
      by (auto simp: kAlignment_def kSector_def)
    have V: "rw_sectors st' = rw_sectors st" by (simp add: fp(3) rw_sectors_def)
    have view: "journal_view st' x = lookup (rw_segments st) x" for x
      using pair_log_owner [OF r(1)] r(2) by (simp add: journal_view_def fp(3))
    have "journal_inv st'"
      using r(1) head compact_header [OF cs] unfolding journal_inv_def V view by (auto simp: fp(3))
    moreover have "rw_inv st'" using inv(1) unfolding rw_inv_def V by (simp add: fp(3))
    moreover have "rw_durable st' x = rw_durable st x" for x
      using journal_agrees [OF inv(2) fp(1), of x] by (simp add: rw_durable_def view) (simp add: rw_sector_def fp(3))
    moreover have "remapped 0 0 st st'" by (rule remapped_same) (simp_all add: fp(3))
    ultimately show ?thesis by (simp add: confined_def rw_sector_def fp(3))
  qed (simp add: refl)
qed

lemma pair_only:
  "st' = st\<lparr>rw_pair := p\<rparr> \<Longrightarrow> rw_journal_failed st' = rw_journal_failed st \<and> rw_data_end st' = rw_data_end st \<and>
     rw_vsize st' = rw_vsize st \<and> rw_segments st' = rw_segments st \<and> rw_file st' = rw_file st \<and>
     rw_revision st' = rw_revision st \<and> rw_data_bytes st' = rw_data_bytes st"
  by simp

lemma rw_pwrite_spec:
  assumes inv: "rw_inv st" "journal_inv st" and cap: "rw_data_end st + length src div kSector \<le> kMaxMoffset"
    and run: "rw_pwrite src offset st io = (res, st', io')"
  shows "confined (offset div kSector) ((offset + length src) div kSector) st st'"
    "res = Inr n \<Longrightarrow> n = length src \<and> \<not> rw_journal_failed st' \<and>
      (\<forall>x. offset div kSector \<le> x \<and> x < (offset + length src) div kSector \<longrightarrow>
         rw_written st' x (get_bytes (x * kSector - offset) kSector src))"
proof -
  let ?lo = "offset div kSector" and ?hi = "(offset + length src) div kSector"
  have refl: "confined ?lo ?hi st st" using inv by (simp add: confined_def)
  obtain r1 st1 io1 where p: "prepare_mutation st io = (r1, st1, io1)" by (cases "prepare_mutation st io")
  have cap': "rw_data_end st \<le> kMaxMoffset" using cap by simp
  note pm = prepare_mutation_correct [OF inv cap' p]
  have c1: "confined ?lo ?hi st st1"
    using pm(1) remapped_same [of st1 st ?lo ?hi] pair_only [OF pm(2)] by (auto simp: confined_def)
  have nochange: "confined ?lo ?hi st st' \<and> (\<forall>n. res \<noteq> Inr n)"
    if "rw_sealed st \<or> rw_checkpointed st \<or> offset mod kSector \<noteq> 0 \<or> length src mod kSector \<noteq> 0 \<or> length src = 0 \<or>
      offset > rw_vsize st \<or> length src > rw_vsize st - offset \<or> r1 \<noteq> None \<or> \<not> rw_open st1"
    using run refl that p c1 by (auto simp: rw_pwrite_def Let_def split: if_splits option.splits)
  have "confined ?lo ?hi st st' \<and> (\<forall>n. res = Inr n \<longrightarrow> n = length src \<and> \<not> rw_journal_failed st' \<and>
      (\<forall>x. ?lo \<le> x \<and> x < ?hi \<longrightarrow> rw_written st' x (get_bytes (x * kSector - offset) kSector src)))"
  proof (cases "rw_sealed st \<or> rw_checkpointed st \<or> offset mod kSector \<noteq> 0 \<or> length src mod kSector \<noteq> 0 \<or> length src = 0 \<or>
      offset > rw_vsize st \<or> length src > rw_vsize st - offset \<or> r1 \<noteq> None \<or> \<not> rw_open st1")
    case False
    obtain r2 st2 io2 where l: "pwrite_loop src offset (length src) 0 st1 io1 = (r2, st2, io2)"
      by (cases "pwrite_loop src offset (length src) 0 st1 io1")
    have res: "case r2 of Some e \<Rightarrow> res = Inl e \<and> st' = st2
        | None \<Rightarrow> res = Inr (length src) \<and> st' = st2\<lparr>rw_data_bytes := rw_data_end st2 * kSector\<rparr>"
      using run False p l by (auto simp: rw_pwrite_def Let_def split: option.splits)
    have st1: "rw_data_end st1 = rw_data_end st" "rw_journal_failed st1 = rw_journal_failed st" "rw_vsize st1 = rw_vsize st"
      using pair_only [OF pm(2)] by simp_all
    have pl: "confined ((offset + 0) div kSector) ?hi st1 st2 \<and> (r2 = None \<longrightarrow> \<not> rw_journal_failed st2 \<and>
       (\<forall>x. (offset + 0) div kSector \<le> x \<and> x < ?hi \<longrightarrow> rw_written st2 x (get_bytes (x * kSector - offset) kSector src)))"
      using c1 pm(3) False st1 cap
      by (intro pwrite_loop_correct [OF _ _ _ _ _ _ _ _ _ l]) (auto simp: confined_def)
    then have c2: "confined ?lo ?hi st st2" using c1 remapped_trans [of ?lo ?hi st st1 st2] by (auto simp: confined_def)
    let ?st = "st2\<lparr>rw_data_bytes := rw_data_end st2 * kSector\<rparr>"
    have b: "\<forall>s \<in> set (rw_segments st2). seg_bounded (rw_sectors st2) (rw_data_end st2) s" using c2 by (simp add: confined_def rw_inv_def)
    have "(q + 1) * kSector \<le> rw_data_end st2 * kSector" if "lookup (rw_segments st2) x = Some (t, Some q)" for x t q
      using bounded_lookup(3) [OF b that, of q] by (intro mult_le_mono1) simp
    then have "in_view ?st" by (simp add: in_view_def)
    then have "remapped ?lo ?hi st ?st" using c2 by (simp add: confined_def remapped_def)
    then have upd: "confined ?lo ?hi st ?st" "rw_sector ?st x = rw_sector st2 x" for x
      using c2 by (auto simp: confined_def rw_inv_def journal_inv_def rw_sectors_def rw_sector_def rw_durable_def
          journal_view_def split: option.splits)
    show ?thesis
    proof (cases r2)
      case None
      then show ?thesis using res pl upd by auto
    next
      case (Some e)
      then show ?thesis using res c2 by simp
    qed
  qed (use nochange in blast)
  then show "confined ?lo ?hi st st'" "res = Inr n \<Longrightarrow> n = length src \<and> \<not> rw_journal_failed st' \<and>
      (\<forall>x. ?lo \<le> x \<and> x < ?hi \<longrightarrow> rw_written st' x (get_bytes (x * kSector - offset) kSector src))" by blast+
qed

section \<open>Discard\<close>

lemma zero_seg_facts:
  assumes "0 < n" "n \<le> kMaxSegLen" "cur + n \<le> V"
  shows "seg_bounded V E (zero_seg cur n)" "covers (zero_seg cur n) x \<longleftrightarrow> cur \<le> x \<and> x < cur + n" "place (zero_seg cur n) x = None"
    "V \<le> kMaxOffset \<Longrightarrow> record_ok V k (zero_seg cur n)"
  using assms by (auto simp: seg_bounded_def zero_seg_def seg_end_def covers_def place_def record_ok_def seg_fits_def
      kInvalidOffset_def kMaxSegLen_def kHeaderSectors_def kDataStartSector_def kSpace_def kAlignment_def kMaxMoffset_def)

text \<open>The journal after the mappings of \<open>[lo, cur)\<close> were recorded.\<close>

definition zeroed_log :: "nat \<Rightarrow> nat \<Rightarrow> segment_mapping list \<Rightarrow> nat \<Rightarrow> nat \<Rightarrow> HeaderTrailer \<Rightarrow> FilePair \<Rightarrow> bool" where
  "zeroed_log V n segs lo cur head fp \<longleftrightarrow> fp_header fp = head \<and> (\<exists>r. pair_log V n fp r \<and>
     (\<forall>x. lookup (r_live r) x = (if lo \<le> x \<and> x < cur then Some (0, None) else lookup segs x)))"

lemma zeroed_log_step:
  assumes z: "zeroed_log V n segs lo cur head fp" and m: "lo \<le> cur" "0 < k" "k \<le> kMaxSegLen" "cur + k \<le> V" "V \<le> kMaxOffset"
    and run: "pair_append (zero_seg cur k) fp io = (res, fp', io')"
  shows "res = None \<Longrightarrow> zeroed_log V n segs lo (cur + k) head fp'"
    "res = Some e \<Longrightarrow> zeroed_log V n segs lo cur head fp'"
proof -
  obtain r where r: "pair_log V n fp r"
    "\<And>x. lookup (r_live r) x = (if lo \<le> x \<and> x < cur then Some (0, None) else lookup segs x)" "fp_header fp = head"
    using z by (auto simp: zeroed_log_def)
  note zf = zero_seg_facts [OF m(2,3,4)]
  show "zeroed_log V n segs lo (cur + k) head fp'" if none: "res = None"
  proof -
    obtain r' where "pair_log V n fp' r'" "\<And>x. lookup (r_live r') x =
        (if covers (zero_seg cur k) x then Some (0, place (zero_seg cur k) x) else lookup (r_live r) x)"
      using pair_append_step [OF run [unfolded none] r(1) zf(4) [OF m(5)]] by blast
    then show ?thesis
      unfolding zeroed_log_def using pair_append_header [OF run] r(2,3) zf(2,3) m(1)
      by (intro conjI exI [of _ r']) auto
  qed
  show "zeroed_log V n segs lo cur head fp'" if "res = Some e"
    unfolding zeroed_log_def using pair_append_failed [OF run [unfolded that] r(1)] pair_append_header [OF run] r(2,3) by auto
qed

lemma zero_loop_correct:
  assumes "zero_loop lo hi cur staged pair io = (res, staged', pair', io')"
    "lo \<le> cur" "cur \<le> hi" "hi \<le> V" "V \<le> kMaxOffset"
    "wf_segs staged" "\<forall>s \<in> set staged. seg_bounded V E s"
    "\<And>x. lookup staged x = (if lo \<le> x \<and> x < hi then if x < cur then Some (0, None) else None else lookup segs x)"
    "\<And>fp. pair = Some fp \<Longrightarrow> zeroed_log V n segs lo cur head fp"
  shows "(res = None \<longrightarrow> wf_segs staged' \<and> (\<forall>s \<in> set staged'. seg_bounded V E s) \<and>
      (\<forall>x. lookup staged' x = (if lo \<le> x \<and> x < hi then Some (0, None) else lookup segs x)) \<and>
      (\<forall>fp. pair' = Some fp \<longrightarrow> zeroed_log V n segs lo hi head fp)) \<and>
    (\<forall>e failed. res = Some (e, failed) \<longrightarrow> (\<exists>fp c. pair' = Some fp \<and> c \<le> hi \<and> zeroed_log V n segs lo c head fp \<and> (\<not> failed \<longrightarrow> c = lo)))"
  using assms
proof (induction "hi - cur" arbitrary: cur staged pair io rule: less_induct)
  case less
  show ?case
  proof (cases "cur \<ge> hi")
    case True
    then have "res = None" "staged' = staged" "pair' = pair" "cur = hi"
      using less.prems(1,3) by (simp_all add: zero_loop.simps)
    then show ?thesis using less.prems by auto
  next
    case False
    let ?n = "min (hi - cur) kMaxSegLen" let ?m = "zero_seg cur (min (hi - cur) kMaxSegLen)"
    have n: "0 < ?n" "?n \<le> kMaxSegLen" "cur + ?n \<le> V" "cur + ?n \<le> hi"
      using False less.prems(4) by (auto simp: kMaxSegLen_def kMaxLength_def)
    note zf = zero_seg_facts [OF n(1-3)]
    have m: "0 < s_length ?m" "s_tag ?m = 0" using n(1) by (simp_all add: zero_seg_def)
    have tags: "\<forall>s \<in> set (?m # staged). s_tag s = 0" using less.prems(7) m(2) by (auto simp: seg_bounded_def)
    have "\<forall>s \<in> set staged. seg_disj ?m s"
      unfolding disjoint_lookup [OF less.prems(6) m(1)] zf(2) less.prems(8) using less.prems(2) n(4) by auto
    note ins = insert_sorted_correct [OF less.prems(6) m(1) this tags]
    have look: "lookup (insert_sorted ?m staged) x =
        (if lo \<le> x \<and> x < hi then if x < cur + ?n then Some (0, None) else None else lookup segs x)" for x
      unfolding ins(2) zf(2,3) less.prems(8) using less.prems(2) n(4) by auto
    have cont: ?thesis if rest: "zero_loop lo hi (cur + ?n) (insert_sorted ?m staged) pair1 io1 = (res, staged', pair', io')"
        and z: "\<And>fp. pair1 = Some fp \<Longrightarrow> zeroed_log V n segs lo (cur + ?n) head fp" for pair1 io1
    proof (rule less.hyps [OF _ rest])
      show "\<forall>s \<in> set (insert_sorted ?m staged). seg_bounded V E s"
        using zf(1) less.prems(7) by (intro ins(3) seg_bounded_joinable) auto
    qed (use n False ins(1) less.prems(2,4,5) look z in auto)
    show ?thesis
    proof (cases pair)
      case None
      then show ?thesis
        using cont [of None io] less.prems(1) False by (subst (asm) (2) zero_loop.simps) (simp add: Let_def)
    next
      case (Some fp)
      obtain a fp1 io1 where ap: "pair_append ?m fp io = (a, fp1, io1)" by (cases "pair_append ?m fp io")
      note st = zeroed_log_step [OF less.prems(9) [OF Some] less.prems(2) n(1-3) less.prems(5) ap]
      show ?thesis
      proof (cases a)
        case None
        then show ?thesis
          using cont [of "Some fp1" io1] st(1) less.prems(1) False Some ap
          by (subst (asm) (2) zero_loop.simps) (simp add: Let_def)
      next
        case err: (Some e)
        then have "res = Some (e, fp_poisoned fp1 \<or> cur \<noteq> lo)" "pair' = Some fp1"
          using less.prems(1) False Some ap by (simp_all add: zero_loop.simps [of lo hi cur] Let_def)
        then show ?thesis using st(2) [OF err] less.prems(2,3) by auto
      qed
    qed
  qed
qed

lemma zero_loop_unpaired: "zero_loop lo hi cur staged None io = (res, staged', pair', io') \<Longrightarrow> pair' = None"
proof (induction "hi - cur" arbitrary: cur staged io rule: less_induct)
  case less
  show ?case
  proof (cases "cur \<ge> hi")
    case False
    let ?n = "min (hi - cur) kMaxSegLen"
    have "zero_loop lo hi (cur + ?n) (insert_sorted (zero_seg cur ?n) staged) None io = (res, staged', pair', io')"
      using less.prems False by (subst (asm) zero_loop.simps) (simp add: Let_def)
    moreover have "hi - (cur + ?n) < hi - cur" using False by (simp add: kMaxSegLen_def kMaxLength_def)
    ultimately show ?thesis using less.hyps by blast
  qed (use less.prems in \<open>simp add: zero_loop.simps\<close>)
qed

lemma confined_after:
  assumes "confined 0 0 st st1" "confined lo hi st1 st2"
  shows "confined lo hi st st2"
proof -
  have "remapped lo hi st st1" using assms(1) unfolding confined_def remapped_def by simp
  then have "remapped lo hi st st2" using assms(2) remapped_trans by (auto simp: confined_def)
  then show ?thesis using assms unfolding confined_def by simp
qed

lemma zeroed_owns_once:
  assumes "owns_once segs" "\<And>x. lookup v x = (if lo \<le> x \<and> x < hi then Some (0, None) else lookup segs x)"
  shows "owns_once v"
proof -
  have "lookup segs x = Some (t, Some p)" if "lookup v x = Some (t, Some p)" for x t p
    using that assms(2) [of x] by (simp split: if_splits)
  then show ?thesis using assms(1) unfolding owns_once_def by blast
qed

lemma discard_staged:
  assumes inv: "rw_inv st" "journal_inv st" "\<not> rw_journal_failed st" and range: "lo < hi" "hi \<le> rw_sectors st"
    and zl: "zero_loop lo hi lo (carve lo hi (rw_segments st)) (rw_pair st) io = (z, staged, pair', io')"
  shows "z = None \<Longrightarrow> confined lo hi st ((mappings_changed (st\<lparr>rw_pair := pair'\<rparr>))\<lparr>rw_segments := staged\<rparr>)"
    "z = None \<Longrightarrow> lo \<le> x \<Longrightarrow> x < hi \<Longrightarrow> lookup staged x = Some (0, None)"
    "z = Some (e, f) \<Longrightarrow> confined lo hi st (st\<lparr>rw_pair := pair', rw_journal_failed := f\<rparr>)"
proof -
  let ?segs = "rw_segments st" and ?V = "rw_sectors st" and ?E = "rw_data_end st" and ?n = "length (rw_file st) div kSector"
  define head where "head = (case rw_pair st of Some fp \<Rightarrow> fp_header fp | None \<Rightarrow> default_ht)"
  have wf: "wf_segs ?segs" and b: "\<forall>s \<in> set ?segs. seg_bounded ?V ?E s"
    and V: "?V \<le> kMaxOffset" and once: "owns_once ?segs" using inv(1) by (auto simp: rw_inv_def)
  have c0: "confined lo hi st st" using inv by (simp add: confined_def)
  have "(z = None \<longrightarrow> wf_segs staged \<and> (\<forall>s \<in> set staged. seg_bounded ?V ?E s) \<and>
      (\<forall>x. lookup staged x = (if lo \<le> x \<and> x < hi then Some (0, None) else lookup ?segs x)) \<and>
      (\<forall>fp. pair' = Some fp \<longrightarrow> zeroed_log ?V ?n ?segs lo hi head fp)) \<and>
    (\<forall>e failed. z = Some (e, failed) \<longrightarrow>
      (\<exists>fp c. pair' = Some fp \<and> c \<le> hi \<and> zeroed_log ?V ?n ?segs lo c head fp \<and> (\<not> failed \<longrightarrow> c = lo)))"
  proof (rule zero_loop_correct [OF zl])
    show "zeroed_log ?V ?n ?segs lo lo head fp" if fp: "rw_pair st = Some fp" for fp
    proof -
      obtain r where "pair_log ?V ?n fp r" "\<And>x. lookup (r_live r) x = lookup ?segs x"
        using journal_replay [OF inv(2,3) fp order_refl] by blast
      then show ?thesis unfolding zeroed_log_def head_def using fp by (intro conjI exI [of _ r]) auto
    qed
  qed (use range V carve_correct [OF wf range(1)] seg_bounded_carve [OF wf range(1) b] in auto)
  then have staged: "z = None \<Longrightarrow> wf_segs staged" "z = None \<Longrightarrow> \<forall>s \<in> set staged. seg_bounded ?V ?E s"
      "\<And>x. z = None \<Longrightarrow> lookup staged x = (if lo \<le> x \<and> x < hi then Some (0, None) else lookup ?segs x)"
      "\<And>fp. z = None \<Longrightarrow> pair' = Some fp \<Longrightarrow> zeroed_log ?V ?n ?segs lo hi head fp"
    and failed: "\<And>e f. z = Some (e, f) \<Longrightarrow>
      \<exists>fp c. pair' = Some fp \<and> c \<le> hi \<and> zeroed_log ?V ?n ?segs lo c head fp \<and> (\<not> f \<longrightarrow> c = lo)"
    by blast+
  have pair0: "pair' = Some fp' \<Longrightarrow> rw_pair st \<noteq> None" for fp' using zl zero_loop_unpaired by fastforce
  have head: "unat (ht_virtual_size (fp_header fp')) = rw_vsize st"
    if "zeroed_log ?V ?n ?segs lo c head fp'" "pair' = Some fp'" for fp' c
    using that(1) pair0 [OF that(2)] inv(2) by (auto simp: zeroed_log_def head_def journal_inv_def)
  show "lookup staged x = Some (0, None)" if "z = None" "lo \<le> x" "x < hi" using staged(3) [OF that(1)] that(2,3) by simp
  show "confined lo hi st ((mappings_changed (st\<lparr>rw_pair := pair'\<rparr>))\<lparr>rw_segments := staged\<rparr>)" if z: "z = None"
  proof (rule confined_install [OF c0 inv refl inv(3) order_refl refl order_refl staged(1) [OF z] _ staged(2) [OF z]])
    show "owns_once staged" by (rule zeroed_owns_once [OF once staged(3) [OF z]])
    show "lookup staged x = lookup ?segs x" if "\<not> (lo \<le> x \<and> x < hi)" for x using staged(3) [OF z, of x] that by auto
    show "(p + 1) * kSector \<le> length (rw_file st) \<and> (p + 1) * kSector \<le> rw_data_bytes st"
      if "lo \<le> x" "x < hi" "lookup staged x = Some (t, Some p)" for x t p
      using staged(3) [OF z, of x] that by simp
    show "case pair' of None \<Rightarrow> True | Some fp' \<Rightarrow> unat (ht_virtual_size (fp_header fp')) = rw_vsize st \<and>
        (\<exists>r. pair_log ?V ?n fp' r \<and> (\<forall>x. lookup (r_live r) x = lookup staged x))"
    proof (cases pair')
      case (Some fp')
      then show ?thesis
        using head [OF staged(4) [OF z Some] Some] staged(4) [OF z Some] unfolding staged(3) [OF z]
        by (simp add: zeroed_log_def)
    qed simp
  qed
  show "confined lo hi st (st\<lparr>rw_pair := pair', rw_journal_failed := f\<rparr>)" if z: "z = Some (e, f)"
  proof -
    obtain fp c where fp: "pair' = Some fp" "c \<le> hi" "zeroed_log ?V ?n ?segs lo c head fp" "\<not> f \<Longrightarrow> c = lo"
      using failed [OF z] by blast
    obtain r where r: "pair_log ?V ?n fp r"
      "\<And>x. lookup (r_live r) x = (if lo \<le> x \<and> x < c then Some (0, None) else lookup ?segs x)"
      using fp(3) by (auto simp: zeroed_log_def)
    show ?thesis
      unfolding fp(1)
    proof (rule confined_failed [OF c0 inv(2,3) refl head [OF fp(3,1)] r(1)])
      show "\<forall>x. \<not> (lo \<le> x \<and> x < hi) \<longrightarrow> lookup (r_live r) x = lookup ?segs x" unfolding r(2) using fp(2) by auto
      show "lookup (r_live r) x = lookup ?segs x" if "\<not> f" for x unfolding r(2) using fp(4) [OF that] by auto
    qed
  qed
qed

lemma rw_discard_spec:
  assumes inv: "rw_inv st" "journal_inv st" and cap: "rw_data_end st \<le> kMaxMoffset"
    and run: "rw_discard offset len st io = (res, st', io')"
  shows "confined (offset div kSector) ((offset + len) div kSector) st st'"
    "res = None \<Longrightarrow> offset div kSector \<le> x \<Longrightarrow> x < (offset + len) div kSector \<Longrightarrow>
       lookup (rw_segments st') x = Some (0, None)"
    "res = None \<Longrightarrow> \<not> rw_journal_failed st'"
proof -
  let ?lo = "offset div kSector" and ?hi = "(offset + len) div kSector"
  have c0: "confined ?lo ?hi st st" using inv by (simp add: confined_def)
  obtain r1 st1 io1 where p: "prepare_mutation st io = (r1, st1, io1)" by (cases "prepare_mutation st io")
  note pm = prepare_mutation_correct [OF inv cap p]
  have c1: "confined ?lo ?hi st st1"
    using pm(1) remapped_same [of st1 st ?lo ?hi] pair_only [OF pm(2)] by (auto simp: confined_def)
  have "confined ?lo ?hi st st' \<and> (res = None \<longrightarrow> \<not> rw_journal_failed st' \<and>
      (\<forall>x. ?lo \<le> x \<and> x < ?hi \<longrightarrow> lookup (rw_segments st') x = Some (0, None)))"
  proof (cases "rw_sealed st \<or> rw_checkpointed st \<or> offset mod kSector \<noteq> 0 \<or> len mod kSector \<noteq> 0 \<or> len = 0 \<or>
      offset > rw_vsize st \<or> len > rw_vsize st - offset \<or> r1 \<noteq> None")
    case True
    then show ?thesis using run c0 p c1 by (auto simp: rw_discard_def split: if_splits option.splits)
  next
    case False
    obtain o' n where units: "offset = o' * kSector" "len = n * kSector"
      using False by (metis mod_0_imp_dvd dvdE mult.commute)
    have S: "0 < kSector" by (simp add: kSector_def)
    have lo: "?lo = o'" "?hi = o' + n" "len div kSector = n"
      unfolding units add_mult_distrib [symmetric] using S by simp_all
    have lt: "o' < o' + n" using False units by auto
    have "offset + len \<le> rw_vsize st" using False by linarith
    then have hi: "o' + n \<le> rw_sectors st1"
      using S c1 unfolding units rw_sectors_def by (simp add: less_eq_div_iff_mult_less_eq add_mult_distrib confined_def)
    have inv1: "rw_inv st1" "journal_inv st1" "\<not> rw_journal_failed st1"
      using c1 pair_only [OF pm(2)] pm(3) False by (auto simp: confined_def)
    obtain z staged pair' io2 where zl: "zero_loop o' (o' + n) o' (carve o' (o' + n) (rw_segments st1)) (rw_pair st1) io1 = (z, staged, pair', io2)"
      by (cases "zero_loop o' (o' + n) o' (carve o' (o' + n) (rw_segments st1)) (rw_pair st1) io1")
    note ds = discard_staged [OF inv1 lt hi zl]
    show ?thesis
    proof (cases z)
      case None
      have st': "st' = (mappings_changed (st1\<lparr>rw_pair := pair'\<rparr>))\<lparr>rw_segments := staged\<rparr>" "res = None"
        using run False p zl None by (simp_all add: rw_discard_def Let_def lo)
      then show ?thesis
        using confined_after [OF pm(1) ds(1) [OF None]] ds(2) [OF None] inv1(3) unfolding lo by simp
    next
      case (Some ef)
      obtain e f where ef: "ef = (e, f)" by (cases ef)
      have st': "st' = st1\<lparr>rw_pair := pair', rw_journal_failed := f\<rparr>" "res = Some e"
        using run False p zl Some ef by (simp_all add: rw_discard_def Let_def lo)
      then show ?thesis using confined_after [OF pm(1) ds(3) [OF Some [unfolded ef]]] unfolding lo by simp
    qed
  qed
  then show "confined ?lo ?hi st st'" "res = None \<Longrightarrow> ?lo \<le> x \<Longrightarrow> x < ?hi \<Longrightarrow> lookup (rw_segments st') x = Some (0, None)"
    "res = None \<Longrightarrow> \<not> rw_journal_failed st'" by blast+
qed

section \<open>Reading\<close>

lemma scan_past: "\<forall>s \<in> set ss. sector < s_offset s \<Longrightarrow> fst (scan sector ss hit lim) = hit"
  by (cases ss) simp_all

lemma scan_wf:
  assumes "wf_segs ss" "scan sector ss None lim = (hit, limit)"
  shows "hit = Some s \<Longrightarrow> s \<in> set ss \<and> covers s sector"
    "hit = None \<Longrightarrow> (\<forall>y. sector \<le> y \<and> y * kSector < limit \<longrightarrow> lookup ss y = None) \<and> limit \<le> lim \<and> (limit = lim \<or> kSector dvd limit)"
proof -
  have "case hit of Some s \<Rightarrow> s \<in> set ss \<and> covers s sector
    | None \<Rightarrow> (\<forall>y. sector \<le> y \<and> y * kSector < limit \<longrightarrow> lookup ss y = None) \<and> limit \<le> lim \<and> (limit = lim \<or> kSector dvd limit)"
    using assms
  proof (induction ss)
    case (Cons a ss)
    have wf: "wf_segs ss" "\<forall>t \<in> set ss. seg_end a \<le> s_offset t" using Cons.prems(1) by (auto simp: wf_segs_Cons)
    consider (later) "s_offset a > sector" | (hit) "s_offset a \<le> sector" "seg_end a > sector" | (skip) "s_offset a \<le> sector" "seg_end a \<le> sector"
      by linarith
    then show ?case
    proof cases
      case later
      have "lookup (a # ss) y = None" if "y * kSector < min lim (s_offset a * kSector)" for y
        using that lookup_before_head [OF Cons.prems(1), of y] by simp
      then show ?thesis using Cons.prems(2) later by (auto simp: min_def split: if_splits)
    next
      case hit
      have "\<forall>t \<in> set ss. sector < s_offset t" using wf(2) hit(2) by auto
      from scan_past [OF this, of "Some a" lim] have "hit = Some a" using Cons.prems(2) hit by simp
      then show ?thesis using hit by (simp add: covers_def)
    next
      case skip
      then have "scan sector ss None lim = (hit, limit)" using Cons.prems(2) by simp
      note IH = Cons.IH [OF wf(1) this]
      have "\<not> covers a y" if "sector \<le> y" for y using skip that by (simp add: covers_def)
      then show ?thesis using IH by (auto split: option.splits)
    qed
  qed simp
  then show "hit = Some s \<Longrightarrow> s \<in> set ss \<and> covers s sector"
    "hit = None \<Longrightarrow> (\<forall>y. sector \<le> y \<and> y * kSector < limit \<longrightarrow> lookup ss y = None) \<and> limit \<le> lim \<and> (limit = lim \<or> kSector dvd limit)"
    by auto
qed

lemma rw_pread_loop_correct:
  assumes "wf_segs segs" "\<forall>s \<in> set segs. s_tag s = 0"
    "\<And>x t p. lookup segs x = Some (t, Some p) \<Longrightarrow> (p + 1) * kSector \<le> length f"
    "k \<le> n" "rw_pread_loop segs f (n * kSector) (o' * kSector) (k * kSector) io = (res, io')"
  shows "(\<forall>bs. res = Inr bs \<longrightarrow> bs = sectors (\<lambda>x. sector_bytes [f] (lookup segs x)) (o' + k) (o' + n)) \<and>
    (io = [] \<longrightarrow> (\<exists>bs. res = Inr bs))"
  using assms(4,5)
proof (induction "n - k" arbitrary: k io res io' rule: less_induct)
  case less
  let ?sec = "\<lambda>x. sector_bytes [f] (lookup segs x)"
  have S: "0 < kSector" "kSector = kAlignment" by (simp_all add: kSector_def kAlignment_def)
  show ?case
  proof (cases "k = n")
    case True
    then show ?thesis using less.prems by (auto simp: rw_pread_loop.simps sectors_def)
  next
    case False
    then have k: "k < n" "k * kSector < n * kSector" using less.prems(1) S by simp_all
    have at: "o' * kSector + k * kSector = (o' + k) * kSector" "(o' * kSector + k * kSector) div kSector = o' + k"
      using S by (simp_all add: add_mult_distrib [symmetric])
    obtain hit limit where sc: "scan (o' + k) segs None (o' * kSector + n * kSector) = (hit, limit)"
      by (cases "scan (o' + k) segs None (o' * kSector + n * kSector)")
    note w = scan_wf [OF assms(1) sc]
    have step: "?thesis" if d: "0 < d" "k + d \<le> n" and run: "(case rest of (Inl e, io) \<Rightarrow> (Inl e, io) | (Inr r, io) \<Rightarrow> (Inr (bs @ r), io)) = (res, io')"
      and rest: "rest = rw_pread_loop segs f (n * kSector) (o' * kSector) (k * kSector + d * kSector) io1"
      and bs: "bs = sectors ?sec (o' + k) (o' + k + d)" and io1: "io = [] \<Longrightarrow> io1 = []" for d bs io1 rest
    proof -
      obtain r2 io2 where r2: "rest = (r2, io2)" by (cases rest)
      have "rw_pread_loop segs f (n * kSector) (o' * kSector) ((k + d) * kSector) io1 = (r2, io2)"
        using rest r2 by (simp add: add_mult_distrib)
      from less.hyps [OF _ d(2) this] d(1) k(1)
      have IH: "\<forall>b. r2 = Inr b \<longrightarrow> b = sectors ?sec (o' + (k + d)) (o' + n)" "io1 = [] \<longrightarrow> (\<exists>b. r2 = Inr b)" by auto
      have "sectors ?sec (o' + k) (o' + n) = bs @ sectors ?sec (o' + (k + d)) (o' + n)"
        using sectors_split [of "o' + k" "o' + k + d" "o' + n" ?sec] d bs by (simp add: add.assoc)
      then show ?thesis using IH run r2 io1 by (cases r2) auto
    qed
    note unfold = rw_pread_loop.simps [of segs f "n * kSector" "o' * kSector" "k * kSector" io]
    show ?thesis
    proof (cases hit)
      case None
      note wn = w(2) [OF None]
      have lim: "(o' + k) * kSector < limit"
        using scan_progress(1) [of "(o' + k) * kSector" segs None "o' * kSector + n * kSector" hit limit] sc k S
        by (simp add: add_mult_distrib)
      have "kSector dvd limit" using wn by (auto simp: add_mult_distrib [symmetric])
      then obtain l where l: "limit = l * kSector" by (metis dvdE mult.commute)
      define d where "d = l - (o' + k)"
      have d: "0 < d" "k + d \<le> n" using lim wn S unfolding l d_def by (auto simp: add_mult_distrib [symmetric])
      have bytes: "min (limit - (o' * kSector + k * kSector)) (n * kSector - k * kSector) = d * kSector"
        using d unfolding l at d_def diff_mult_distrib [symmetric] nat_mult_min_left [symmetric] by (simp add: min_def)
      have "sectors ?sec (o' + k) (o' + k + d) = sectors (\<lambda>_. zeros kSector) (o' + k) (o' + k + d)"
      proof (rule sectors_cong)
        fix x assume x: "o' + k \<le> x" "x < o' + k + d"
        then have "x * kSector < limit" using S unfolding l d_def by auto
        then show "?sec x = zeros kSector" using wn x(1) S(2) by (simp add: sector_bytes_def)
      qed
      then have "zeros (d * kSector) = sectors ?sec (o' + k) (o' + k + d)" by (simp add: sectors_zeros)
      moreover have "(case rw_pread_loop segs f (n * kSector) (o' * kSector) (k * kSector + d * kSector) io of
          (Inl e, io) \<Rightarrow> (Inl e, io) | (Inr r, io) \<Rightarrow> (Inr (zeros (d * kSector) @ r), io)) = (res, io')"
        using less.prems(2) unfolding unfold at(2) Let_def sc prod.case None option.case bytes using k(2) by simp
      ultimately show ?thesis using step [OF d _ refl] by blast
    next
      case (Some s)
      have s: "s \<in> set segs" "s_offset s \<le> o' + k" "o' + k < seg_end s" using w(1) [OF Some] by (auto simp: covers_def)
      define d where "d = min (seg_end s - (o' + k)) (n - k)"
      have d: "0 < d" "k + d \<le> n" using s k(1) by (auto simp: d_def)
      have bytes: "min (seg_end s * kSector - (o' * kSector + k * kSector)) (n * kSector - k * kSector) = d * kSector"
        unfolding at d_def diff_mult_distrib [symmetric] nat_mult_min_left [symmetric] by simp
      have own: "lookup segs x = Some (0, place s x)" if "o' + k \<le> x" "x < o' + k + d" for x
        using lookup_memI [OF assms(1) s(1), of x] assms(2) s that by (auto simp: covers_def d_def)
      show ?thesis
      proof (cases "s_zeroed s")
        case True
        have "sectors ?sec (o' + k) (o' + k + d) = sectors (\<lambda>_. zeros kSector) (o' + k) (o' + k + d)"
          using own True S(2) by (intro sectors_cong) (simp add: sector_bytes_def place_def)
        then have "zeros (d * kSector) = sectors ?sec (o' + k) (o' + k + d)" by (simp add: sectors_zeros)
        moreover have "(case rw_pread_loop segs f (n * kSector) (o' * kSector) (k * kSector + d * kSector) io of
            (Inl e, io) \<Rightarrow> (Inl e, io) | (Inr r, io) \<Rightarrow> (Inr (zeros (d * kSector) @ r), io)) = (res, io')"
          using less.prems(2) unfolding unfold at(2) Let_def sc prod.case Some option.case bytes using k(2) True by simp
        ultimately show ?thesis using step [OF d _ refl] by blast
      next
        case False
        define q where "q = s_moffset s + (o' + k - s_offset s)"
        have own': "lookup segs x = Some (0, Some (q + (x - (o' + k))))" if "o' + k \<le> x" "x < o' + k + d" for x
          using own [OF that] False s(2) that by (simp add: place_def q_def)
        have "(q + (d - 1) + 1) * kSector \<le> length f"
          using assms(3) [OF own' [of "o' + k + (d - 1)"]] d(1) by simp
        then have infile: "q * kSector + d * kSector \<le> length f" using d(1) by (simp add: add_mult_distrib [symmetric])
        have "sectors ?sec (o' + k) (o' + k + d) =
            sectors (\<lambda>x. padded ((q + (x - (o' + k))) * kSector) kSector f) (o' + k) (o' + k + d)"
          using own' S(2) by (intro sectors_cong) (simp add: sector_bytes_def)
        also have "\<dots> = padded (q * kSector) (d * kSector) f" by (rule sectors_padded)
        also have "\<dots> = get_bytes (q * kSector) (d * kSector) f" using infile by (simp add: padded_get length_get_bytes)
        finally have bs: "get_bytes (q * kSector) (d * kSector) f = sectors ?sec (o' + k) (o' + k + d)" by simp
        obtain rr io1 where rd: "read_all (d * kSector) (q * kSector) f io = (rr, io1)"
          by (cases "read_all (d * kSector) (q * kSector) f io")
        have run: "(case rr of Inl e \<Rightarrow> (Inl e, io1) | Inr b \<Rightarrow>
            (case rw_pread_loop segs f (n * kSector) (o' * kSector) (k * kSector + d * kSector) io1 of
               (Inl e, io) \<Rightarrow> (Inl e, io) | (Inr r, io) \<Rightarrow> (Inr (b @ r), io))) = (res, io')"
          using less.prems(2) unfolding unfold at(2) Let_def sc prod.case Some option.case bytes q_def [symmetric] rd
          using k(2) False by simp
        have io1: "io = [] \<Longrightarrow> io1 = [] \<and> rr = Inr (get_bytes (q * kSector) (d * kSector) f)" using rd infile by simp
        show ?thesis
        proof (cases rr)
          case (Inl e)
          then show ?thesis using run io1 by auto
        next
          case (Inr b)
          then have "b = get_bytes (q * kSector) (d * kSector) f" using read_all_Inr rd by blast
          then have "(case rw_pread_loop segs f (n * kSector) (o' * kSector) (k * kSector + d * kSector) io1 of
              (Inl e, io) \<Rightarrow> (Inl e, io) | (Inr r, io) \<Rightarrow> (Inr (get_bytes (q * kSector) (d * kSector) f @ r), io)) = (res, io')"
            using run Inr by simp
          from step [OF d this refl bs] io1 show ?thesis by blast
        qed
      qed
    qed
  qed
qed

lemma rw_pread_spec:
  assumes inv: "rw_inv st" and run: "rw_pread st count offset io = (res, io')" and off: "offset < rw_vsize st"
  shows "res = Inr bs \<Longrightarrow> bs = sectors (rw_sector st) (offset div kSector) ((offset + min count (rw_vsize st - offset)) div kSector)"
    "io = [] \<Longrightarrow> \<not> rw_journal_failed st \<Longrightarrow> rw_open st \<Longrightarrow> offset mod kSector = 0 \<Longrightarrow> count mod kSector = 0 \<Longrightarrow> \<exists>bs. res = Inr bs"
proof -
  have main: "(\<forall>bs. res = Inr bs \<longrightarrow> bs = sectors (rw_sector st) (offset div kSector) ((offset + min count (rw_vsize st - offset)) div kSector)) \<and>
    (io = [] \<longrightarrow> (\<exists>bs. res = Inr bs))"
    if ok: "\<not> rw_journal_failed st" "rw_open st" "offset mod kSector = 0" "count mod kSector = 0"
  proof -
    have "rw_vsize st mod kSector = 0" using inv by (simp add: rw_inv_def)
    then obtain o' c v where units: "offset = o' * kSector" "count = c * kSector" "rw_vsize st = v * kSector"
      using ok(3,4) by (metis mod_0_imp_dvd dvdE mult.commute)
    have S: "0 < kSector" by (simp add: kSector_def)
    define n where "n = min c (v - o')"
    have n: "min count (rw_vsize st - offset) = n * kSector"
      unfolding units n_def diff_mult_distrib [symmetric] nat_mult_min_left ..
    have div: "offset div kSector = o' + 0" "(offset + n * kSector) div kSector = o' + n"
      unfolding units add_mult_distrib [symmetric] using S by simp_all
    have "rw_pread_loop (rw_segments st) (rw_file st) (n * kSector) (o' * kSector) (0 * kSector) io = (res, io')"
      using run ok off unfolding rw_pread_def n by (simp add: units)
    from rw_pread_loop_correct [OF _ _ _ _ this] inv show ?thesis
      unfolding n div by (auto simp: rw_inv_def seg_bounded_def rw_sector_def [abs_def])
  qed
  then show "io = [] \<Longrightarrow> \<not> rw_journal_failed st \<Longrightarrow> rw_open st \<Longrightarrow> offset mod kSector = 0 \<Longrightarrow> count mod kSector = 0 \<Longrightarrow> \<exists>bs. res = Inr bs"
    by blast
  have "\<not> rw_journal_failed st \<and> rw_open st \<and> offset mod kSector = 0 \<and> count mod kSector = 0" if "res = Inr bs"
    using run that off by (auto simp: rw_pread_def split: if_splits)
  then show "res = Inr bs \<Longrightarrow> bs = sectors (rw_sector st) (offset div kSector) ((offset + min count (rw_vsize st - offset)) div kSector)"
    using main by auto
qed

section \<open>Properties\<close>

text \<open>C2: A write to the layer. Whatever system call fails, the invariant of the layer and the agreement
  of the journal with the index are kept, and every sector outside the written range reads as
  before, from the live layer and after a reopen from the journal. When the write succeeds the
  sectors of the range hold the bytes of the caller, live and durably.\<close>

theorem rw_pwrite_correct:
  assumes "rw_inv st" and "journal_inv st" and "rw_data_end st + length src div kSector \<le> kMaxMoffset"
    and "rw_pwrite src offset st io = (res, st', io')"
  shows "rw_inv st' \<and> journal_inv st' \<and>
    (\<forall>x. \<not> (offset div kSector \<le> x \<and> x < (offset + length src) div kSector) \<longrightarrow>
       rw_sector st' x = rw_sector st x \<and> rw_durable st' x = rw_durable st x) \<and>
    (\<forall>n. res = Inr n \<longrightarrow> n = length src \<and>
       (\<forall>x. offset div kSector \<le> x \<and> x < (offset + length src) div kSector \<longrightarrow>
          rw_sector st' x = get_bytes (x * kSector - offset) kSector src \<and>
          rw_durable st' x = get_bytes (x * kSector - offset) kSector src))"
proof -
  note w = rw_pwrite_spec [OF assms]
  have "rw_durable st' x = rw_sector st' x" if "res = Inr n" for x n
    using journal_agrees [of st' x] w(1) w(2) [OF that] by (simp add: confined_def)
  then show ?thesis using w unfolding confined_def by simp
qed

text \<open>C15: A discard. It keeps the invariant and the journal, leaves every other sector alone whatever
  fails, and on success the range reads as zeros, live and after a reopen, owned by zeroed
  mappings rather than by holes.\<close>

theorem rw_discard_correct:
  assumes "rw_inv st" and "journal_inv st" and "rw_data_end st \<le> kMaxMoffset"
    and "rw_discard offset len st io = (res, st', io')"
  shows "rw_inv st' \<and> journal_inv st' \<and>
    (\<forall>x. \<not> (offset div kSector \<le> x \<and> x < (offset + len) div kSector) \<longrightarrow>
       rw_sector st' x = rw_sector st x \<and> rw_durable st' x = rw_durable st x) \<and>
    (res = None \<longrightarrow> (\<forall>x. offset div kSector \<le> x \<and> x < (offset + len) div kSector \<longrightarrow>
       lookup (rw_segments st') x = Some (0, None) \<and>
       rw_sector st' x = zeros kSector \<and> rw_durable st' x = zeros kSector))"
proof -
  note d = rw_discard_spec [OF assms]
  have "rw_durable st' x = rw_sector st' x" if "res = None" for x
    using journal_agrees [of st' x] d(1) d(3) [OF that] by (simp add: confined_def)
  moreover have "rw_sector st' x = zeros kSector"
    if "res = None" "offset div kSector \<le> x \<and> x < (offset + len) div kSector" for x
    using d(2) [OF that(1)] that(2) by (simp add: rw_sector_def sector_bytes_def kSector_def kAlignment_def)
  ultimately show ?thesis using d unfolding confined_def by simp
qed

text \<open>C16: Reading the layer alone. A successful read of a range inside the device returns the content
  of its sectors, cut at the end of the device; it succeeds when no system call fails.\<close>

theorem rw_pread_correct:
  assumes "rw_inv st" and "offset < rw_vsize st" and "rw_pread st count offset io = (res, io')"
  shows "(\<forall>bs. res = Inr bs \<longrightarrow>
      bs = sectors (rw_sector st) (offset div kSector) ((offset + min count (rw_vsize st - offset)) div kSector)) \<and>
    (io = [] \<and> \<not> rw_journal_failed st \<and> rw_open st \<and> offset mod kSector = 0 \<and> count mod kSector = 0 \<longrightarrow>
      (\<exists>bs. res = Inr bs))"
  using rw_pread_spec [OF assms(1,3,2)] by auto

text \<open>An empty layer of eight sectors with its journal.\<close>

definition sample_rw :: LsmtRw where
  "sample_rw = \<lparr>rw_file = zeros 4096, rw_open = True, rw_data_bytes = 4096, rw_vsize = 4096, rw_data_end = 8,
     rw_uuid = [], rw_pair = Some sample_pair, rw_journal_failed = False, rw_sealed = False,
     rw_checkpointed = False, rw_grow_op = False, rw_terminal_op = False, rw_segments = [], rw_revision = 0\<rparr>"

lemma sample_rw_inv: "rw_inv sample_rw" "journal_inv sample_rw"
proof -
  show "rw_inv sample_rw"
    by (simp add: rw_inv_def sample_rw_def owns_once_def rw_sectors_def kSector_def kHeaderSectors_def kMaxOffset_def)
  have "pair_log 8 8 sample_pair (replay_from 8 8)"
    by (simp add: pair_log_def sample_pair_def kSpace_def kEncodedSize_def log_bytes_def get_bytes_def
        replay_loop.simps replay_from_def)
  moreover from pair_log_owner [OF this] have "journal_view sample_rw x = None" for x
    by (simp add: journal_view_def sample_rw_def replay_from_def)
  ultimately show "journal_inv sample_rw"
    unfolding journal_inv_def by (auto simp: sample_rw_def rw_sectors_def kSector_def) (simp add: sample_pair_def)
qed

lemma sample_append:
  "\<exists>fp. pair_append \<lparr>s_offset = Suc 0, s_length = Suc 0, s_moffset = 8, s_zeroed = z, s_tag = 0\<rparr> sample_pair [] = (None, fp, [])"
  by (simp add: pair_append_def sample_pair_def kSpace_def kMaxLogRecords_def kMaxRoIndexSize_def
      plan_ranges_def cut_range_def Let_def)

lemma sample_pwrite: "\<exists>st. rw_pwrite (replicate 512 7) 512 sample_rw [] = (Inr 512, st, [])"
proof -
  have plan: "plan_ops [] 1 2 8 = ([\<lparr>op_voff = 1, op_moff = 8, op_nsector = 1, op_inplace = False\<rparr>], 9)"
    by (simp add: plan_ops_def)
  have prep: "prepare_mutation sample_rw [] = (None, sample_rw, [])"
    by (simp add: prepare_mutation_def sample_rw_def sample_pair_def kSpace_def)
  have "\<exists>st. pwrite_piece (replicate 512 7) 512 1 2 sample_rw [] = (None, st, [])"
    using sample_append [of False] plan
    by (auto simp: pwrite_piece_def sample_rw_def op_seg_def Let_def)
  then obtain st where piece: "pwrite_piece (replicate 512 7) 512 1 2 sample_rw [] = (None, st, [])" by blast
  have loop: "pwrite_loop (replicate 512 7) 512 512 0 sample_rw [] = (None, st, [])"
  proof -
    have m: "min (512 - 0) (kMaxSegLen * kSector) = 512" "(512 + 0) div kSector = 1" "1 + 512 div kSector = 2"
      by (simp_all add: kSector_def kMaxSegLen_def kMaxLength_def)
    show ?thesis
      unfolding pwrite_loop.simps [of _ _ 512 0] Let_def m
      by (simp del: One_nat_def add: piece pwrite_loop.simps [of _ _ 512 512])
  qed
  have flags: "\<not> rw_sealed sample_rw" "\<not> rw_checkpointed sample_rw" "rw_vsize sample_rw = 4096" "rw_open sample_rw"
    by (simp_all add: sample_rw_def)
  show ?thesis using prep loop flags by (simp add: rw_pwrite_def kSector_def)
qed

theorem rw_pwrite_correct_witness:
  "\<exists>st. rw_pwrite (replicate 512 7) 512 sample_rw [] = (Inr 512, st, []) \<and> rw_inv st \<and>
     rw_sector st 1 = replicate 512 7 \<and> rw_durable st 1 = replicate 512 7 \<and> rw_sector st 2 = rw_sector sample_rw 2"
proof -
  obtain st where st: "rw_pwrite (replicate 512 7) 512 sample_rw [] = (Inr 512, st, [])" using sample_pwrite by blast
  have "rw_data_end sample_rw + length (replicate 512 (7 :: byte)) div kSector \<le> kMaxMoffset"
    by (simp add: sample_rw_def kSector_def kMaxMoffset_def)
  from rw_pwrite_correct [OF sample_rw_inv this st] st show ?thesis
    by (intro exI [of _ st]) (simp add: kSector_def get_bytes_def)
qed

theorem rw_discard_correct_witness:
  "\<exists>st. rw_discard 512 512 sample_rw [] = (None, st, []) \<and> lookup (rw_segments st) 1 = Some (0, None) \<and>
     rw_sector st 1 = zeros 512"
proof -
  have prep: "prepare_mutation sample_rw [] = (None, sample_rw, [])"
    by (simp add: prepare_mutation_def sample_rw_def sample_pair_def kSpace_def)
  obtain fp where fp: "pair_append (zero_seg 1 1) sample_pair [] = (None, fp, [])"
    using sample_append [of True] by (auto simp: zero_seg_def kHeaderSectors_def)
  have m: "min (2 - 1) kMaxSegLen = 1" by (simp add: kMaxSegLen_def kMaxLength_def)
  have "zero_loop 1 2 1 [] (Some sample_pair) [] = (None, insert_sorted (zero_seg 1 1) [], Some fp, [])"
    unfolding zero_loop.simps [of _ 2 1] Let_def m by (simp del: One_nat_def add: fp zero_loop.simps [of _ 2 2])
  moreover have "\<not> rw_sealed sample_rw" "\<not> rw_checkpointed sample_rw" "rw_vsize sample_rw = 4096"
    "rw_segments sample_rw = []" "rw_pair sample_rw = Some sample_pair"
    by (simp_all add: sample_rw_def)
  ultimately have "\<exists>st. rw_discard 512 512 sample_rw [] = (None, st, [])"
    using prep by (simp add: rw_discard_def kSector_def carve_def numeral_2_eq_2)
  then obtain st where st: "rw_discard 512 512 sample_rw [] = (None, st, [])" by blast
  have "rw_data_end sample_rw \<le> kMaxMoffset" by (simp add: sample_rw_def kMaxMoffset_def)
  from rw_discard_correct [OF sample_rw_inv this st] st show ?thesis
    by (intro exI [of _ st]) (simp add: kSector_def)
qed

theorem rw_pread_correct_witness:
  "\<exists>bs. rw_pread sample_rw 1024 512 [] = (Inr bs, []) \<and> bs = sectors (rw_sector sample_rw) 1 3"
proof -
  have run: "rw_pread sample_rw 1024 512 [] = (Inr (zeros 1024), [])"
    by (simp add: rw_pread_def sample_rw_def kSector_def rw_pread_loop.simps [of _ _ _ 512])
  have "512 < rw_vsize sample_rw" by (simp add: sample_rw_def)
  from rw_pread_correct [OF sample_rw_inv(1) this run] run show ?thesis
    by (simp add: kSector_def sample_rw_def)
qed

end
