(* ===== verification/LsmtRwOpen.thy ===== *)
theory LsmtRwOpen
  imports LsmtRwFile LsmtLayer
begin

unbundle bit_operations_syntax


text \<open>
  Opening, growing and recovering the file pair of a writable layer (\<open>src/format/lsmt_rw_file.cpp\<close>).
  The state on disk is the data file, the index file and the grow intent beside it; a crash is a
  script whose system calls fail from some point on, with the write it hits cut at any byte.
  \<open>recover_grow\<close> rolls an interrupted grow forward. The theorems say that from every state a
  crashed grow can leave, recovery ends with both headers agreeing on the old or on the new
  capacity, and with payload and log untouched.

  The checksum is \<open>crc32c\<close> as the software routine computes it; the dispatch to hardware does not
  change its value (theory \<open>Crc32c\<close>). Ownership locks, directories and names are left out: the
  model is one workspace.
\<close>

section \<open>Reading the log\<close>

text \<open>The log is replayed in pieces of the 4096-byte buffer.\<close>

function replay_chunks :: "bytes \<Rightarrow> nat \<Rightarrow> nat \<Rightarrow> Replay \<Rightarrow> script \<Rightarrow> Replay result \<times> script" where
  "replay_chunks index fin off r io =
     (if off \<ge> fin then (Inr r, io)
      else
        let count = min kSpace (fin - off) in
        case read_all count off index io of
          (Inl e, io) \<Rightarrow> (Inl e, io)
        | (Inr raw, io) \<Rightarrow>
            (case replay_append r raw of
               Inl e \<Rightarrow> (Inl e, io)
             | Inr r \<Rightarrow> replay_chunks index fin (off + count) r io))"
  by pat_completeness auto
termination
  by (relation "measure (\<lambda>(index, fin, off, r, io). fin - off)") (auto simp: kSpace_def)

declare replay_chunks.simps [simp del]

definition replay_file :: "nat \<Rightarrow> nat \<Rightarrow> bytes \<Rightarrow> nat \<Rightarrow> script \<Rightarrow> segment_mapping list result \<times> script" where
  "replay_file vsize data_size index fin io = (case replay_new vsize data_size of
     Inl e \<Rightarrow> (Inl e, io)
   | Inr r \<Rightarrow> (case replay_chunks index fin kSpace r io of
       (Inl e, io) \<Rightarrow> (Inl e, io)
     | (Inr r, io) \<Rightarrow> (replay_finish r, io)))"

section \<open>Growing\<close>

definition pair_crc :: "bytes \<Rightarrow> 32 word" where
  "pair_crc raw = crc32c False 0 raw"

definition encode_grow :: "nat \<Rightarrow> HeaderTrailer \<Rightarrow> HeaderTrailer \<Rightarrow> bytes result" where
  "encode_grow old target target_index =
     bindR (serialize_ht target) (\<lambda>d. bindR (serialize_ht target_index) (\<lambda>i.
       let body = store_u64_le kGrowMagic @ store_u64_le (of_nat old) @ d @ i
       in Inr (body @ store_u32_le (pair_crc body))))"

definition decode_grow :: "bytes \<Rightarrow> (64 word \<times> HeaderTrailer \<times> HeaderTrailer) result" where
  "decode_grow raw =
     (if length raw \<noteq> kGrowBytes then Inl EINVAL
      else if load_u64_le raw \<noteq> kGrowMagic \<or>
              load_u32_le (drop (kGrowBytes - 4) raw) \<noteq> pair_crc (take (kGrowBytes - 4) raw) then Inl EINVAL
      else bindR (parse_ht (drop 16 raw)) (\<lambda>target. bindR (parse_ht (drop (16 + kSpace) raw)) (\<lambda>target_index.
        let old_size = load_u64_le (drop 8 raw) in
        if old_size = 0 \<or> unat old_size mod kAlignment \<noteq> 0 \<or> ht_virtual_size target \<le> old_size then Inl EINVAL
        else Inr (old_size, target, target_index))))"

text \<open>The capacity a header may show while the intent is pending: a byte prefix of the new one.\<close>

definition capacity_mix :: "nat \<Rightarrow> 64 word \<Rightarrow> 64 word \<Rightarrow> 64 word" where
  "capacity_mix prefix new old = (new AND mask (8 * prefix)) OR (old AND NOT (mask (8 * prefix)))"

definition capacity_matches :: "64 word \<Rightarrow> 64 word \<Rightarrow> 64 word \<Rightarrow> bool" where
  "capacity_matches v new old \<longleftrightarrow> (\<exists>prefix \<in> set [0..<9]. v = capacity_mix prefix new old)"

text \<open>The check of one live header against the intent.\<close>

definition header_matches :: "bytes \<Rightarrow> 64 word \<Rightarrow> HeaderTrailer \<Rightarrow> HeaderTrailer \<Rightarrow> script \<Rightarrow> errno option \<times> script" where
  "header_matches f old target wanted io = (case read_all kSpace 0 f io of
     (Inl e, io) \<Rightarrow> (Some e, io)
   | (Inr current, io) \<Rightarrow>
       (case bindR (parse_ht current) (\<lambda>header.
               if \<not> capacity_matches (ht_virtual_size header) (ht_virtual_size target) old then Inl EINVAL
               else bindR (serialize_ht (header\<lparr>ht_virtual_size := ht_virtual_size target\<rparr>)) (\<lambda>a.
                 bindR (serialize_ht wanted) (\<lambda>b. if a \<noteq> b then Inl EINVAL else Inr ()))) of
          Inl e \<Rightarrow> (Some e, io) | Inr _ \<Rightarrow> (None, io)))"

definition complete_records :: "nat \<Rightarrow> nat" where
  "complete_records index_size = kSpace + (index_size - kSpace) div 16 * 16"

definition align_down :: "nat \<Rightarrow> nat" where
  "align_down n = n div kAlignment * kAlignment"

text \<open>The validation half of \<open>recover_grow\<close>, which writes nothing.\<close>

definition check_grow :: "bytes \<Rightarrow> bytes \<Rightarrow> FilePair \<Rightarrow> script \<Rightarrow> HeaderTrailer result \<times> script" where
  "check_grow raw data fp io = (case decode_grow raw of
     Inl e \<Rightarrow> (Inl e, io)
   | Inr (old, target, target_index) \<Rightarrow>
       let data_size = align_down (length data);
           fin = complete_records (length (fp_index fp))
       in if length (fp_index fp) < kSpace then (Inl EINVAL, io)
       else case validate_pair target target_index data_size fin of
         Inl e \<Rightarrow> (Inl e, io)
       | Inr _ \<Rightarrow>
           (case header_matches data old target target io of (Some e, io) \<Rightarrow> (Inl e, io) | (None, io) \<Rightarrow>
             (case header_matches (fp_index fp) old target target_index io of (Some e, io) \<Rightarrow> (Inl e, io) | (None, io) \<Rightarrow>
               (case replay_file (unat (ht_virtual_size target)) data_size (fp_index fp) fin io of
                  (Inl e, io) \<Rightarrow> (Inl e, io) | (Inr _, io) \<Rightarrow> (Inr target, io)))))"

text \<open>The rest: both headers are rewritten and made durable, then the intent is retired.\<close>

definition apply_grow :: "bytes \<Rightarrow> bytes \<Rightarrow> FilePair \<Rightarrow> script \<Rightarrow> bool result \<times> bytes \<times> FilePair \<times> script" where
  "apply_grow raw data fp io =
     (case write_all (get_bytes 16 kSpace raw) 0 data io of (Some e, data, io) \<Rightarrow> (Inl e, data, fp, io) | (None, data, io) \<Rightarrow>
       (case write_all (get_bytes (16 + kSpace) kSpace raw) 0 (fp_index fp) io of
          (r, index, io) \<Rightarrow> let fp = fp\<lparr>fp_index := index\<rparr> in
          (case r of Some e \<Rightarrow> (Inl e, data, fp, io) | None \<Rightarrow>
            (case sys_call io of (Some e, io) \<Rightarrow> (Inl e, data, fp, io) | (None, io) \<Rightarrow>
              (case sys_call io of (Some e, io) \<Rightarrow> (Inl e, data, fp, io) | (None, io) \<Rightarrow>
                (case sys_call io of (Some e, io) \<Rightarrow> (Inl e, data, fp, io) | (None, io) \<Rightarrow>
                  let fp = fp\<lparr>fp_grow_intent := None\<rparr> in
                  (case sys_call io of (Some e, io) \<Rightarrow> (Inl e, data, fp, io) | (None, io) \<Rightarrow>
                    (Inr True, data, fp\<lparr>fp_growth_pending := False, fp_poisoned := False\<rparr>, io))))))))"

definition recover_grow :: "bytes \<Rightarrow> FilePair \<Rightarrow> script \<Rightarrow> bool result \<times> bytes \<times> FilePair \<times> script" where
  "recover_grow data fp io = (case fp_grow_intent fp of
     None \<Rightarrow> (Inr False, data, fp, io)
   | Some raw \<Rightarrow>
       (case sys_call io of (Some e, io) \<Rightarrow> (Inl e, data, fp, io) | (None, io) \<Rightarrow>
         (case check_grow raw data fp io of
            (Inl e, io) \<Rightarrow> (Inl e, data, fp, io)
          | (Inr target, io) \<Rightarrow>
              apply_grow raw data (fp\<lparr>fp_growth_pending := True, fp_poisoned := True, fp_header := target\<rparr>) io)))"

text \<open>The part of \<open>grow\<close> after a pending transaction is settled.\<close>

definition start_grow :: "nat \<Rightarrow> bytes \<Rightarrow> FilePair \<Rightarrow> script \<Rightarrow> errno option \<times> bytes \<times> FilePair \<times> script" where
  "start_grow vsize data fp io =
     (if vsize = 0 \<or> vsize mod kAlignment \<noteq> 0 \<or> vsize div kAlignment > kMaxOffset \<or>
         vsize < unat (ht_virtual_size (fp_header fp)) then (Some EINVAL, data, fp, io)
      else if vsize = unat (ht_virtual_size (fp_header fp)) then (None, data, fp, io)
      else case read_all kSpace 0 (fp_index fp) io of (Inl e, io) \<Rightarrow> (Some e, data, fp, io) | (Inr current, io) \<Rightarrow>
        (case bindR (parse_ht current) (\<lambda>ih.
                bindR (validate_pair (fp_header fp) ih (length data) (fp_index_bytes fp)) (\<lambda>_.
                  encode_grow (unat (ht_virtual_size (fp_header fp)))
                    ((fp_header fp)\<lparr>ht_virtual_size := of_nat vsize\<rparr>) (ih\<lparr>ht_virtual_size := of_nat vsize\<rparr>))) of
           Inl e \<Rightarrow> (Some e, data, fp, io)
         | Inr raw \<Rightarrow>
             (case sys_call io of (Some e, io) \<Rightarrow> (Some e, data, fp, io) | (None, io) \<Rightarrow>
               (case write_all raw 0 [] io of (Some e, _, io) \<Rightarrow> (Some e, data, fp, io) | (None, intent, io) \<Rightarrow>
                 (case sys_call io of (Some e, io) \<Rightarrow> (Some e, data, fp, io) | (None, io) \<Rightarrow>
                   (case sys_call io of (Some e, io) \<Rightarrow> (Some e, data, fp, io) | (None, io) \<Rightarrow>
                     if fp_grow_intent fp \<noteq> None then (Some EEXIST, data, fp, io)
                     else let fp = fp\<lparr>fp_grow_intent := Some intent, fp_growth_pending := True, fp_poisoned := True\<rparr> in
                       (case sys_call io of (Some e, io) \<Rightarrow> (Some e, data, fp, io) | (None, io) \<Rightarrow>
                         (case recover_grow data fp io of
                            (Inl e, data, fp, io) \<Rightarrow> (Some e, data, fp, io)
                          | (Inr _, data, fp, io) \<Rightarrow> (None, data, fp, io)))))))))"

definition pair_grow :: "nat \<Rightarrow> bytes \<Rightarrow> FilePair \<Rightarrow> script \<Rightarrow> errno option \<times> bytes \<times> FilePair \<times> script" where
  "pair_grow vsize data fp io =
     (if fp_poisoned fp \<and> \<not> fp_growth_pending fp then (Some EIO, data, fp, io)
      else if fp_growth_pending fp then
        (case recover_grow data fp io of
           (Inl e, data, fp, io) \<Rightarrow> (Some e, data, fp, io)
         | (Inr _, data, fp, io) \<Rightarrow>
             (case sys_call io of (Some e, io) \<Rightarrow> (Some e, data, fp, io) | (None, io) \<Rightarrow>
               start_grow vsize data (fp\<lparr>fp_growth_pending := False, fp_poisoned := False\<rparr>) io))
      else start_grow vsize data fp io)"

section \<open>Opening\<close>

text \<open>Whether the file ends in a complete sealed trailer: the loop over its index.\<close>

fun sealed_index_ok :: "bytes \<Rightarrow> nat \<Rightarrow> nat \<Rightarrow> nat \<Rightarrow> nat \<Rightarrow> nat \<Rightarrow> script \<Rightarrow> bool result \<times> script" where
  "sealed_index_ok f index_offset vsize previous i 0 io = (Inr True, io)"
| "sealed_index_ok f index_offset vsize previous i (Suc n) io =
     (case read_all 16 (index_offset + 16 * i) f io of
        (Inl e, io) \<Rightarrow> (Inl e, io)
      | (Inr record, io) \<Rightarrow>
          let m = load_segment_le record; fin = index_offset div kAlignment in
          if s_offset m = kInvalidOffset then sealed_index_ok f index_offset vsize previous (Suc i) n io
          else if s_length m = 0 \<or> s_offset m < previous \<or> seg_end m > vsize div kAlignment then (Inr False, io)
          else if s_moffset m < kDataStartSector \<or> s_moffset m > fin \<or>
                  (\<not> s_zeroed m \<and> (s_moffset m = fin \<or> s_length m > fin - s_moffset m)) then (Inr False, io)
          else sealed_index_ok f index_offset vsize (seg_end m) (Suc i) n io)"

definition sealed_trailer :: "bytes \<Rightarrow> script \<Rightarrow> bool result \<times> script" where
  "sealed_trailer f io =
     (if length f < 2 * kSpace then (Inr False, io)
      else case read_all kSpace (length f - kSpace) f io of
        (Inl e, io) \<Rightarrow> (Inl e, io)
      | (Inr raw, io) \<Rightarrow>
          (case parse_ht raw of
             Inl _ \<Rightarrow> (Inr False, io)
           | Inr tail \<Rightarrow>
               let index_offset = unat (ht_index_offset tail); index_size = unat (ht_index_size tail);
                   vsize = unat (ht_virtual_size tail)
               in if ht_flags tail \<noteq> 6 \<or> ht_version tail \<noteq> 1 \<or> ht_sub_version tail \<noteq> 1 \<or>
                     index_offset < kSpace \<or> index_offset > length f - kSpace \<or> index_size > kMaxRoIndexSize \<or>
                     index_size * 16 > length f - kSpace - index_offset \<or> vsize mod kAlignment \<noteq> 0
                  then (Inr False, io)
                  else sealed_index_ok f index_offset vsize 0 0 index_size io))"

text \<open>The last part of \<open>open_sync\<close>: both headers are known to agree on the grow state.\<close>

definition load_pair :: "bytes \<Rightarrow> FilePair \<Rightarrow> script \<Rightarrow> (bytes \<times> FilePair) result \<times> script" where
  "load_pair data fp io =
     (let fin = complete_records (length (fp_index fp));
          complete_data = align_down (length data)
      in case read_all kSpace 0 (fp_index fp) io of (Inl e, io) \<Rightarrow> (Inl e, io) | (Inr raw, io) \<Rightarrow>
        (case bindR (parse_ht raw) (\<lambda>ih. validate_pair (fp_header fp) ih complete_data fin) of
           Inl e \<Rightarrow> (Inl e, io)
         | Inr _ \<Rightarrow>
             (case replay_file (unat (ht_virtual_size (fp_header fp))) complete_data (fp_index fp) fin io of
                (Inl e, io) \<Rightarrow> (Inl e, io)
              | (Inr live, io) \<Rightarrow>
                  let data_bytes = (length data + kAlignment - 1) div kAlignment * kAlignment;
                      fp = fp\<lparr>fp_index_bytes := fin, fp_mappings := live, fp_live_ranges := map seg_range live\<rparr>
                  in case (if length (fp_index fp) \<noteq> fin then sys_call io else (None, io)) of
                    (Some e, io) \<Rightarrow> (Inl e, io)
                  | (None, io) \<Rightarrow>
                      (let fp = fp\<lparr>fp_index := take fin (fp_index fp), fp_data_bytes := data_bytes\<rparr> in
                       case (if length data \<noteq> data_bytes then sys_call io else (None, io)) of
                         (Some e, io) \<Rightarrow> (Inl e, io)
                       | (None, io) \<Rightarrow> (Inr (data @ zeros (data_bytes - length data), fp), io)))))"

text \<open>\<open>open_sync\<close> on the files of a workspace, given the index file and the grow intent.\<close>

definition new_pair :: "bytes \<Rightarrow> bytes option \<Rightarrow> HeaderTrailer \<Rightarrow> FilePair" where
  "new_pair index intent header = \<lparr>fp_index = index, fp_index_bytes = 0, fp_data_bytes = 0, fp_poisoned = False,
     fp_growth_pending = False, fp_header = header, fp_mappings = [], fp_live_ranges = [], fp_grow_intent = intent\<rparr>"

definition open_sync :: "bytes \<Rightarrow> bytes \<Rightarrow> bytes option \<Rightarrow> script \<Rightarrow> (bytes \<times> FilePair) result \<times> script" where
  "open_sync data index intent io =
     (if length data < kSpace then (Inl EINVAL, io)
      else case read_all kSpace 0 data io of (Inl e, io) \<Rightarrow> (Inl e, io) | (Inr raw, io) \<Rightarrow>
        (case parse_ht raw of Inl e \<Rightarrow> (Inl e, io) | Inr header \<Rightarrow>
          (case (if is_sealed header then (Inr True, io) else sealed_trailer data io) of
             (Inl e, io) \<Rightarrow> (Inl e, io)
           | (Inr True, io) \<Rightarrow> (Inl EALREADY, io)
           | (Inr False, io) \<Rightarrow>
               if length index < kSpace then (Inl EINVAL, io)
               else case recover_grow data (new_pair index intent header) io of
                 (Inl e, _, _, io) \<Rightarrow> (Inl e, io)
               | (Inr _, data, fp, io) \<Rightarrow> load_pair data fp io)))"


section \<open>Torn headers\<close>

text \<open>A block whose overwriting stopped after \<open>n\<close> bytes.\<close>

definition torn :: "nat \<Rightarrow> bytes \<Rightarrow> bytes \<Rightarrow> bytes" where
  "torn n new old = take n new @ drop n old"

lemma torn_0 [simp]: "torn 0 new old = old"
  by (simp add: torn_def)

lemma torn_full: "length new = length old \<Longrightarrow> length new \<le> n \<Longrightarrow> torn n new old = new"
  by (simp add: torn_def)

lemma length_torn [simp]: "length new = length old \<Longrightarrow> length (torn n new old) = length old"
  by (simp add: torn_def)

lemma rewrite_torn:
  assumes "length new = length old"
  shows "file_write 0 (take n new) (torn k new old @ rest) = torn (max n k) new old @ rest"
proof (rule nth_equalityI)
  show len: "length (file_write 0 (take n new) (torn k new old @ rest)) = length (torn (max n k) new old @ rest)"
    using assms by (auto simp: length_file_write)
  fix i assume i: "i < length (file_write 0 (take n new) (torn k new old @ rest))"
  have "torn j new old ! i = (if i < j then new ! i else old ! i)" if "i < length old" for j
    using that assms by (auto simp: torn_def nth_append min_def)
  then show "file_write 0 (take n new) (torn k new old @ rest) ! i = (torn (max n k) new old @ rest) ! i"
    using i len assms by (subst file_write_nth) (auto simp: nth_append length_file_write)
qed

lemma byte_of_mix:
  assumes "i < 8"
  shows "ucast (drop_bit (8 * i) (capacity_mix k new old)) =
    (if i < k then ucast (drop_bit (8 * i) new) else ucast (drop_bit (8 * i) old) :: byte)"
  by (rule bit_word_eqI) (use assms in \<open>auto simp: capacity_mix_def bit_simps\<close>)

lemma store_mix:
  assumes "k \<le> 8"
  shows "store_u64_le (capacity_mix k new old) = torn k (store_u64_le new) (store_u64_le old)"
proof (rule nth_equalityI)
  show "length (store_u64_le (capacity_mix k new old)) = length (torn k (store_u64_le new) (store_u64_le old))"
    by (simp add: length_store_le)
  fix i assume "i < length (store_u64_le (capacity_mix k new old))"
  then have i: "i < 8" by (simp add: length_store_le)
  have nth: "store_u64_le w ! i = ucast (drop_bit (8 * i) w)" for w
    using i by (auto simp: store_u64_le_def less_Suc_eq numeral_eq_Suc nth_Cons')
  show "store_u64_le (capacity_mix k new old) ! i = torn k (store_u64_le new) (store_u64_le old) ! i"
    using i byte_of_mix [OF i, of k new old] by (simp add: torn_def nth_append length_store_le nth min_def)
qed

lemma mix_0: "capacity_mix 0 new old = old"
  by (rule bit_word_eqI) (simp add: capacity_mix_def bit_simps)

lemma mix_8: "capacity_mix 8 new old = new"
  by (rule bit_word_eqI) (simp add: capacity_mix_def bit_simps)

text \<open>A header torn by a change of its capacity is a header with a mixed capacity.\<close>

lemma torn_header:
  assumes "ht_strings_ok ht"
  shows "\<exists>k \<le> 8. torn n (ht_fields (ht\<lparr>ht_virtual_size := new\<rparr>)) (ht_fields (ht\<lparr>ht_virtual_size := old\<rparr>)) =
    ht_fields (ht\<lparr>ht_virtual_size := capacity_mix k new old\<rparr>)"
proof -
  obtain pre suf where split: "\<And>v. ht_fields (ht\<lparr>ht_virtual_size := v\<rparr>) = pre @ store_u64_le v @ suf" and pre: "length pre = 48"
  proof
    let ?pre = "kMagic0 @ kMagic1 @ store_u32_le (of_nat kHeaderSize) @ store_u32_le (ht_flags ht) @
      store_u64_le (ht_index_offset ht) @ store_u64_le (ht_index_size ht)"
    show "ht_fields (ht\<lparr>ht_virtual_size := v\<rparr>) = ?pre @ store_u64_le v @
      ((ht_uuid ht @ zeros (37 - length (ht_uuid ht))) @
     (ht_parent_uuid ht @ zeros (37 - length (ht_parent_uuid ht))) @
     store_u16_le (ht_reserved ht) @ [ht_version ht] @ [ht_sub_version ht] @
     (ht_user_tag ht @ zeros (256 - length (ht_user_tag ht))) @ zeros (kSpace - kHeaderSize))" for v
      by (simp add: ht_fields_def)
    show "length ?pre = 48" by (simp add: length_store_le)
  qed
  define k where "k = min 8 (n - 48)"
  have "torn n (pre @ a @ suf) (pre @ b @ suf) = pre @ torn k a b @ suf" if "length a = 8" "length b = 8" for a b
  proof -
    consider "n \<le> 48" | "48 < n" "n \<le> 56" | "56 < n" by linarith
    then show ?thesis
      using that pre
    proof cases
      case 1
      then show ?thesis using pre that by (simp add: torn_def k_def)
    next
      case 2
      then show ?thesis using pre that by (simp add: torn_def k_def min_def)
    next
      case 3
      then have "take (n - 56) suf @ drop (n - 56) suf = suf" by simp
      then show ?thesis using pre that 3 by (simp add: torn_def k_def min_def)
    qed
  qed
  then have "torn n (ht_fields (ht\<lparr>ht_virtual_size := new\<rparr>)) (ht_fields (ht\<lparr>ht_virtual_size := old\<rparr>)) =
    ht_fields (ht\<lparr>ht_virtual_size := capacity_mix k new old\<rparr>)"
    unfolding split by (simp add: length_store_le store_mix k_def)
  then show ?thesis by (intro exI [of _ k]) (simp add: k_def)
qed

section \<open>Replaying in pieces\<close>

lemma replay_loop_append:
  assumes "length a mod kEncodedSize = 0"
  shows "replay_loop r (a @ b) = bindR (replay_loop r a) (\<lambda>r'. replay_loop r' b)"
  using assms
proof (induction r a rule: replay_loop.induct)
  case (1 r a)
  show ?case
  proof (cases "a = []")
    case True
    then show ?thesis by (simp add: replay_loop.simps [of r "[]"])
  next
    case False
    then have len: "kEncodedSize \<le> length a"
      using "1.prems" by (auto simp: kEncodedSize_def mod_0_imp_dvd intro: dvd_imp_le)
    have load: "load_segment_le (a @ b) = load_segment_le a"
      using len by (intro load_segment_prefix) (simp add: kEncodedSize_def)
    have "length (drop kEncodedSize a) mod kEncodedSize = 0"
      using "1.prems" len by (simp add: kEncodedSize_def mod_0_imp_dvd dvd_diff_nat)
    then show ?thesis
      using False len load "1.IH" [OF False]
      by (subst (1 2) replay_loop.simps) (cases "replay_step r (load_segment_le a)", auto)
  qed
qed

lemma replay_loop_keeps: "replay_loop r raw = Inr r' \<Longrightarrow> r_records r' = r_records r"
  using replay_loop_records [where r = r and k = "r_records r" and raw = raw] by (cases r') auto

lemma replay_append_ok:
  assumes "length raw mod kEncodedSize = 0" "r_records r + length raw div kEncodedSize \<le> kMaxLogRecords"
  shows "replay_append r raw =
    map_sum id (\<lambda>r'. r'\<lparr>r_records := r_records r + length raw div kEncodedSize\<rparr>) (replay_loop r raw)"
proof -
  have "\<not> length raw div kEncodedSize > kMaxLogRecords - r_records r" using assms(2) by linarith
  then show ?thesis using assms(1) by (simp add: replay_append_def replay_loop_records)
qed

lemma replay_chunks_ok:
  assumes "fin \<le> length index" "(fin - off) mod kEncodedSize = 0"
    "r_records r + (fin - off) div kEncodedSize \<le> kMaxLogRecords"
  shows "replay_chunks index fin off r [] =
    (map_sum id (\<lambda>r'. r'\<lparr>r_records := r_records r + (fin - off) div kEncodedSize\<rparr>)
       (replay_loop r (get_bytes off (fin - off) index)), [])"
  using assms
proof (induction "fin - off" arbitrary: off r rule: less_induct)
  case less
  show ?case
  proof (cases "off \<ge> fin")
    case True
    then show ?thesis by (simp add: replay_chunks.simps replay_loop.simps)
  next
    case False
    define count where "count = min kSpace (fin - off)"
    have c: "0 < count" "count \<le> fin - off" "count mod kEncodedSize = 0"
      using False less.prems(2) by (auto simp: count_def kSpace_def kEncodedSize_def min_def)
    have E: "kEncodedSize > 0" by (simp add: kEncodedSize_def)
    have whole: "get_bytes off (fin - off) index = get_bytes off count index @ get_bytes (off + count) (fin - (off + count)) index"
      using get_bytes_append [of off count "fin - (off + count)" index] c(2)
      by (simp only: le_add_diff_inverse diff_diff_left [symmetric])
    have len: "length (get_bytes off count index) = count"
      using c(1,2) less.prems(1) by (intro length_get_bytes) linarith
    have divs: "(fin - off) div kEncodedSize = count div kEncodedSize + (fin - (off + count)) div kEncodedSize"
      "(fin - (off + count)) mod kEncodedSize = 0"
    proof -
      obtain a b where "fin - off = a * kEncodedSize" "count = b * kEncodedSize"
        using less.prems(2) c(3) by (metis mod_0_imp_dvd dvdE mult.commute)
      moreover from this have "fin - (off + count) = (a - b) * kEncodedSize" by (simp add: diff_mult_distrib)
      moreover have "b \<le> a" using calculation(1,2) c(2) E by simp
      ultimately show "(fin - off) div kEncodedSize = count div kEncodedSize + (fin - (off + count)) div kEncodedSize"
        "(fin - (off + count)) mod kEncodedSize = 0" using E by simp_all
    qed
    have ap: "replay_append r (get_bytes off count index) =
        map_sum id (\<lambda>r'. r'\<lparr>r_records := r_records r + count div kEncodedSize\<rparr>) (replay_loop r (get_bytes off count index))"
      using replay_append_ok [of "get_bytes off count index" r] len c(3) less.prems(3) divs(1) by simp
    have rd: "read_all count off index [] = (Inr (get_bytes off count index), [])"
      using c(1,2) less.prems(1) by (intro calls_ok) linarith
    have step: "replay_chunks index fin off r [] = (case replay_append r (get_bytes off count index) of
        Inl e \<Rightarrow> (Inl e, []) | Inr r \<Rightarrow> replay_chunks index fin (off + count) r [])"
      using False rd unfolding replay_chunks.simps [of index fin off r] count_def [symmetric] Let_def by simp
    show ?thesis
    proof (cases "replay_loop r (get_bytes off count index)")
      case (Inl e)
      then show ?thesis using step ap whole replay_loop_append [of "get_bytes off count index" r] len c(3) by simp
    next
      case (Inr r1)
      let ?r = "r1\<lparr>r_records := r_records r + count div kEncodedSize\<rparr>"
      have "replay_chunks index fin (off + count) ?r [] =
        (map_sum id (\<lambda>r'. r'\<lparr>r_records := r_records ?r + (fin - (off + count)) div kEncodedSize\<rparr>)
          (replay_loop ?r (get_bytes (off + count) (fin - (off + count)) index)), [])"
        using c less.prems divs by (intro less.hyps) auto
      moreover have "replay_loop r (get_bytes off (fin - off) index) =
          replay_loop r1 (get_bytes (off + count) (fin - (off + count)) index)"
        unfolding whole using replay_loop_append [of "get_bytes off count index" r] len c(3) Inr by simp
      ultimately show ?thesis
        using step ap Inr divs(1) unfolding replay_loop_records
        by (cases "replay_loop r1 (get_bytes (off + count) (fin - (off + count)) index)") (simp_all add: add.assoc)
    qed
  qed
qed

text \<open>A larger device accepts the same log.\<close>

lemma replay_loop_wider:
  assumes "replay_loop r raw = Inr r'" "r_sectors r \<le> n"
  shows "replay_loop (r\<lparr>r_sectors := n\<rparr>) raw = Inr (r'\<lparr>r_sectors := n\<rparr>)"
  using assms
proof (induction r raw rule: replay_loop.induct)
  case (1 r raw)
  show ?case
  proof (cases "raw = []")
    case True
    then show ?thesis using "1.prems"(1) by (simp add: replay_loop.simps)
  next
    case False
    then obtain r1 where r1: "replay_step r (load_segment_le raw) = Inr r1"
      "replay_loop r1 (drop kEncodedSize raw) = Inr r'"
      using "1.prems"(1) by (subst (asm) replay_loop.simps) auto
    have step: "replay_step (r\<lparr>r_sectors := n\<rparr>) (load_segment_le raw) = Inr (r1\<lparr>r_sectors := n\<rparr>)"
      "r_sectors r1 = r_sectors r"
      using r1(1) "1.prems"(2) by (auto simp: replay_step_def Let_def split: if_splits)
    show ?thesis
      using "1.IH" [OF False r1(1,2)] step "1.prems"(2) False by (subst replay_loop.simps) simp
  qed
qed

section \<open>Growing survives a crash\<close>

definition with_capacity :: "HeaderTrailer \<Rightarrow> nat \<Rightarrow> HeaderTrailer" where
  "with_capacity ht v = ht\<lparr>ht_virtual_size := of_nat v\<rparr>"

text \<open>A consistent pair of capacity \<open>v\<close>: headers that validate, a log that replays, an unsealed payload.\<close>

definition pair_ready :: "HeaderTrailer \<Rightarrow> HeaderTrailer \<Rightarrow> nat \<Rightarrow> bytes \<Rightarrow> bytes \<Rightarrow> bool" where
  "pair_ready dh ih v payload log \<longleftrightarrow> ht_ok dh \<and> ht_ok ih \<and>
     (\<exists>n. validate_pair (with_capacity dh v) (with_capacity ih v) (kSpace + length payload) (kSpace + length log) = Inr n) \<and>
     v < U64 \<and>
     (\<exists>live. replay_file v (kSpace + length payload) (ht_fields ih @ log) (kSpace + length log) [] = (Inr live, [])) \<and>
     sealed_trailer (ht_fields dh @ payload) [] = (Inr False, [])"

lemma with_capacity_ok [simp]:
  "ht_ok (with_capacity ht v) = ht_ok ht" "ht_strings_ok (with_capacity ht v) = ht_strings_ok ht"
  by (auto simp: with_capacity_def ht_ok_def ht_strings_ok_def ht_cstrs_ok_def)

lemma with_capacity_twice [simp]: "with_capacity (with_capacity ht v) w = with_capacity ht w"
  by (simp add: with_capacity_def)

lemma length_header: "ht_ok ht \<Longrightarrow> length (ht_fields ht) = kSpace"
  by (simp add: ht_ok_def length_ht_fields)

lemma parse_header: "ht_ok ht \<Longrightarrow> parse_ht (ht_fields ht) = Inr ht"
  by (simp add: ht_ok_def parse_serialize_ht)

lemma serialize_header: "ht_ok ht \<Longrightarrow> serialize_ht ht = Inr (ht_fields ht)"
  by (simp add: ht_ok_def serialize_ht_ok)

lemma parse_prefix:
  assumes "kSpace \<le> length b"
  shows "parse_ht (b @ c) = parse_ht b"
proof -
  have len: "4096 \<le> length b" using assms by (simp add: kSpace_def)
  have "load_u32_le (drop k b @ c) = load_u32_le (drop k b)" if "k + 4 \<le> 4096" for k
    using that len by (simp add: load_u32_le_def nth_append)
  moreover have "load_u64_le (drop k b @ c) = load_u64_le (drop k b)" if "k + 8 \<le> 4096" for k
    using that len by (simp add: load_u64_le_def nth_append)
  moreover have "load_u16_le (drop k b @ c) = load_u16_le (drop k b)" if "k + 2 \<le> 4096" for k
    using that len by (simp add: load_u16_le_def nth_append)
  ultimately show ?thesis
    using len by (simp add: parse_ht_def get_bytes_def read_cstr_def nth_append)
qed

lemma decode_encode_grow:
  assumes ok: "ht_ok d" "ht_ok i" and v: "0 < old" "old mod kAlignment = 0" "old < unat (ht_virtual_size d)"
    and raw: "encode_grow old d i = Inr raw"
  shows "decode_grow raw = Inr (of_nat old, d, i)" "get_bytes 16 kSpace raw = ht_fields d"
    "get_bytes (16 + kSpace) kSpace raw = ht_fields i"
proof -
  let ?body = "store_u64_le kGrowMagic @ store_u64_le (of_nat old) @ ht_fields d @ ht_fields i"
  have r: "raw = ?body @ store_u32_le (pair_crc ?body)"
    using raw serialize_header [OF ok(1)] serialize_header [OF ok(2)] by (simp add: encode_grow_def Let_def)
  note len = length_header [OF ok(1)] length_header [OF ok(2)]
  show "get_bytes 16 kSpace raw = ht_fields d" "get_bytes (16 + kSpace) kSpace raw = ht_fields i"
    using len by (simp_all add: r get_bytes_def length_store_le kSpace_def)
  have "unat (of_nat old :: 64 word) = old"
    using v(3) unat_u64 [of "ht_virtual_size d"] by (intro unat_of_u64) simp
  then have old: "(of_nat old :: 64 word) \<noteq> 0" "unat (of_nat old :: 64 word) mod kAlignment = 0"
      "\<not> ht_virtual_size d \<le> of_nat old"
    using v by (auto simp: word_le_nat_alt)
  have body: "length ?body = kGrowBytes - 4" using len by (simp add: kGrowBytes_def length_store_le kSpace_def)
  have parts: "length raw = kGrowBytes" "take (kGrowBytes - 4) raw = ?body"
    "drop (kGrowBytes - 4) raw = store_u32_le (pair_crc ?body)"
    using body by (simp_all add: r kGrowBytes_def length_store_le)
  have d: "drop 16 raw = ht_fields d @ (ht_fields i @ store_u32_le (pair_crc ?body))"
    "drop (16 + kSpace) raw = ht_fields i @ store_u32_le (pair_crc ?body)"
    "drop 8 raw = store_u64_le (of_nat old) @ (ht_fields d @ ht_fields i @ store_u32_le (pair_crc ?body))"
    using len by (simp_all add: r length_store_le kSpace_def)
  have "load_u64_le raw = kGrowMagic" "load_u64_le (drop 8 raw) = of_nat old"
    using load_store_u64 by (simp_all add: d(3) r)
  then show "decode_grow raw = Inr (of_nat old, d, i)"
    using old parts parse_prefix [of "ht_fields d"] parse_prefix [of "ht_fields i"] parse_header ok len
    unfolding decode_grow_def d(1,2) by (simp add: load_store_u32 [where rest = "[]", simplified] Let_def)
qed

lemma torn_capacity:
  assumes "ht_ok h"
  shows "\<exists>k \<le> 8. torn a (ht_fields (with_capacity h v)) (ht_fields (with_capacity h v0)) =
    ht_fields (h\<lparr>ht_virtual_size := capacity_mix k (of_nat v) (of_nat v0)\<rparr>)"
  using torn_header [of h a "of_nat v" "of_nat v0"] assms by (simp add: with_capacity_def ht_ok_def)

lemma ht_ok_capacity: "ht_ok h \<Longrightarrow> ht_ok (h\<lparr>ht_virtual_size := w\<rparr>)"
  by (simp add: ht_ok_def ht_strings_ok_def ht_cstrs_ok_def)

lemma header_matches_torn:
  assumes "ht_ok h" "ht_virtual_size target = of_nat v"
  shows "header_matches (torn a (ht_fields (with_capacity h v)) (ht_fields (with_capacity h v0)) @ rest) (of_nat v0) target
      (with_capacity h v) [] = (None, [])"
proof -
  let ?H = "torn a (ht_fields (with_capacity h v)) (ht_fields (with_capacity h v0))"
  obtain k where k: "k \<le> 8" "?H = ht_fields (h\<lparr>ht_virtual_size := capacity_mix k (of_nat v) (of_nat v0)\<rparr>)"
    using torn_capacity [OF assms(1)] by blast
  let ?h = "h\<lparr>ht_virtual_size := capacity_mix k (of_nat v) (of_nat v0)\<rparr>"
  have len: "length ?H = kSpace" using length_header assms(1) by simp
  have read: "read_all kSpace 0 (?H @ rest) [] = (Inr ?H, [])"
    using len by (simp add: get_bytes_def)
  have "capacity_matches (ht_virtual_size ?h) (of_nat v) (of_nat v0)"
    unfolding capacity_matches_def using k(1) by (intro bexI [of _ k]) auto
  moreover have "serialize_ht (?h\<lparr>ht_virtual_size := of_nat v\<rparr>) = Inr (ht_fields (with_capacity h v))"
    using serialize_header [of "with_capacity h v"] assms(1) by (simp add: with_capacity_def ht_ok_capacity)
  moreover have "parse_ht ?H = Inr ?h" unfolding k(2) by (rule parse_header [OF ht_ok_capacity [OF assms(1)]])
  ultimately show ?thesis
    unfolding header_matches_def read using assms(2) serialize_header [of "with_capacity h v"] assms(1) by simp
qed

lemma validate_grown:
  assumes "validate_pair (with_capacity dh v0) (with_capacity ih v0) d i = Inr n"
    "0 < v" "v mod kAlignment = 0" "v div kAlignment \<le> kMaxOffset" "v < U64"
  shows "validate_pair (with_capacity dh v) (with_capacity ih v) d i = Inr n"
  using assms by (auto simp: validate_pair_def with_capacity_def unat_of_u64 Let_def split: if_splits)

lemma capacity_bound: "v div kAlignment \<le> kMaxOffset \<Longrightarrow> v < U64"
  unfolding kAlignment_def kMaxOffset_def U64_def by simp

lemma replay_file_log:
  assumes "length H = kSpace" "length log mod kEncodedSize = 0" "length log div kEncodedSize \<le> kMaxLogRecords"
  shows "replay_file v d (H @ log) (kSpace + length log) [] =
    (bindR (replay_new v d) (\<lambda>r. bindR (replay_loop r log) replay_finish), [])"
proof -
  have "get_bytes kSpace (length log) (H @ log) = log" using assms(1) by (simp add: get_bytes_def)
  moreover have "replay_finish (r\<lparr>r_records := k\<rparr>) = replay_finish r" for r k by (simp add: replay_finish_def)
  ultimately have "(case replay_chunks (H @ log) (kSpace + length log) kSpace r [] of (Inl e, io) \<Rightarrow> (Inl e, io) | (Inr r, io) \<Rightarrow> (replay_finish r, io))
      = (bindR (replay_loop r log) replay_finish, [])" if "r_records r = 0" for r
    using replay_chunks_ok [of "kSpace + length log" "H @ log" kSpace r] assms that
    by (cases "replay_loop r log") simp_all
  moreover have "replay_new v d = Inr r \<Longrightarrow> r_records r = 0" for r
    by (auto simp: replay_new_def Let_def split: if_splits)
  ultimately show ?thesis by (cases "replay_new v d") (simp_all add: replay_file_def)
qed

lemma replay_wider:
  assumes "bindR (replay_new v0 d) (\<lambda>r. bindR (replay_loop r log) replay_finish) = Inr live"
    "v0 \<le> v" "v mod kAlignment = 0" "v div kAlignment \<le> kMaxOffset"
  shows "bindR (replay_new v d) (\<lambda>r. bindR (replay_loop r log) replay_finish) = Inr live"
proof -
  obtain r r' where r: "replay_new v0 d = Inr r" "replay_loop r log = Inr r'" "replay_finish r' = Inr live"
    using assms(1) by auto
  have "replay_new v d = Inr (r\<lparr>r_sectors := v div kAlignment\<rparr>)"
    using r(1) assms(2-4) by (auto simp: replay_new_def Let_def split: if_splits)
  moreover have "r_sectors r \<le> v div kAlignment"
    using r(1) assms(2) by (auto simp: replay_new_def Let_def div_le_mono split: if_splits)
  from replay_loop_wider [OF r(2) this] have "replay_loop (r\<lparr>r_sectors := v div kAlignment\<rparr>) log = Inr (r'\<lparr>r_sectors := v div kAlignment\<rparr>)" .
  moreover have "replay_finish (r'\<lparr>r_sectors := v div kAlignment\<rparr>) = replay_finish r'" by (simp add: replay_finish_def)
  ultimately show ?thesis using r(3) by simp
qed

lemma sealed_index_payload:
  assumes "length H = kSpace" "length H' = kSpace" "kSpace \<le> index_offset"
  shows "sealed_index_ok (H @ P) index_offset v previous i n io = sealed_index_ok (H' @ P) index_offset v previous i n io"
proof -
  have "read_all 16 (index_offset + 16 * i) (H @ P) io = read_all 16 (index_offset + 16 * i) (H' @ P) io" for i io
    using assms by (simp add: read_all_def get_bytes_def split: outcome.splits)
  note read = this
  show ?thesis
  proof (induction n arbitrary: previous i io)
    case (Suc n)
    show ?case unfolding sealed_index_ok.simps(2) read Suc.IH ..
  qed simp
qed

lemma sealed_trailer_payload:
  assumes "length H = kSpace" "length H' = kSpace"
  shows "sealed_trailer (H @ P) io = sealed_trailer (H' @ P) io"
proof (cases "length P < kSpace")
  case False
  then have "read_all kSpace (length P) (H @ P) io = read_all kSpace (length P) (H' @ P) io"
    using assms by (simp add: read_all_def get_bytes_def split: outcome.splits)
  then show ?thesis
    using assms sealed_index_payload [OF assms]
    by (simp add: sealed_trailer_def Let_def split: prod.splits sum.splits)
qed (use assms in \<open>simp add: sealed_trailer_def\<close>)

text \<open>The transaction from capacity \<open>v0\<close> to \<open>v\<close>, and the files while it is under way.\<close>

definition grow_to :: "HeaderTrailer \<Rightarrow> HeaderTrailer \<Rightarrow> nat \<Rightarrow> nat \<Rightarrow> bytes \<Rightarrow> bool" where
  "grow_to dh ih v0 v raw \<longleftrightarrow> v0 < v \<and> v mod kAlignment = 0 \<and> v div kAlignment \<le> kMaxOffset \<and>
     encode_grow v0 (with_capacity dh v) (with_capacity ih v) = Inr raw"

definition torn_pair :: "HeaderTrailer \<Rightarrow> HeaderTrailer \<Rightarrow> nat \<Rightarrow> nat \<Rightarrow> bytes \<Rightarrow> bytes \<Rightarrow> nat \<Rightarrow> nat \<Rightarrow> bytes \<Rightarrow> bytes \<Rightarrow> bool" where
  "torn_pair dh ih v0 v payload log a b data index \<longleftrightarrow>
     data = torn a (ht_fields (with_capacity dh v)) (ht_fields (with_capacity dh v0)) @ payload \<and>
     index = torn b (ht_fields (with_capacity ih v)) (ht_fields (with_capacity ih v0)) @ log"

lemma pair_ready_facts:
  assumes "pair_ready dh ih v payload log"
  shows "ht_ok dh" "ht_ok ih" "0 < v" "v mod kAlignment = 0" "v div kAlignment \<le> kMaxOffset"
    "(kSpace + length payload) mod kAlignment = 0" "length log mod kEncodedSize = 0"
    "length log div kEncodedSize \<le> kMaxLogRecords"
    "\<exists>live. bindR (replay_new v (kSpace + length payload)) (\<lambda>r. bindR (replay_loop r log) replay_finish) = Inr live"
    "\<not> is_sealed (dh\<lparr>ht_virtual_size := w\<rparr>)"
proof -
  show ok: "ht_ok dh" "ht_ok ih" using assms by (auto simp: pair_ready_def)
  have v: "v < U64" using assms by (simp add: pair_ready_def)
  obtain n where "validate_pair (with_capacity dh v) (with_capacity ih v) (kSpace + length payload) (kSpace + length log) = Inr n"
    using assms by (auto simp: pair_ready_def)
  then have val: "ht_flags dh = 3" "0 < v" "v mod kAlignment = 0" "v div kAlignment \<le> kMaxOffset"
    "(kSpace + length payload) mod kAlignment = 0" "length log mod kEncodedSize = 0"
    "length log div kEncodedSize \<le> kMaxLogRecords"
    by (auto simp: validate_pair_def with_capacity_def unat_of_u64 [OF v] Let_def split: if_splits)
  then show "0 < v" "v mod kAlignment = 0" "v div kAlignment \<le> kMaxOffset"
    "(kSpace + length payload) mod kAlignment = 0" "length log mod kEncodedSize = 0"
    "length log div kEncodedSize \<le> kMaxLogRecords" by auto
  show "\<exists>live. bindR (replay_new v (kSpace + length payload)) (\<lambda>r. bindR (replay_loop r log) replay_finish) = Inr live"
    using assms replay_file_log [OF length_header [OF ok(2)] val(6,7)] by (auto simp: pair_ready_def)
  show "\<not> is_sealed (dh\<lparr>ht_virtual_size := w\<rparr>)"
    using val(1) by (simp add: is_sealed_def get_flag_bit_def kFlagShiftSealed_def)
qed

lemma align_down_id: "n mod kAlignment = 0 \<Longrightarrow> align_down n = n"
  by (simp add: align_down_def kAlignment_def mod_0_imp_dvd)

lemma complete_records_id: "n mod kEncodedSize = 0 \<Longrightarrow> complete_records (kSpace + n) = kSpace + n"
  by (simp add: complete_records_def kEncodedSize_def mod_0_imp_dvd)

lemma check_grow_torn:
  assumes ready: "pair_ready dh ih v0 payload log" and grow: "grow_to dh ih v0 v raw"
    and torn: "torn_pair dh ih v0 v payload log a b data (fp_index fp)"
  shows "check_grow raw data fp [] = (Inr (with_capacity dh v), [])"
proof -
  note f = pair_ready_facts [OF ready]
  have g: "v0 < v" "v mod kAlignment = 0" "v div kAlignment \<le> kMaxOffset"
    "encode_grow v0 (with_capacity dh v) (with_capacity ih v) = Inr raw" using grow by (auto simp: grow_to_def)
  have v: "v < U64" by (rule capacity_bound [OF g(3)])
  have vs: "ht_virtual_size (with_capacity dh v) = of_nat v" "unat (of_nat v :: 64 word) = v"
    using unat_of_u64 [OF v] by (simp_all add: with_capacity_def)
  have dec: "decode_grow raw = Inr (of_nat v0, with_capacity dh v, with_capacity ih v)"
    using f(1-4) g vs by (intro decode_encode_grow) simp_all
  have len: "length data = kSpace + length payload" "length (fp_index fp) = kSpace + length log"
    using torn f(1,2) by (simp_all add: torn_pair_def length_header)
  obtain n where "validate_pair (with_capacity dh v0) (with_capacity ih v0) (kSpace + length payload) (kSpace + length log) = Inr n"
    using ready by (auto simp: pair_ready_def)
  from validate_grown [OF this _ g(2,3) v] have val: "validate_pair (with_capacity dh v) (with_capacity ih v) (kSpace + length payload) (kSpace + length log) = Inr n"
    using g(1) by simp
  obtain live where "bindR (replay_new v0 (kSpace + length payload)) (\<lambda>r. bindR (replay_loop r log) replay_finish) = Inr live"
    using f(9) by blast
  from replay_wider [OF this _ g(2,3)] g(1)
  have rep: "bindR (replay_new v (kSpace + length payload)) (\<lambda>r. bindR (replay_loop r log) replay_finish) = Inr live" by simp
  have rf: "replay_file v (kSpace + length payload) (fp_index fp) (kSpace + length log) [] = (Inr live, [])"
    using torn f(2) replay_file_log [OF _ f(7,8)] rep by (simp add: torn_pair_def length_header)
  have hm: "header_matches data (of_nat v0) (with_capacity dh v) (with_capacity dh v) [] = (None, [])"
    "header_matches (fp_index fp) (of_nat v0) (with_capacity dh v) (with_capacity ih v) [] = (None, [])"
    using torn header_matches_torn [OF f(1) vs(1)] header_matches_torn [OF f(2) vs(1)] by (simp_all add: torn_pair_def)
  show ?thesis
    unfolding check_grow_def dec len align_down_id [OF f(6)] complete_records_id [OF f(7)] vs
    by (simp add: val hm rf Let_def len vs align_down_id [OF f(6)] complete_records_id [OF f(7)])
qed

lemma write_torn:
  assumes "length new = length old"
  shows "\<exists>k. fst (snd (write_all new 0 (torn a new old @ rest) io)) = torn k new old @ rest \<and>
    (fst (write_all new 0 (torn a new old @ rest) io) = None \<longrightarrow> length new \<le> k)"
  using rewrite_torn [OF assms, of _ a rest] rewrite_torn [OF assms, of "length new" a rest]
  by (cases "next_outcome io") (auto simp: write_all_def intro: exI [of _ "max (length new) a"])

text \<open>A pair in the middle of the transaction: the intent is there, or it was retired after both headers
  were complete.\<close>

definition mid_grow :: "HeaderTrailer \<Rightarrow> HeaderTrailer \<Rightarrow> nat \<Rightarrow> nat \<Rightarrow> bytes \<Rightarrow> bytes \<Rightarrow> bytes \<Rightarrow> bytes \<Rightarrow> FilePair \<Rightarrow> bool" where
  "mid_grow dh ih v0 v payload log raw data fp \<longleftrightarrow> (\<exists>a b. torn_pair dh ih v0 v payload log a b data (fp_index fp) \<and>
     (fp_grow_intent fp = Some raw \<or> fp_grow_intent fp = None \<and> kSpace \<le> a \<and> kSpace \<le> b))"

lemma apply_grow_torn:
  assumes ready: "pair_ready dh ih v0 payload log" and grow: "grow_to dh ih v0 v raw"
    and torn: "torn_pair dh ih v0 v payload log a b data (fp_index fp)" and intent: "fp_grow_intent fp = Some raw"
    and run: "apply_grow raw data fp io = (res, data', fp', io')"
  shows "mid_grow dh ih v0 v payload log raw data' fp'" "fp_header fp' = fp_header fp" "fp_index_bytes fp' = fp_index_bytes fp"
    "res = Inr x \<Longrightarrow> fp_grow_intent fp' = None \<and> \<not> fp_poisoned fp' \<and> \<not> fp_growth_pending fp'"
    "io = [] \<Longrightarrow> res = Inr True \<and> io' = []"
proof -
  note f = pair_ready_facts [OF ready]
  let ?D1 = "ht_fields (with_capacity dh v)" and ?D0 = "ht_fields (with_capacity dh v0)"
  let ?I1 = "ht_fields (with_capacity ih v)" and ?I0 = "ht_fields (with_capacity ih v0)"
  have len: "length ?D1 = length ?D0" "length ?I1 = length ?I0" "length ?D1 = kSpace" "length ?I1 = kSpace"
    using f(1,2) by (simp_all add: length_header)
  have g: "v0 < v" "v div kAlignment \<le> kMaxOffset" "encode_grow v0 (with_capacity dh v) (with_capacity ih v) = Inr raw"
    using grow by (auto simp: grow_to_def)
  have "unat (ht_virtual_size (with_capacity dh v)) = v"
    using unat_of_u64 [OF capacity_bound [OF g(2)]] by (simp add: with_capacity_def)
  then have slices: "get_bytes 16 kSpace raw = ?D1" "get_bytes (16 + kSpace) kSpace raw = ?I1"
    using f(1-4) g decode_encode_grow(2,3) [OF _ _ _ _ _ g(3)] by simp_all
  have files: "data = torn a ?D1 ?D0 @ payload" "fp_index fp = torn b ?I1 ?I0 @ log" using torn by (simp_all add: torn_pair_def)
  obtain r1 d1 io1 where w1: "write_all ?D1 0 data io = (r1, d1, io1)" by (cases "write_all ?D1 0 data io")
  obtain k1 where k1: "d1 = torn k1 ?D1 ?D0 @ payload" "r1 = None \<Longrightarrow> kSpace \<le> k1"
    using write_torn [OF len(1), of a payload io] w1 len unfolding files by auto
  obtain r2 i2 io2 where w2: "write_all ?I1 0 (fp_index fp) io1 = (r2, i2, io2)" by (cases "write_all ?I1 0 (fp_index fp) io1")
  obtain k2 where k2: "i2 = torn k2 ?I1 ?I0 @ log" "r2 = None \<Longrightarrow> kSpace \<le> k2"
    using write_torn [OF len(2), of b log io1] w2 len unfolding files by auto
  have torn1: "torn_pair dh ih v0 v payload log k1 b d1 (fp_index fp)" "torn_pair dh ih v0 v payload log k1 k2 d1 i2"
    using torn k1 k2 by (simp_all add: torn_pair_def)
  show "mid_grow dh ih v0 v payload log raw data' fp'"
  proof (cases r1)
    case (Some e)
    then have "data' = d1" "fp' = fp" using run slices(1) w1 by (auto simp: apply_grow_def)
    then show ?thesis using torn1(1) intent unfolding mid_grow_def by blast
  next
    case None
    then have "data' = d1" "fp_index fp' = i2"
      "fp_grow_intent fp' = Some raw \<or> r2 = None \<and> fp_grow_intent fp' = None"
      using run slices w1 w2 intent
      by (auto simp: apply_grow_def Let_def split: option.splits prod.splits)
    then show ?thesis using torn1(2) k1(2) [OF None] k2(2) unfolding mid_grow_def by auto
  qed
  show "fp_header fp' = fp_header fp" "fp_index_bytes fp' = fp_index_bytes fp"
    "res = Inr x \<Longrightarrow> fp_grow_intent fp' = None \<and> \<not> fp_poisoned fp' \<and> \<not> fp_growth_pending fp'"
    "io = [] \<Longrightarrow> res = Inr True \<and> io' = []"
    using run by (auto simp: apply_grow_def Let_def split: option.splits prod.splits)
qed

lemma check_grow_target:
  assumes "decode_grow raw = Inr (old, target, target_index)" "check_grow raw data fp io = (Inr t, io')"
  shows "t = target"
  using assms by (auto simp: check_grow_def Let_def split: if_splits sum.splits prod.splits option.splits)

lemma decode_grow_to:
  assumes "pair_ready dh ih v0 payload log" "grow_to dh ih v0 v raw"
  shows "decode_grow raw = Inr (of_nat v0, with_capacity dh v, with_capacity ih v)"
proof -
  note f = pair_ready_facts [OF assms(1)]
  have g: "v0 < v" "v div kAlignment \<le> kMaxOffset" "encode_grow v0 (with_capacity dh v) (with_capacity ih v) = Inr raw"
    using assms(2) by (auto simp: grow_to_def)
  have "unat (ht_virtual_size (with_capacity dh v)) = v"
    using unat_of_u64 [OF capacity_bound [OF g(2)]] by (simp add: with_capacity_def)
  then show ?thesis using f(1-4) g by (intro decode_encode_grow(1)) simp_all
qed

lemma recover_mid:
  assumes ready: "pair_ready dh ih v0 payload log" and grow: "grow_to dh ih v0 v raw"
    and mid: "mid_grow dh ih v0 v payload log raw data fp"
    and run: "recover_grow data fp io = (res, data', fp', io')"
  shows "mid_grow dh ih v0 v payload log raw data' fp'" "fp_index_bytes fp' = fp_index_bytes fp"
    "res = Inr x \<Longrightarrow> fp_grow_intent fp' = None"
    "res = Inr True \<Longrightarrow> fp_header fp' = with_capacity dh v \<and> \<not> fp_poisoned fp' \<and> \<not> fp_growth_pending fp'"
    "res = Inr False \<Longrightarrow> fp' = fp \<and> fp_grow_intent fp = None"
    "io = [] \<Longrightarrow> \<exists>x. res = Inr x \<and> io' = []"
proof -
  have "mid_grow dh ih v0 v payload log raw data' fp' \<and> fp_index_bytes fp' = fp_index_bytes fp \<and>
    (\<forall>x. res = Inr x \<longrightarrow> fp_grow_intent fp' = None \<and>
      (if x then fp_header fp' = with_capacity dh v \<and> \<not> fp_poisoned fp' \<and> \<not> fp_growth_pending fp'
       else fp' = fp \<and> fp_grow_intent fp = None)) \<and>
    (io = [] \<longrightarrow> (\<exists>x. res = Inr x \<and> io' = []))"
  proof (cases "fp_grow_intent fp")
    case None
    then show ?thesis using run mid by (auto simp: recover_grow_def)
  next
    case (Some raw')
    obtain a b where t: "torn_pair dh ih v0 v payload log a b data (fp_index fp)" and r: "raw' = raw"
      using mid Some by (auto simp: mid_grow_def)
    obtain s io1 where sc: "sys_call io = (s, io1)" by (cases "sys_call io")
    obtain c io2 where cg: "check_grow raw data fp io1 = (c, io2)" by (cases "check_grow raw data fp io1")
    show ?thesis
    proof (cases "s = None \<and> (\<exists>t. c = Inr t)")
      case False
      then have "res = Inl (case s of Some e \<Rightarrow> e | None \<Rightarrow> projl c) \<and> data' = data \<and> fp' = fp"
        using run Some r sc cg by (cases s; cases c) (auto simp: recover_grow_def)
      moreover have "io \<noteq> []" using False sc cg check_grow_torn [OF ready grow t] by auto
      ultimately show ?thesis using mid by auto
    next
      case True
      then obtain target where c: "c = Inr target" by blast
      have tg: "target = with_capacity dh v"
        using check_grow_target [OF decode_grow_to [OF ready grow]] cg c by blast
      let ?fp = "fp\<lparr>fp_growth_pending := True, fp_poisoned := True, fp_header := target\<rparr>"
      have ap: "apply_grow raw data ?fp io2 = (res, data', fp', io')"
        using run Some r sc cg c True by (simp add: recover_grow_def)
      have io2: "io = [] \<Longrightarrow> io2 = []" using sc cg check_grow_torn [OF ready grow t] by auto
      have t': "torn_pair dh ih v0 v payload log a b data (fp_index ?fp)" and i': "fp_grow_intent ?fp = Some raw"
        using t Some r by simp_all
      note ag = apply_grow_torn [OF ready grow t' i' ap]
      have "x = True" if "res = Inr x" for x
        using ap that by (auto simp: apply_grow_def Let_def split: option.splits prod.splits)
      then show ?thesis using ag io2 tg by auto
    qed
  qed
  then show "mid_grow dh ih v0 v payload log raw data' fp'" "fp_index_bytes fp' = fp_index_bytes fp"
    "res = Inr x \<Longrightarrow> fp_grow_intent fp' = None"
    "res = Inr True \<Longrightarrow> fp_header fp' = with_capacity dh v \<and> \<not> fp_poisoned fp' \<and> \<not> fp_growth_pending fp'"
    "res = Inr False \<Longrightarrow> fp' = fp \<and> fp_grow_intent fp = None"
    "io = [] \<Longrightarrow> \<exists>x. res = Inr x \<and> io' = []" by auto
qed

text \<open>A pair at rest.\<close>

definition pair_at :: "HeaderTrailer \<Rightarrow> HeaderTrailer \<Rightarrow> nat \<Rightarrow> bytes \<Rightarrow> bytes \<Rightarrow> bytes \<Rightarrow> FilePair \<Rightarrow> bool" where
  "pair_at dh ih v payload log data fp \<longleftrightarrow> data = ht_fields (with_capacity dh v) @ payload \<and>
     fp_index fp = ht_fields (with_capacity ih v) @ log \<and> fp_index_bytes fp = kSpace + length log \<and>
     fp_header fp = with_capacity dh v \<and> fp_grow_intent fp = None"

lemma torn_pair_at: "torn_pair dh ih v0 v payload log 0 0 data index \<longleftrightarrow>
    data = ht_fields (with_capacity dh v0) @ payload \<and> index = ht_fields (with_capacity ih v0) @ log"
  by (simp add: torn_pair_def)

lemma torn_pair_done:
  assumes "torn_pair dh ih v0 v payload log a b data index" "kSpace \<le> a" "kSpace \<le> b" "ht_ok dh" "ht_ok ih"
  shows "data = ht_fields (with_capacity dh v) @ payload \<and> index = ht_fields (with_capacity ih v) @ log"
  using assms by (simp add: torn_pair_def torn_full length_header)

lemma start_grow_cases:
  assumes ready: "pair_ready dh ih v0 payload log" and at: "pair_at dh ih v0 payload log data fp"
    and run: "start_grow v data fp io = (res, data', fp', io')"
  shows "(data' = data \<and> fp' = fp \<and> (res = None \<longrightarrow> v = v0)) \<or>
    (\<exists>raw. grow_to dh ih v0 v raw \<and> mid_grow dh ih v0 v payload log raw data' fp' \<and> fp_index_bytes fp' = fp_index_bytes fp \<and>
      (res = None \<longrightarrow> pair_at dh ih v payload log data' fp' \<and> \<not> fp_poisoned fp' \<and> \<not> fp_growth_pending fp'))"
proof -
  note f = pair_ready_facts [OF ready]
  have v0: "unat (ht_virtual_size (fp_header fp)) = v0"
    using at capacity_bound [OF f(5)] by (simp add: pair_at_def with_capacity_def unat_of_u64)
  have read: "read_all kSpace 0 (fp_index fp) io1 = (Inr c, io2) \<Longrightarrow> c = ht_fields (with_capacity ih v0)" for c io1 io2
    using at f(2) read_all_Inr [of kSpace 0 "fp_index fp" io1 c io2] by (simp add: pair_at_def get_bytes_def length_header)
  have parse: "parse_ht (ht_fields (with_capacity ih v0)) = Inr (with_capacity ih v0)" using f(2) by (simp add: parse_header)
  have write_new: "write_all raw 0 [] io1 = (None, c, io2) \<Longrightarrow> c = raw" for raw c io1 io2
    by (auto simp: write_all_def file_write_def split: outcome.splits)
  have header: "fp_header fp = with_capacity dh v0" using at by (simp add: pair_at_def)
  show ?thesis
  proof (cases "data' = data \<and> fp' = fp \<and> (res = None \<longrightarrow> v = v0)")
    case False
    let ?fp = "\<lambda>raw. fp\<lparr>fp_grow_intent := Some raw, fp_growth_pending := True, fp_poisoned := True\<rparr>"
    have "\<exists>raw. grow_to dh ih v0 v raw \<and> (data' = data \<and> fp' = ?fp raw \<and> res \<noteq> None \<or>
        (\<exists>r io3. recover_grow data (?fp raw) io3 = (r, data', fp', io') \<and> (res = None \<longrightarrow> (\<exists>x. r = Inr x))))"
    proof -
      obtain cur io1 where rd: "read_all kSpace 0 (fp_index fp) io = (cur, io1)" by (cases "read_all kSpace 0 (fp_index fp) io")
      have guard: "v \<noteq> 0" "v mod kAlignment = 0" "v div kAlignment \<le> kMaxOffset" "v0 < v"
        using run False unfolding start_grow_def v0 by (auto simp: not_less split: if_splits)
      note start = run [unfolded start_grow_def v0 rd prod.case]
      obtain c where cur: "cur = Inr c" using start guard False by (cases cur) auto
      have c: "c = ht_fields (with_capacity ih v0)" using read rd cur by blast
      let ?enc = "bindR (validate_pair (with_capacity dh v0) (with_capacity ih v0) (length data) (fp_index_bytes fp))
        (\<lambda>_. encode_grow v0 (with_capacity dh v) (with_capacity ih v))"
      have cap: "(with_capacity h v0)\<lparr>ht_virtual_size := of_nat v\<rparr> = with_capacity h v" for h by (simp add: with_capacity_def)
      have ng: "\<not> (v = 0 \<or> v mod kAlignment \<noteq> 0 \<or> kMaxOffset < v div kAlignment \<or> v < v0)" "v \<noteq> v0" using guard by auto
      note start = start [unfolded if_not_P [OF ng(1)] if_not_P [OF ng(2)] cur sum.case c parse bindR_simps header cap]
      obtain raw where raw: "?enc = Inr raw" using start False by (cases ?enc) auto
      have enc: "encode_grow v0 (with_capacity dh v) (with_capacity ih v) = Inr raw" using raw by auto
      note start = start [unfolded raw sum.case]
      obtain s2 io2 where s2: "sys_call io1 = (s2, io2)" by (cases "sys_call io1")
      note start = start [unfolded s2 prod.case]
      have s2': "s2 = None" using start False by (cases s2) auto
      obtain s3 w io3 where s3: "write_all raw 0 [] io2 = (s3, w, io3)" by (cases "write_all raw 0 [] io2")
      note start = start [unfolded s2' option.case s3 prod.case]
      have s3': "s3 = None" using start False by (cases s3) auto
      have w: "w = raw" using write_new s3 s3' by blast
      obtain s4 io4 where s4: "sys_call io3 = (s4, io4)" by (cases "sys_call io3")
      note start = start [unfolded s3' option.case s4 prod.case]
      have s4': "s4 = None" using start False by (cases s4) auto
      obtain s5 io5 where s5: "sys_call io4 = (s5, io5)" by (cases "sys_call io4")
      note start = start [unfolded s4' option.case s5 prod.case]
      have s5': "s5 = None" using start False by (cases s5) auto
      have ni: "\<not> fp_grow_intent fp \<noteq> None" using at by (simp add: pair_at_def)
      obtain s6 io6 where s6: "sys_call io5 = (s6, io6)" by (cases "sys_call io5")
      note start = start [unfolded s5' option.case if_not_P [OF ni] Let_def s6 prod.case w]
      obtain r d1 f1 io7 where rec: "recover_grow data (?fp raw) io6 = (r, d1, f1, io7)"
        by (cases "recover_grow data (?fp raw) io6")
      have "data' = data \<and> fp' = ?fp raw \<and> res \<noteq> None \<or>
        (\<exists>r io3. recover_grow data (?fp raw) io3 = (r, data', fp', io') \<and> (res = None \<longrightarrow> (\<exists>x. r = Inr x)))"
        using start rec by (cases s6; cases r) auto
      then show ?thesis using enc guard by (auto simp: grow_to_def)
    qed
    then obtain raw where raw: "grow_to dh ih v0 v raw" and
        "data' = data \<and> fp' = ?fp raw \<and> res \<noteq> None \<or>
        (\<exists>r io3. recover_grow data (?fp raw) io3 = (r, data', fp', io') \<and> (res = None \<longrightarrow> (\<exists>x. r = Inr x)))" by blast
    moreover have mid: "mid_grow dh ih v0 v payload log raw data (?fp raw)"
      unfolding mid_grow_def by (rule exI [of _ 0], rule exI [of _ 0]) (use at in \<open>simp add: torn_pair_at pair_at_def\<close>)
    ultimately show ?thesis
    proof (elim disjE exE conjE)
      fix r io3
      assume rec: "recover_grow data (?fp raw) io3 = (r, data', fp', io')" and ok: "res = None \<longrightarrow> (\<exists>x. r = Inr x)"
      note rm = recover_mid [OF ready raw mid rec]
      have "pair_at dh ih v payload log data' fp' \<and> \<not> fp_poisoned fp' \<and> \<not> fp_growth_pending fp'" if fine: "res = None"
      proof -
        obtain x where x: "r = Inr x" using ok fine by blast
        then have "x" using rm(5) by (cases x) auto
        then have "fp_grow_intent fp' = None" "fp_header fp' = with_capacity dh v \<and> \<not> fp_poisoned fp' \<and> \<not> fp_growth_pending fp'"
          using rm(3,4) x by auto
        moreover have "data' = ht_fields (with_capacity dh v) @ payload \<and> fp_index fp' = ht_fields (with_capacity ih v) @ log"
          using rm(1) calculation torn_pair_done f(1,2) unfolding mid_grow_def by fastforce
        ultimately show ?thesis using rm(2) at by (simp add: pair_at_def)
      qed
      then show ?thesis using raw rm(1,2) by auto
    qed (use mid raw in auto)
  qed simp
qed

lemma pair_ready_wider:
  assumes "pair_ready dh ih v0 payload log" "v0 \<le> v" "v mod kAlignment = 0" "v div kAlignment \<le> kMaxOffset"
  shows "pair_ready dh ih v payload log"
proof -
  note f = pair_ready_facts [OF assms(1)]
  note v = capacity_bound [OF assms(4)]
  obtain n where n: "validate_pair (with_capacity dh v0) (with_capacity ih v0) (kSpace + length payload) (kSpace + length log) = Inr n"
    using assms(1) by (auto simp: pair_ready_def)
  have val: "\<exists>n. validate_pair (with_capacity dh v) (with_capacity ih v) (kSpace + length payload) (kSpace + length log) = Inr n"
    using validate_grown [OF n _ assms(3,4) v] f(3) assms(2) by auto
  have "\<exists>live. bindR (replay_new v (kSpace + length payload)) (\<lambda>r. bindR (replay_loop r log) replay_finish) = Inr live"
    using f(9) replay_wider [OF _ assms(2-4)] by blast
  then show ?thesis using assms(1) val v replay_file_log [OF length_header [OF f(2)] f(7,8)] by (auto simp: pair_ready_def)
qed

lemma load_pair_at:
  assumes ready: "pair_ready dh ih v payload log" and fp: "fp_header fp = with_capacity dh v"
    "fp_index fp = ht_fields (with_capacity ih v) @ log" and intent: "fp_grow_intent fp = None"
    and data: "data = ht_fields (with_capacity dh v) @ payload"
  shows "\<exists>fp' live. load_pair data fp [] = (Inr (data, fp'), []) \<and> pair_at dh ih v payload log data fp' \<and>
    bindR (replay_new v (kSpace + length payload)) (\<lambda>r. bindR (replay_loop r log) replay_finish) = Inr live \<and> fp_mappings fp' = live"
proof -
  note f = pair_ready_facts [OF ready]
  have v: "unat (ht_virtual_size (fp_header fp)) = v"
    using capacity_bound [OF f(5)] by (simp add: fp with_capacity_def unat_of_u64)
  have len: "length data = kSpace + length payload" "length (fp_index fp) = kSpace + length log"
    using f(1,2) by (simp_all add: data fp length_header)
  have read: "read_all kSpace 0 (fp_index fp) [] = (Inr (ht_fields (with_capacity ih v)), [])"
    using f(2) by (simp add: fp get_bytes_def length_header)
  have al: "(length data + kAlignment - 1) div kAlignment * kAlignment = length data"
  proof -
    obtain k where "length data = kAlignment * k" using f(6) len(1) by (metis mod_0_imp_dvd dvdE)
    then show ?thesis by (simp add: kAlignment_def)
  qed
  obtain n where n: "validate_pair (with_capacity dh v) (with_capacity ih v) (kSpace + length payload) (kSpace + length log) = Inr n"
    using ready by (auto simp: pair_ready_def)
  obtain live where live: "bindR (replay_new v (kSpace + length payload)) (\<lambda>r. bindR (replay_loop r log) replay_finish) = Inr live"
    using f(9) by blast
  have rf: "replay_file v (kSpace + length payload) (fp_index fp) (kSpace + length log) [] = (Inr live, [])"
    unfolding fp using replay_file_log [of "ht_fields (with_capacity ih v)" log v] length_header f(2,7,8) live by simp
  have fin: "complete_records (length (fp_index fp)) = length (fp_index fp)" "align_down (length data) = length data"
    using f(6,7) by (simp_all add: len complete_records_id align_down_id)
  have stay: "take (length (fp_index fp)) (fp_index fp) = fp_index fp" "data @ zeros (length data - length data) = data" by simp_all
  have "load_pair data fp [] = (Inr (data, fp\<lparr>fp_index_bytes := length (fp_index fp), fp_mappings := live,
      fp_live_ranges := map seg_range live, fp_data_bytes := length data\<rparr>), [])"
    unfolding load_pair_def Let_def fin al read using rf n f(2) v by (simp add: parse_header fp(1) len)
  then show ?thesis using live fp intent data len(2) unfolding pair_at_def by force
qed

lemma open_start:
  assumes "ht_ok h" "\<not> is_sealed h" "data = ht_fields h @ payload" "sealed_trailer data [] = (Inr False, [])" "kSpace \<le> length index"
  shows "open_sync data index intent [] = (case recover_grow data (new_pair index intent h) [] of
    (Inl e, _, _, io) \<Rightarrow> (Inl e, io) | (Inr _, data, fp, io) \<Rightarrow> load_pair data fp io)"
  using assms by (simp add: open_sync_def get_bytes_def length_header parse_header)

lemma open_ready:
  assumes ready: "pair_ready dh ih v payload log" and at: "pair_at dh ih v payload log data fp"
  shows "\<exists>fp'. open_sync data (fp_index fp) (fp_grow_intent fp) [] = (Inr (data, fp'), []) \<and>
    pair_at dh ih v payload log data fp' \<and>
    bindR (replay_new v (kSpace + length payload)) (\<lambda>r. bindR (replay_loop r log) replay_finish) = Inr (fp_mappings fp')"
proof -
  note f = pair_ready_facts [OF ready]
  have data: "data = ht_fields (with_capacity dh v) @ payload" and index: "fp_index fp = ht_fields (with_capacity ih v) @ log"
    and intent: "fp_grow_intent fp = None" using at by (auto simp: pair_at_def)
  have "sealed_trailer data [] = (Inr False, [])"
    using ready sealed_trailer_payload [of "ht_fields dh" "ht_fields (with_capacity dh v)"] f(1)
    by (simp add: data pair_ready_def length_header)
  moreover have "\<not> is_sealed (with_capacity dh v)" using f(10) by (simp add: with_capacity_def)
  ultimately have "open_sync data (fp_index fp) None [] = load_pair data (new_pair (fp_index fp) None (with_capacity dh v)) []"
    using open_start [of "with_capacity dh v" data payload "fp_index fp" None] f(1,2) data
    by (simp add: index length_header recover_grow_def new_pair_def)
  moreover obtain fp' live where
    "load_pair data (new_pair (fp_index fp) None (with_capacity dh v)) [] = (Inr (data, fp'), [])"
    "pair_at dh ih v payload log data fp'"
    "bindR (replay_new v (kSpace + length payload)) (\<lambda>r. bindR (replay_loop r log) replay_finish) = Inr live" "fp_mappings fp' = live"
    using load_pair_at [OF ready, of "new_pair (fp_index fp) None (with_capacity dh v)" data] by (auto simp: new_pair_def data index)
  ultimately show ?thesis using intent by auto
qed

lemma open_mid:
  assumes ready: "pair_ready dh ih v0 payload log" and grow: "grow_to dh ih v0 v raw"
    and mid: "mid_grow dh ih v0 v payload log raw data fp"
  shows "\<exists>data' fp'. open_sync data (fp_index fp) (fp_grow_intent fp) [] = (Inr (data', fp'), []) \<and>
    pair_at dh ih v payload log data' fp' \<and>
    bindR (replay_new v (kSpace + length payload)) (\<lambda>r. bindR (replay_loop r log) replay_finish) = Inr (fp_mappings fp')"
proof -
  note f = pair_ready_facts [OF ready]
  have g: "v0 \<le> v" "v mod kAlignment = 0" "v div kAlignment \<le> kMaxOffset" using grow by (auto simp: grow_to_def)
  have ready': "pair_ready dh ih v payload log" by (rule pair_ready_wider [OF ready g])
  obtain a b where t: "torn_pair dh ih v0 v payload log a b data (fp_index fp)"
    and ab: "fp_grow_intent fp = Some raw \<or> fp_grow_intent fp = None \<and> kSpace \<le> a \<and> kSpace \<le> b"
    using mid by (auto simp: mid_grow_def)
  let ?H = "torn a (ht_fields (with_capacity dh v)) (ht_fields (with_capacity dh v0))"
  obtain k where H: "?H = ht_fields (dh\<lparr>ht_virtual_size := capacity_mix k (of_nat v) (of_nat v0)\<rparr>)"
    using torn_capacity [OF f(1)] by blast
  let ?h = "dh\<lparr>ht_virtual_size := capacity_mix k (of_nat v) (of_nat v0)\<rparr>"
  have ok: "ht_ok ?h" using f(1) by (simp add: ht_ok_def ht_strings_ok_def ht_cstrs_ok_def)
  have data: "data = ht_fields ?h @ payload" using t H by (simp add: torn_pair_def)
  have "sealed_trailer data [] = (Inr False, [])"
    using ready sealed_trailer_payload [of "ht_fields dh" "ht_fields ?h"] f(1) ok
    by (simp add: data pair_ready_def length_header)
  moreover have "kSpace \<le> length (fp_index fp)" using t f(2) by (simp add: torn_pair_def length_header)
  ultimately have open_eq: "open_sync data (fp_index fp) (fp_grow_intent fp) [] =
      (case recover_grow data (new_pair (fp_index fp) (fp_grow_intent fp) ?h) [] of
        (Inl e, _, _, io) \<Rightarrow> (Inl e, io) | (Inr _, data, fp, io) \<Rightarrow> load_pair data fp io)"
    using open_start [OF ok f(10) data] by blast
  let ?np = "new_pair (fp_index fp) (fp_grow_intent fp) ?h"
  have mid': "mid_grow dh ih v0 v payload log raw data ?np" using mid by (simp add: mid_grow_def new_pair_def)
  obtain r d1 f1 io1 where rec: "recover_grow data ?np [] = (r, d1, f1, io1)" by (cases "recover_grow data ?np []")
  note rm = recover_mid [OF ready grow mid' rec]
  obtain x where x: "r = Inr x" "io1 = []" using rm(6) by blast
  have none: "fp_grow_intent f1 = None" using rm(3) x by blast
  have fin: "d1 = ht_fields (with_capacity dh v) @ payload" "fp_index f1 = ht_fields (with_capacity ih v) @ log"
    using rm(1) none torn_pair_done f(1,2) unfolding mid_grow_def by fastforce+
  have "fp_header f1 = with_capacity dh v"
  proof (cases x)
    case False
    then have n: "f1 = ?np" "fp_grow_intent fp = None" using rm(5) x by (auto simp: new_pair_def)
    then have "data = ht_fields (with_capacity dh v) @ payload" using torn_pair_done [OF t] ab f(1,2) by simp
    then have "ht_fields ?h = ht_fields (with_capacity dh v)" using data by simp
    then have "parse_ht (ht_fields ?h) = parse_ht (ht_fields (with_capacity dh v))" by simp
    then show ?thesis using ok f(1) n by (simp add: parse_header new_pair_def)
  qed (use rm(4) x in auto)
  from load_pair_at [OF ready' this fin(2) none fin(1)] show ?thesis
    unfolding open_eq rec using x by auto
qed

text \<open>C3: Growing a pair is atomic across crashes and errors.  Start from a pair at rest at capacity \<open>v0\<close> and run
  \<open>grow\<close> with any script of I/O outcomes, so that it may stop at any of its system calls and in the middle of any write.
  Opening the files it leaves then succeeds at capacity \<open>v0\<close> or \<open>v\<close>, with the payload, the log and the replayed mappings
  of before; and when \<open>grow\<close> reports success, both headers hold the new capacity, no intent is left and the pair is usable.\<close>

theorem grow_crash_safe:
  assumes ready: "pair_ready dh ih v0 payload log" and at: "pair_at dh ih v0 payload log data fp"
    and idle: "\<not> fp_poisoned fp" "\<not> fp_growth_pending fp"
    and run: "pair_grow v data fp io = (res, data', fp', io')"
  shows "(\<exists>w data'' fp''. (w = v0 \<or> w = v \<and> v0 < v) \<and>
      open_sync data' (fp_index fp') (fp_grow_intent fp') [] = (Inr (data'', fp''), []) \<and>
      pair_at dh ih w payload log data'' fp'' \<and>
      bindR (replay_new v0 (kSpace + length payload)) (\<lambda>r. bindR (replay_loop r log) replay_finish) = Inr (fp_mappings fp'')) \<and>
    (res = None \<longrightarrow> pair_at dh ih v payload log data' fp' \<and> \<not> fp_poisoned fp' \<and> \<not> fp_growth_pending fp')"
proof -
  have "start_grow v data fp io = (res, data', fp', io')" using run idle by (simp add: pair_grow_def)
  from start_grow_cases [OF ready at this] show ?thesis
  proof (elim disjE exE conjE)
    fix raw
    assume grow: "grow_to dh ih v0 v raw" and mid: "mid_grow dh ih v0 v payload log raw data' fp'"
      and ok: "res = None \<longrightarrow> pair_at dh ih v payload log data' fp' \<and> \<not> fp_poisoned fp' \<and> \<not> fp_growth_pending fp'"
    obtain live where live: "bindR (replay_new v0 (kSpace + length payload)) (\<lambda>r. bindR (replay_loop r log) replay_finish) = Inr live"
      using pair_ready_facts(9) [OF ready] by blast
    have g: "v0 \<le> v" "v mod kAlignment = 0" "v div kAlignment \<le> kMaxOffset" "v0 < v" using grow by (auto simp: grow_to_def)
    have "bindR (replay_new v (kSpace + length payload)) (\<lambda>r. bindR (replay_loop r log) replay_finish) = Inr live"
      by (rule replay_wider [OF live g(1-3)])
    then show ?thesis using open_mid [OF ready grow mid] live g(4) ok by fastforce
  qed (use open_ready [OF ready at] at idle in auto)
qed

definition sample_uuid :: bytes where
  "sample_uuid = replicate 8 0x30 @ 0x2D # replicate 4 0x31 @ 0x2D # replicate 4 0x32 @ 0x2D # replicate 4 0x33 @ 0x2D # replicate 12 0x34"

definition sample_dh :: HeaderTrailer where
  "sample_dh = default_ht\<lparr>ht_flags := 3, ht_uuid := sample_uuid\<rparr>"

definition sample_ih :: HeaderTrailer where
  "sample_ih = default_ht\<lparr>ht_flags := 1, ht_uuid := sample_uuid, ht_index_offset := 4096\<rparr>"

definition sample_open_pair :: FilePair where
  "sample_open_pair = new_pair (ht_fields (with_capacity sample_ih 4096)) None (with_capacity sample_dh 4096)\<lparr>fp_index_bytes := 4096\<rparr>"

lemma sample_uuid_valid: "valid_uuid sample_uuid"
proof -
  have "\<forall>i \<in> set [0..<36]. if i = 8 \<or> i = 13 \<or> i = 18 \<or> i = 23 then sample_uuid ! i = 0x2D else isxdigit (sample_uuid ! i)"
    by code_simp
  then have "\<forall>i < 36. if i = 8 \<or> i = 13 \<or> i = 18 \<or> i = 23 then sample_uuid ! i = 0x2D else isxdigit (sample_uuid ! i)"
    by (metis atLeastLessThan_iff le0 set_upt)
  moreover have "length sample_uuid = 36" by (simp add: sample_uuid_def)
  ultimately show ?thesis unfolding valid_uuid_def by blast
qed

lemma sample_open_pair_ready: "pair_ready sample_dh sample_ih 4096 [] []"
proof -
  have "ht_ok sample_dh" "ht_ok sample_ih"
    by (simp_all add: sample_dh_def sample_ih_def sample_uuid_def default_ht_def ht_ok_def ht_strings_ok_def ht_cstrs_ok_def cstr_ok_def)
  moreover have "validate_pair (with_capacity sample_dh 4096) (with_capacity sample_ih 4096) 4096 4096 = Inr 0"
    using sample_uuid_valid by (simp add: validate_pair_def with_capacity_def sample_dh_def sample_ih_def default_ht_def
      kSpace_def kAlignment_def kMaxOffset_def kMaxMoffset_def)
  moreover have "bindR (replay_new 4096 4096) (\<lambda>r. bindR (replay_loop r []) replay_finish) = Inr []"
    by (simp add: replay_new_def kSpace_def kAlignment_def kMaxOffset_def kMaxMoffset_def replay_loop.simps [of _ "[]"]
      replay_finish_def physical_def)
  moreover have "replay_file 4096 4096 (ht_fields sample_ih) 4096 [] = (Inr [], [])"
    using replay_file_log [of "ht_fields sample_ih" "[]"] calculation(2,4)
    by (simp del: bindR_Inr add: length_header kSpace_def)
  ultimately show ?thesis by (simp add: pair_ready_def kSpace_def U64_def sealed_trailer_def length_header)
qed

theorem grow_crash_safe_witness:
  "pair_ready sample_dh sample_ih 4096 [] [] \<and>
   (case pair_grow 8192 (ht_fields (with_capacity sample_dh 4096)) sample_open_pair [Done, Done, Done, Done, Done, Done, Fail EIO 77] of
     (res, data', fp', io') \<Rightarrow> \<exists>w data'' fp''. (w = 4096 \<or> w = 8192) \<and>
       open_sync data' (fp_index fp') (fp_grow_intent fp') [] = (Inr (data'', fp''), []) \<and>
       pair_at sample_dh sample_ih w [] [] data'' fp'')"
proof -
  have at: "pair_at sample_dh sample_ih 4096 [] [] (ht_fields (with_capacity sample_dh 4096)) sample_open_pair"
    by (simp add: pair_at_def sample_open_pair_def new_pair_def kSpace_def)
  have idle: "\<not> fp_poisoned sample_open_pair" "\<not> fp_growth_pending sample_open_pair" by (simp_all add: sample_open_pair_def new_pair_def)
  show ?thesis using grow_crash_safe [OF sample_open_pair_ready at idle] sample_open_pair_ready
    by (fastforce split: prod.splits)
qed

end
