(* ===== verification/LsmtRwSeal.thy ===== *)
theory LsmtRwSeal
  imports LsmtRw LsmtRwOpen
begin

text \<open>
  \<open>src/format/lsmt_rw.cpp\<close>, the life cycle of the writable layer: the gates that keep \<open>grow\<close>, \<open>checkpoint\<close> and
  \<open>seal\<close> apart, growing, flushing, checkpointing, and sealing into a read-only layer file; and
  \<open>create_empty_lsmt_layer\<close>. SHA-256 is OpenSSL's: a parameter \<open>sha256\<close> from the hashed bytes to the digest.

  The theorems: sealing either publishes a file that \<open>LsmtLayer::open\<close> accepts and that shows the content of
  the layer sector by sector, or leaves the layer as it was; an empty layer file opens and maps nothing.
\<close>

section \<open>State gates\<close>

definition begin_grow_op :: "LsmtRw \<Rightarrow> errno option \<times> LsmtRw" where
  "begin_grow_op st =
     (if rw_terminal_op st \<or> rw_grow_op st then (Some EBUSY, st)
      else if rw_sealed st \<or> rw_checkpointed st then (Some EROFS, st)
      else (None, st\<lparr>rw_grow_op := True\<rparr>))"

definition end_grow_op :: "LsmtRw \<Rightarrow> LsmtRw" where
  "end_grow_op st = st\<lparr>rw_grow_op := False\<rparr>"

definition begin_terminal_op :: "bool \<Rightarrow> LsmtRw \<Rightarrow> errno option \<times> LsmtRw" where
  "begin_terminal_op allow_checkpointed st =
     (if rw_terminal_op st \<or> rw_grow_op st then (Some EBUSY, st)
      else if rw_sealed st then (Some EROFS, st)
      else if \<not> allow_checkpointed \<and> rw_checkpointed st then (Some EROFS, st)
      else (None, st\<lparr>rw_terminal_op := True\<rparr>))"

definition end_terminal_op :: "LsmtRw \<Rightarrow> LsmtRw" where
  "end_terminal_op st = st\<lparr>rw_terminal_op := False\<rparr>"

section \<open>Headers and content digests\<close>

definition make_ht :: "bool \<Rightarrow> bool \<Rightarrow> nat \<Rightarrow> nat \<Rightarrow> nat \<Rightarrow> bytes \<Rightarrow> bytes \<Rightarrow> HeaderTrailer" where
  "make_ht header sealed index_offset index_size vsize uuid user_tag =
     (let ht = set_flag_bit kFlagShiftType default_ht;
          ht = (if header then set_flag_bit kFlagShiftHeader ht else ht);
          ht = (if sealed then set_flag_bit kFlagShiftSealed ht else ht)
      in ht\<lparr>ht_index_offset := of_nat index_offset, ht_index_size := of_nat index_size,
            ht_virtual_size := of_nat vsize, ht_uuid := uuid, ht_user_tag := user_tag\<rparr>)"

text \<open>\<open>Sha256::final_hex\<close>: the digest itself comes from OpenSSL and is the argument.\<close>

definition hexd :: bytes where
  "hexd = [0x30, 0x31, 0x32, 0x33, 0x34, 0x35, 0x36, 0x37, 0x38, 0x39, 0x61, 0x62, 0x63, 0x64, 0x65, 0x66]"

definition final_hex :: "bytes \<Rightarrow> bytes" where
  "final_hex digest = concat (map (\<lambda>b. [hexd ! unat (drop_bit 4 b), hexd ! unat (b AND 0xf)]) digest)"

definition insert_dash :: "nat \<Rightarrow> bytes \<Rightarrow> bytes" where
  "insert_dash i u = take i u @ 0x2D # drop i u"

definition uuid_from_content_digest :: "bytes \<Rightarrow> bytes" where
  "uuid_from_content_digest digest_hex =
     insert_dash 8 (insert_dash 12 (insert_dash 16 (insert_dash 20 (take 32 digest_hex))))"

section \<open>Growing, flushing and checkpointing\<close>

text \<open>The header rewrite of a layer without a pair: back up, write, sync, restore on failure.\<close>

definition restore_header :: "bytes \<Rightarrow> bytes \<Rightarrow> script \<Rightarrow> bytes \<times> script" where
  "restore_header backup f io = (case write_all backup 0 f io of
     (Some _, f, io) \<Rightarrow> (f, io)
   | (None, f, io) \<Rightarrow> (f, snd (sys_call io)))"

definition grow_header :: "nat \<Rightarrow> LsmtRw \<Rightarrow> script \<Rightarrow> errno option \<times> LsmtRw \<times> script" where
  "grow_header vsize st io =
     (if vsize = 0 \<or> vsize mod kSector \<noteq> 0 then (Some EINVAL, st, io)
      else if vsize < rw_vsize st then (Some EINVAL, st, io)
      else if vsize = rw_vsize st then (None, st, io)
      else if \<not> rw_open st then (Some EBADF, st, io)
      else case read_all 4096 0 (rw_file st) io of
        (Inl _, io) \<Rightarrow> (Some EIO, st, io)
      | (Inr backup, io) \<Rightarrow>
          (case serialize_ht (make_ht True False 0 0 vsize (rw_uuid st) []) of
             Inl e \<Rightarrow> (Some e, st, io)
           | Inr region \<Rightarrow>
               (case write_all region 0 (rw_file st) io of
                  (Some _, f, io) \<Rightarrow>
                    (case restore_header backup f io of (f, io) \<Rightarrow> (Some EIO, st\<lparr>rw_file := f\<rparr>, io))
                | (None, f, io) \<Rightarrow>
                    (case sys_call io of
                       (Some e, io) \<Rightarrow>
                         (case restore_header backup f io of (f, io) \<Rightarrow> (Some e, st\<lparr>rw_file := f\<rparr>, io))
                     | (None, io) \<Rightarrow> (None, st\<lparr>rw_file := f, rw_vsize := vsize\<rparr>, io)))))"

definition grow_pair :: "nat \<Rightarrow> FilePair \<Rightarrow> LsmtRw \<Rightarrow> script \<Rightarrow> errno option \<times> LsmtRw \<times> script" where
  "grow_pair vsize fp st io =
     (if rw_journal_failed st \<and> \<not> fp_growth_pending fp then (Some EIO, st, io)
      else case pair_grow vsize (rw_file st) fp io of (rc, f, fp, io) \<Rightarrow>
        let st = st\<lparr>rw_file := f, rw_pair := Some fp\<rparr> in
        (rc,
         (if \<not> fp_poisoned fp then st\<lparr>rw_vsize := unat (ht_virtual_size (fp_header fp)), rw_journal_failed := False\<rparr>
          else if fp_growth_pending fp then st\<lparr>rw_journal_failed := True\<rparr>
          else st), io))"

definition rw_grow :: "nat \<Rightarrow> LsmtRw \<Rightarrow> script \<Rightarrow> errno option \<times> LsmtRw \<times> script" where
  "rw_grow vsize st io = (case begin_grow_op st of
     (Some e, st) \<Rightarrow> (Some e, st, io)
   | (None, st) \<Rightarrow>
       (case (case rw_pair st of Some fp \<Rightarrow> grow_pair vsize fp st io | None \<Rightarrow> grow_header vsize st io) of
          (rc, st, io) \<Rightarrow> (rc, end_grow_op st, io)))"

definition rw_flush :: "LsmtRw \<Rightarrow> script \<Rightarrow> errno option \<times> script" where
  "rw_flush st io =
     (if rw_journal_failed st then (Some EIO, io)
      else case (rw_pair st, rw_sealed st) of
        (Some fp, False) \<Rightarrow> pair_flush fp io
      | _ \<Rightarrow> if \<not> rw_open st then (Some EBADF, io) else sys_call io)"

text \<open>The region an index occupies in a file, padded to 4096 bytes.\<close>

definition index_region :: "segment_mapping list \<Rightarrow> nat" where
  "index_region segs = (length segs * kEncodedSize + 4095) div 4096 * 4096"

definition encode_index :: "segment_mapping list \<Rightarrow> bytes" where
  "encode_index segs = put_bytes 0 (concat (map store_segment_le segs)) (zeros (index_region segs))"

definition index_sector :: "nat \<Rightarrow> nat" where
  "index_sector data_end = (data_end + kHeaderSectors - 1) div kHeaderSectors * kHeaderSectors"

definition checkpoint_file :: "LsmtRw \<Rightarrow> script \<Rightarrow> errno option \<times> LsmtRw \<times> script" where
  "checkpoint_file st io =
     (let index_offset = index_sector (rw_data_end st) * kSector;
          region_size = index_region (rw_segments st)
      in case write_all (encode_index (rw_segments st)) index_offset (rw_file st) io of
        (Some e, f, io) \<Rightarrow> (Some e, st\<lparr>rw_file := f\<rparr>, io)
      | (None, f, io) \<Rightarrow>
          (case serialize_ht (make_ht False False index_offset (length (rw_segments st)) (rw_vsize st) (rw_uuid st) []) of
             Inl e \<Rightarrow> (Some e, st\<lparr>rw_file := f\<rparr>, io)
           | Inr region \<Rightarrow>
               (case write_all region (index_offset + region_size) f io of
                  (Some e, f, io) \<Rightarrow> (Some e, st\<lparr>rw_file := f\<rparr>, io)
                | (None, f, io) \<Rightarrow>
                    (case sys_call io of
                       (Some e, io) \<Rightarrow> (Some e, st\<lparr>rw_file := f\<rparr>, io)
                     | (None, io) \<Rightarrow>
                         (None, st\<lparr>rw_file := f, rw_data_bytes := index_offset + region_size + 4096, rw_checkpointed := True\<rparr>, io)))))"

definition rw_checkpoint :: "LsmtRw \<Rightarrow> script \<Rightarrow> errno option \<times> LsmtRw \<times> script" where
  "rw_checkpoint st io = (case begin_terminal_op False st of
     (Some e, st) \<Rightarrow> (Some e, st, io)
   | (None, st) \<Rightarrow>
       (case (if rw_journal_failed st then (Some EIO, st, io)
              else case rw_pair st of
                Some fp \<Rightarrow>
                  (case pair_flush fp io of
                     (None, io) \<Rightarrow> (None, st\<lparr>rw_checkpointed := True\<rparr>, io)
                   | (Some e, io) \<Rightarrow> (Some e, st, io))
              | None \<Rightarrow> if \<not> rw_open st then (Some EBADF, st, io) else checkpoint_file st io) of
          (rc, st, io) \<Rightarrow> (rc, end_terminal_op st, io)))"

section \<open>Sealing\<close>

definition kCopyBuffer :: nat where "kCopyBuffer = 2 ^ 20"

text \<open>Copying one mapping; the bytes that went into the content digest are accumulated.\<close>

function copy_loop :: "bytes \<Rightarrow> nat \<Rightarrow> nat \<Rightarrow> nat \<Rightarrow> bytes \<Rightarrow> bytes \<Rightarrow> script \<Rightarrow> (bytes \<times> bytes) result \<times> script" where
  "copy_loop input remaining src dst out hashed io =
     (if remaining = 0 then (Inr (out, hashed), io)
      else
        let n = min remaining kCopyBuffer in
        case read_all n src input io of
          (Inl e, io) \<Rightarrow> (Inl e, io)
        | (Inr bs, io) \<Rightarrow>
            (case write_all bs dst out io of
               (Some e, _, io) \<Rightarrow> (Inl e, io)
             | (None, out, io) \<Rightarrow> copy_loop input (remaining - n) (src + n) (dst + n) out (hashed @ bs) io))"
  by pat_completeness auto
termination
  by (relation "measure (\<lambda>(input, remaining, src, dst, out, hashed, io). remaining)") (auto simp: kCopyBuffer_def)

declare copy_loop.simps [simp del]

fun pack_loop :: "bytes \<Rightarrow> segment_mapping list \<Rightarrow> nat \<Rightarrow> segment_mapping list \<Rightarrow> bytes \<Rightarrow> bytes \<Rightarrow> script
    \<Rightarrow> (nat \<times> segment_mapping list \<times> bytes \<times> bytes) result \<times> script" where
  "pack_loop input [] out_sector packed out hashed io = (Inr (out_sector, packed, out, hashed), io)"
| "pack_loop input (s # ss) out_sector packed out hashed io =
     (let m = s\<lparr>s_moffset := out_sector\<rparr> in
      if s_zeroed s then pack_loop input ss out_sector (insert_sorted m packed) out hashed io
      else case copy_loop input (s_length s * kSector) (s_moffset s * kSector) (out_sector * kSector) out hashed io of
        (Inl e, io) \<Rightarrow> (Inl e, io)
      | (Inr (out, hashed), io) \<Rightarrow>
          pack_loop input ss (out_sector + s_length s) (insert_sorted m packed) out hashed io)"

text \<open>Header, index and trailer of the sealed file; the result is the file and its uuid.\<close>

definition write_sealed :: "(bytes \<Rightarrow> bytes) \<Rightarrow> bytes \<Rightarrow> nat \<Rightarrow> nat \<Rightarrow> segment_mapping list \<Rightarrow> bytes \<Rightarrow> bytes \<Rightarrow> script
    \<Rightarrow> (bytes \<times> bytes \<times> nat) result \<times> script" where
  "write_sealed sha256 user_tag vsize out_sector packed out hashed io =
     (let index_offset = index_sector out_sector * kSector;
          idx = encode_index packed;
          uuid = uuid_from_content_digest (final_hex (sha256 (hashed @ take (length packed * 16) idx)))
      in case serialize_ht (make_ht True True index_offset (length packed) vsize uuid user_tag) of
        Inl e \<Rightarrow> (Inl e, io)
      | Inr header \<Rightarrow>
          (case write_all header 0 out io of (Some e, _, io) \<Rightarrow> (Inl e, io) | (None, out, io) \<Rightarrow>
            (case write_all idx index_offset out io of (Some e, _, io) \<Rightarrow> (Inl e, io) | (None, out, io) \<Rightarrow>
              (case serialize_ht (make_ht False True index_offset (length packed) vsize uuid user_tag) of
                 Inl e \<Rightarrow> (Inl e, io)
               | Inr trailer \<Rightarrow>
                   (let trailer_offset = index_offset + index_region packed in
                    case write_all trailer trailer_offset out io of (Some e, _, io) \<Rightarrow> (Inl e, io) | (None, out, io) \<Rightarrow>
                      (case sys_call io of (Some e, io) \<Rightarrow> (Inl e, io) | (None, io) \<Rightarrow>
                        (case sys_call io of (Some e, io) \<Rightarrow> (Inl e, io) | (None, io) \<Rightarrow>
                          (Inr (out, uuid, trailer_offset + 4096), io))))))))"

text \<open>\<open>sync_parent\<close>: open the directory and sync it.\<close>

definition sync_parent :: "script \<Rightarrow> errno option \<times> script" where
  "sync_parent io = (case sys_call io of (Some e, io) \<Rightarrow> (Some e, io) | (None, io) \<Rightarrow> sys_call io)"

definition seal_body :: "(bytes \<Rightarrow> bytes) \<Rightarrow> bytes \<Rightarrow> LsmtRw \<Rightarrow> script \<Rightarrow> errno option \<times> LsmtRw \<times> script" where
  "seal_body sha256 user_tag st io =
     (if \<not> rw_open st then (Some EBADF, st, io)
      else case sys_call io of (Some e, io) \<Rightarrow> (Some e, st, io) | (None, io) \<Rightarrow>
        (case pack_loop (rw_file st) (rw_segments st) kHeaderSectors [] [] (store_u64_le (of_nat (rw_vsize st))) io of
           (Inl e, io) \<Rightarrow> (Some e, st, io)
         | (Inr (out_sector, packed, out, hashed), io) \<Rightarrow>
             (case write_sealed sha256 user_tag (rw_vsize st) out_sector packed out hashed io of
                (Inl e, io) \<Rightarrow> (Some e, st, io)
              | (Inr (out, uuid, sealed_bytes), io) \<Rightarrow>
                  (case sys_call io of (Some e, io) \<Rightarrow> (Some e, st, io) | (None, io) \<Rightarrow>
                    (case sync_parent io of (rc, io) \<Rightarrow>
                      (rc, (mappings_changed (st\<lparr>rw_uuid := uuid\<rparr>))\<lparr>rw_segments := packed, rw_data_bytes := sealed_bytes,
                             rw_file := out, rw_sealed := True\<rparr>, io))))))"

definition rw_seal :: "(bytes \<Rightarrow> bytes) \<Rightarrow> bytes \<Rightarrow> LsmtRw \<Rightarrow> script \<Rightarrow> errno option \<times> LsmtRw \<times> script" where
  "rw_seal sha256 user_tag st io =
     (if rw_journal_failed st then (Some EIO, st, io)
      else case begin_terminal_op True st of
        (Some e, st) \<Rightarrow> (Some e, st, io)
      | (None, st) \<Rightarrow> (case seal_body sha256 user_tag st io of (rc, st, io) \<Rightarrow> (rc, end_terminal_op st, io)))"

text \<open>\<open>create_empty_lsmt_layer\<close>: the result is the published file.\<close>

definition create_empty_lsmt_layer :: "(bytes \<Rightarrow> bytes) \<Rightarrow> nat \<Rightarrow> bytes \<Rightarrow> script \<Rightarrow> bytes result \<times> script" where
  "create_empty_lsmt_layer sha256 vsize user_tag io =
     (if vsize = 0 \<or> vsize mod kSector \<noteq> 0 then (Inl EINVAL, io)
      else case sys_call io of (Some e, io) \<Rightarrow> (Inl e, io) | (None, io) \<Rightarrow>
        (let uuid = uuid_from_content_digest (final_hex (sha256 (store_u64_le (of_nat vsize))));
             index_offset = kHeaderSectors * kSector
         in case serialize_ht (make_ht True True index_offset 0 vsize uuid user_tag) of
           Inl e \<Rightarrow> (Inl e, io)
         | Inr header \<Rightarrow>
             (case write_all header 0 [] io of (Some e, _, io) \<Rightarrow> (Inl e, io) | (None, f, io) \<Rightarrow>
               (case serialize_ht (make_ht False True index_offset 0 vsize uuid user_tag) of
                  Inl e \<Rightarrow> (Inl e, io)
                | Inr trailer \<Rightarrow>
                    (case write_all trailer index_offset f io of (Some e, _, io) \<Rightarrow> (Inl e, io) | (None, f, io) \<Rightarrow>
                      (case sys_call io of (Some e, io) \<Rightarrow> (Inl e, io) | (None, io) \<Rightarrow> (Inr f, io)))))))"

section \<open>Identity strings\<close>

lemma hexd_nth: "i < 16 \<Longrightarrow> isxdigit (hexd ! i)"
proof -
  have "\<forall>c \<in> set hexd. isxdigit c" by code_simp
  moreover have "length hexd = 16" by (simp add: hexd_def)
  ultimately show "i < 16 \<Longrightarrow> isxdigit (hexd ! i)" by simp
qed

lemma nibbles: "unat (drop_bit 4 (b :: byte)) < 16" "unat (b AND 0xf :: byte) < 16"
proof -
  have "unat (drop_bit 4 b) = unat b div 16" by (simp only: unat_drop_bit_eq) (simp add: drop_bit_eq_div)
  moreover have "unat b < 2 ^ LENGTH(8)" by (rule unsigned_less)
  ultimately show "unat (drop_bit 4 b) < 16" by simp
  have "b AND 0xf = take_bit 4 b" by (simp add: take_bit_eq_mask mask_eq_exp_minus_1)
  then show "unat (b AND 0xf) < 16" using take_bit_nat_less_exp [of 4 "unat b"] by (simp add: unsigned_take_bit_eq)
qed

lemma final_hex_facts: "length (final_hex d) = 2 * length d" "c \<in> set (final_hex d) \<Longrightarrow> isxdigit c"
proof -
  show "length (final_hex d) = 2 * length d" by (induction d) (simp_all add: final_hex_def)
  show "c \<in> set (final_hex d) \<Longrightarrow> isxdigit c" using hexd_nth nibbles by (auto simp: final_hex_def)
qed

lemma uuid_parts:
  assumes "32 \<le> length h"
  shows "uuid_from_content_digest h = get_bytes 0 8 h @ 0x2D # get_bytes 8 4 h @ 0x2D # get_bytes 12 4 h @ 0x2D #
    get_bytes 16 4 h @ 0x2D # get_bytes 20 12 h"
  using assms by (simp add: uuid_from_content_digest_def insert_dash_def get_bytes_def drop_take min_def)

lemma content_uuid_valid:
  assumes "length d = 32"
  shows "valid_uuid (uuid_from_content_digest (final_hex d))"
proof -
  let ?h = "final_hex d"
  have len: "length ?h = 64" using assms by (simp add: final_hex_facts)
  have x: "isxdigit (get_bytes i n ?h ! j)" if "j < n" "i + n \<le> 64" for i n j
    using that len final_hex_facts(2) [of "?h ! (i + j)" d] by (simp add: get_bytes_def)
  have "if i = 8 \<or> i = 13 \<or> i = 18 \<or> i = 23 then uuid_from_content_digest ?h ! i = 0x2D
      else isxdigit (uuid_from_content_digest ?h ! i)" if "i < 36" for i
    using that len by (auto simp: uuid_parts nth_append nth_Cons' length_get_bytes intro!: x)
  moreover have "length (uuid_from_content_digest ?h) = 36" using len by (simp add: uuid_parts length_get_bytes)
  ultimately show ?thesis by (simp add: valid_uuid_def)
qed

lemma valid_uuid_cstr: "valid_uuid u \<Longrightarrow> cstr_ok u \<and> length u = 36"
proof -
  assume v: "valid_uuid u"
  have "u ! i \<noteq> 0" if "i < 36" for i
    using v that by (auto simp: valid_uuid_def isxdigit_def dest!: spec [of _ i] split: if_splits)
  then show ?thesis using v by (auto simp: valid_uuid_def cstr_ok_def in_set_conv_nth)
qed

lemma make_ht_facts:
  assumes "length uuid < 37" "cstr_ok uuid" "length tag < 256" "cstr_ok tag"
  shows "ht_ok (make_ht h s io is v uuid tag)" "is_header (make_ht h s io is v uuid tag) \<longleftrightarrow> h"
    "is_data_file (make_ht h s io is v uuid tag)" "is_trailer (make_ht h s io is v uuid tag) \<longleftrightarrow> \<not> h"
    "is_sealed (make_ht h s io is v uuid tag) \<longleftrightarrow> s"
    "\<not> get_flag_bit (make_ht h s io is v uuid tag) kFlagShiftHybridRw"
    "serialize_ht (make_ht h s io is v uuid tag) = Inr (ht_fields (make_ht h s io is v uuid tag))"
proof -
  show ok: "ht_ok (make_ht h s io is v uuid tag)"
    using assms by (simp add: make_ht_def Let_def ht_ok_def ht_strings_ok_def ht_cstrs_ok_def set_flag_bit_def default_ht_def cstr_ok_def)
  then show "serialize_ht (make_ht h s io is v uuid tag) = Inr (ht_fields (make_ht h s io is v uuid tag))"
    by (rule serialize_header)
  show "is_header (make_ht h s io is v uuid tag) \<longleftrightarrow> h"
    "is_data_file (make_ht h s io is v uuid tag)" "is_trailer (make_ht h s io is v uuid tag) \<longleftrightarrow> \<not> h"
    "is_sealed (make_ht h s io is v uuid tag) \<longleftrightarrow> s"
    "\<not> get_flag_bit (make_ht h s io is v uuid tag) kFlagShiftHybridRw"
    by (simp_all add: make_ht_def Let_def set_flag_bit_def default_ht_def is_header_def is_data_file_def is_trailer_def is_sealed_def
      get_flag_bit_def kFlagShiftType_def kFlagShiftHeader_def kFlagShiftSealed_def kFlagShiftHybridRw_def)
qed

section \<open>The packed payload\<close>

fun data_sectors :: "segment_mapping list \<Rightarrow> nat" where
  "data_sectors [] = 0"
| "data_sectors (s # ss) = (if s_zeroed s then 0 else s_length s) + data_sectors ss"

fun packed_bytes :: "bytes \<Rightarrow> segment_mapping list \<Rightarrow> bytes" where
  "packed_bytes input [] = []"
| "packed_bytes input (s # ss) =
     (if s_zeroed s then [] else get_bytes (s_moffset s * kSector) (s_length s * kSector) input) @ packed_bytes input ss"

fun repack :: "nat \<Rightarrow> segment_mapping list \<Rightarrow> segment_mapping list" where
  "repack k [] = []"
| "repack k (s # ss) = s\<lparr>s_moffset := k\<rparr> # repack (if s_zeroed s then k else k + s_length s) ss"

text \<open>The output file while only payload has been written.\<close>

definition payload_image :: "bytes \<Rightarrow> bytes" where
  "payload_image d = (if d = [] then [] else zeros (kHeaderSectors * kSector) @ d)"

lemma write_payload_image: "file_write (kHeaderSectors * kSector + length d) bs (payload_image d) = payload_image (d @ bs)"
  by (cases "bs = []"; cases "d = []") (simp_all add: payload_image_def file_write_def)

lemma copy_loop_ok:
  assumes "copy_loop input remaining src dst (payload_image d) hashed io = (Inr (out, hashed'), io')"
    "dst = kHeaderSectors * kSector + length d"
  shows "out = payload_image (d @ get_bytes src remaining input)" "hashed' = hashed @ get_bytes src remaining input"
    "0 < remaining \<Longrightarrow> src + remaining \<le> length input"
proof -
  have "out = payload_image (d @ get_bytes src remaining input) \<and> hashed' = hashed @ get_bytes src remaining input \<and>
    (0 < remaining \<longrightarrow> src + remaining \<le> length input)"
    using assms
  proof (induction remaining arbitrary: src dst d hashed io rule: less_induct)
    case (less remaining)
    show ?case
    proof (cases "remaining = 0")
      case True
      then show ?thesis using less.prems by (simp add: copy_loop.simps get_bytes_def)
    next
      case False
      let ?n = "min remaining kCopyBuffer"
      have n: "0 < ?n" "?n \<le> remaining" using False by (simp_all add: kCopyBuffer_def)
      obtain r io1 where rd: "read_all ?n src input io = (r, io1)" by (cases "read_all ?n src input io")
      note run = less.prems(1) [unfolded copy_loop.simps [of input remaining] if_not_P [OF False] Let_def rd prod.case]
      obtain bs where r: "r = Inr bs" using run by (cases r) auto
      have bs: "bs = get_bytes src ?n input" "src + ?n \<le> length input" using read_all_Inr rd r by blast+
      obtain w o1 io2 where wr: "write_all bs dst (payload_image d) io1 = (w, o1, io2)"
        by (cases "write_all bs dst (payload_image d) io1")
      note run = run [unfolded r sum.case wr prod.case]
      have w: "w = None" using run by (cases w) auto
      have o1: "o1 = payload_image (d @ bs)"
        using wr w less.prems(2) write_payload_image by (auto simp: write_all_def split: outcome.splits)
      have len: "length bs = ?n" using bs by (simp add: length_get_bytes)
      note IH = less.IH [of "remaining - ?n" "src + ?n" "dst + ?n" "d @ bs" "hashed @ bs" io2]
      have "out = payload_image ((d @ bs) @ get_bytes (src + ?n) (remaining - ?n) input) \<and>
          hashed' = (hashed @ bs) @ get_bytes (src + ?n) (remaining - ?n) input \<and>
          (0 < remaining - ?n \<longrightarrow> src + ?n + (remaining - ?n) \<le> length input)"
        using IH n run w o1 len less.prems(2) False by simp
      moreover have "get_bytes src remaining input = bs @ get_bytes (src + ?n) (remaining - ?n) input"
        using bs(1) get_bytes_append [of src ?n "remaining - ?n" input] n(2) by simp
      ultimately show ?thesis using bs(2) n(2) by (cases "remaining = ?n") auto
    qed
  qed
  then show "out = payload_image (d @ get_bytes src remaining input)" "hashed' = hashed @ get_bytes src remaining input"
    "0 < remaining \<Longrightarrow> src + remaining \<le> length input" by auto
qed

lemma copy_loop_succeeds:
  "src + remaining \<le> length input \<Longrightarrow> \<exists>r. copy_loop input remaining src dst out hashed [] = (Inr r, [])"
proof (induction remaining arbitrary: src dst out hashed rule: less_induct)
  case (less remaining)
  show ?case
  proof (cases "remaining = 0")
    case False
    let ?n = "min remaining kCopyBuffer"
    have "0 < ?n" using False by (simp add: kCopyBuffer_def)
    then show ?thesis using less.IH [of "remaining - ?n" "src + ?n"] less.prems False
      by (simp add: copy_loop.simps [of input remaining] Let_def)
  qed (simp add: copy_loop.simps)
qed

lemma pack_loop_ok:
  assumes "pack_loop input ss k packed (payload_image d) hashed io = (Inr (k', packed', out, hashed'), io')"
    "k * kSector = kHeaderSectors * kSector + length d"
  shows "out = payload_image (d @ packed_bytes input ss) \<and> hashed' = hashed @ packed_bytes input ss \<and>
    packed' = fold insert_sorted (repack k ss) packed \<and> k' = k + data_sectors ss \<and>
    (\<forall>s \<in> set ss. \<not> s_zeroed s \<longrightarrow> 0 < s_length s \<longrightarrow> seg_mend s * kSector \<le> length input)"
  using assms
proof (induction ss arbitrary: k packed d hashed io)
  case (Cons s ss)
  show ?case
  proof (cases "s_zeroed s")
    case True
    then show ?thesis using Cons.IH [of k "insert_sorted (s\<lparr>s_moffset := k\<rparr>) packed" d hashed io] Cons.prems by simp
  next
    case False
    let ?B = "get_bytes (s_moffset s * kSector) (s_length s * kSector) input"
    obtain r io1 where cp: "copy_loop input (s_length s * kSector) (s_moffset s * kSector) (k * kSector) (payload_image d) hashed io = (r, io1)"
      by (cases "copy_loop input (s_length s * kSector) (s_moffset s * kSector) (k * kSector) (payload_image d) hashed io")
    obtain o1 h1 where r: "r = Inr (o1, h1)" using Cons.prems(1) False cp by (cases r) auto
    note c = copy_loop_ok [OF cp [unfolded r] Cons.prems(2)]
    have fits: "0 < s_length s \<Longrightarrow> seg_mend s * kSector \<le> length input"
      using c(3) by (simp add: seg_mend_def add_mult_distrib kSector_def)
    have len: "length ?B = s_length s * kSector"
      using c(3) by (cases "s_length s = 0") (simp_all add: length_get_bytes get_bytes_def kSector_def)
    have "pack_loop input ss (k + s_length s) (insert_sorted (s\<lparr>s_moffset := k\<rparr>) packed) (payload_image (d @ ?B)) (hashed @ ?B) io1
        = (Inr (k', packed', out, hashed'), io')"
      using Cons.prems(1) False cp r c(1,2) by (simp add: Let_def)
    from Cons.IH [OF this] show ?thesis
      using Cons.prems(2) len False fits by (auto simp: add_mult_distrib)
  qed
qed simp

lemma pack_loop_succeeds:
  assumes "\<forall>s \<in> set ss. \<not> s_zeroed s \<longrightarrow> seg_mend s * kSector \<le> length input"
  shows "\<exists>r. pack_loop input ss k packed out hashed [] = (Inr r, [])"
  using assms
proof (induction ss arbitrary: k packed out hashed)
  case (Cons s ss)
  show ?case
  proof (cases "s_zeroed s")
    case False
    then have "s_moffset s * kSector + s_length s * kSector \<le> length input"
      using Cons.prems by (simp add: seg_mend_def add_mult_distrib)
    then obtain a b where "copy_loop input (s_length s * kSector) (s_moffset s * kSector) (k * kSector) out hashed [] = (Inr (a, b), [])"
      using copy_loop_succeeds by (metis surj_pair)
    then show ?thesis using Cons False by (simp add: Let_def)
  qed (use Cons in \<open>simp add: Let_def\<close>)
qed simp


lemma repack_wf: "wf_segs ss \<Longrightarrow> wf_segs (repack k ss) \<and> (\<forall>m \<in> set (repack k ss). \<exists>s \<in> set ss. s_offset m = s_offset s \<and>
    s_length m = s_length s \<and> s_tag m = s_tag s \<and> s_zeroed m = s_zeroed s)"
proof (induction ss arbitrary: k)
  case (Cons s ss)
  let ?k = "if s_zeroed s then k else k + s_length s"
  have wf: "wf_segs ss" "0 < s_length s" "\<forall>t \<in> set ss. seg_end s \<le> s_offset t" using Cons.prems by (auto simp: wf_segs_Cons)
  note IH = Cons.IH [OF wf(1), of ?k]
  have "\<forall>m \<in> set (repack ?k ss). seg_end s \<le> s_offset m" using IH wf(3) by fastforce
  then show ?case using IH wf(2) by (auto simp: wf_segs_Cons seg_end_def)
qed simp

lemma repack_bounds: "m \<in> set (repack k ss) \<Longrightarrow> k \<le> s_moffset m \<and> s_moffset m \<le> k + data_sectors ss \<and>
    (\<not> s_zeroed m \<longrightarrow> seg_mend m \<le> k + data_sectors ss)"
  by (induction ss arbitrary: k) (force simp: seg_mend_def split: if_splits)+

lemma data_sectors_le:
  assumes "wf_segs ss" "\<forall>s \<in> set ss. lo \<le> s_offset s \<and> seg_end s \<le> V" "lo \<le> V"
  shows "lo + data_sectors ss \<le> V"
  using assms
proof (induction ss arbitrary: lo)
  case (Cons s ss)
  then have "seg_end s + data_sectors ss \<le> V" by (intro Cons.IH) (auto simp: wf_segs_Cons)
  then show ?case using Cons.prems(2) by (auto simp: seg_end_def)
qed simp

lemma length_packed_bytes:
  assumes "\<forall>s \<in> set ss. \<not> s_zeroed s \<longrightarrow> seg_mend s * kSector \<le> length input"
  shows "length (packed_bytes input ss) = data_sectors ss * kSector"
  using assms by (induction ss) (auto simp: length_get_bytes seg_mend_def add_mult_distrib)

text \<open>Every sector keeps its content when its mapping moves to the packed payload.\<close>

lemma moved_sector:
  assumes "get_bytes (k * kSector) (n * kSector) f = get_bytes (p * kSector) (n * kSector) g" "j < n"
    "(k + n) * kSector \<le> length f" "(p + n) * kSector \<le> length g"
  shows "sector_bytes [f] (Some (0, Some (k + j))) = sector_bytes [g] (Some (0, Some (p + j)))"
proof -
  have sub: "get_bytes (j * kSector) kSector (get_bytes (q * kSector) (n * kSector) h) = get_bytes ((q + j) * kSector) kSector h" for q h
  proof -
    have "j * kSector + kSector \<le> n * kSector" using mult_le_mono1 [of "Suc j" n kSector] assms(2) by simp
    then show ?thesis by (simp add: get_get_bytes add_mult_distrib)
  qed
  have "(k + j + 1) * kSector \<le> length f" "(p + j + 1) * kSector \<le> length g"
    using assms(2) order_trans [OF mult_le_mono1 assms(3), of "k + j + 1"] order_trans [OF mult_le_mono1 assms(4), of "p + j + 1"]
    by simp_all
  then show ?thesis using sub [of k f] sub [of p g] assms(1) by (simp add: sector_padded)
qed

lemma repack_content:
  assumes "\<forall>s \<in> set ss. s_tag s = 0 \<and> (\<not> s_zeroed s \<longrightarrow> seg_mend s * kSector \<le> length input)"
    "get_bytes (k * kSector) (data_sectors ss * kSector) f = packed_bytes input ss"
    "(k + data_sectors ss) * kSector \<le> length f"
  shows "sector_bytes [f] (lookup (repack k ss) x) = sector_bytes [input] (lookup ss x)"
  using assms
proof (induction ss arbitrary: k)
  case (Cons s ss)
  have rest: "\<forall>s \<in> set ss. s_tag s = 0 \<and> (\<not> s_zeroed s \<longrightarrow> seg_mend s * kSector \<le> length input)" and tag: "s_tag s = 0"
    using Cons.prems(1) by auto
  have cov: "covers (s\<lparr>s_moffset := k\<rparr>) x = covers s x" by (simp add: covers_def seg_end_def)
  show ?case
  proof (cases "s_zeroed s")
    case True
    have "sector_bytes [f] (lookup (repack k ss) x) = sector_bytes [input] (lookup ss x)"
      using Cons.prems(2,3) True by (intro Cons.IH [OF rest]) simp_all
    then show ?thesis using True by (simp add: cov place_def sector_bytes_def)
  next
    case False
    let ?n = "s_length s"
    let ?A = "get_bytes (k * kSector) (?n * kSector) f" and ?B = "get_bytes (s_moffset s * kSector) (?n * kSector) input"
    have fits: "(s_moffset s + ?n) * kSector \<le> length input" using Cons.prems(1) False by (simp add: seg_mend_def)
    have lim: "(k + ?n + data_sectors ss) * kSector \<le> length f" using Cons.prems(3) False by (simp add: add.assoc)
    have fk: "(k + ?n) * kSector \<le> length f" by (rule order_trans [OF mult_le_mono1 lim]) simp
    have len: "length ?A = ?n * kSector" "length ?B = ?n * kSector"
      using fits fk by (simp_all add: length_get_bytes add_mult_distrib)
    have "(?n + data_sectors ss) * kSector = ?n * kSector + data_sectors ss * kSector" by (rule add_mult_distrib)
    then have "?A @ get_bytes ((k + ?n) * kSector) (data_sectors ss * kSector) f = ?B @ packed_bytes input ss"
      using Cons.prems(2) False get_bytes_append [of "k * kSector" "?n * kSector" "data_sectors ss * kSector" f]
      by (simp add: add_mult_distrib [of k])
    then have parts: "?A = ?B" "get_bytes ((k + ?n) * kSector) (data_sectors ss * kSector) f = packed_bytes input ss"
      using len by (metis append_eq_append_conv)+
    show ?thesis
    proof (cases "covers s x")
      case True
      then have "x - s_offset s < ?n" by (auto simp: covers_def seg_end_def)
      from moved_sector [OF parts(1) this fk fits] show ?thesis using True False tag by (simp add: cov place_def)
    next
      case False': False
      have "sector_bytes [f] (lookup (repack (k + ?n) ss) x) = sector_bytes [input] (lookup ss x)"
        using lim by (intro Cons.IH [OF rest parts(2)]) simp
      then show ?thesis using False False' by (simp add: cov)
    qed
  qed
qed (simp add: sector_bytes_def)

section \<open>The sealed file\<close>

lemma file_write_gap: "length f \<le> off \<Longrightarrow> bs \<noteq> [] \<Longrightarrow> file_write off bs f = f @ zeros (off - length f) @ bs"
  by (simp add: file_write_def)

lemma index_region_ge: "length segs * kEncodedSize \<le> index_region segs"
  unfolding index_region_def by linarith

lemma encode_index_eq: "encode_index segs = concat (map store_segment_le segs) @ zeros (index_region segs - length segs * kEncodedSize)"
  using index_region_ge [of segs] by (simp add: encode_index_def put_bytes_def length_store_segments)

lemma index_sector_ge: "k \<le> index_sector k" "index_sector k \<le> k + 7"
  unfolding index_sector_def kHeaderSectors_def by linarith+

lemma length_insert_sorted: "length (insert_sorted m v) \<le> Suc (length v)"
proof -
  let ?b = "takeWhile (\<lambda>s. s_offset s < s_offset m) v" and ?a = "dropWhile (\<lambda>s. s_offset s < s_offset m) v"
  have len: "length ?b + length ?a = length v" by (metis length_append takeWhile_dropWhile_id)
  have after: "length (case a of [] \<Rightarrow> [i] | n # rest \<Rightarrow> if joins i n then absorb i n # rest else i # n # rest) \<le> Suc (length a)" for i a
    by (cases a) simp_all
  show ?thesis
  proof (cases "?b \<noteq> [] \<and> joins (last ?b) m")
    case True
    then show ?thesis using len after [of "absorb (last ?b) m" ?a] unfolding insert_sorted_def Let_def if_P [OF True] prod.case
      by (simp only: length_append length_butlast)
  next
    case False
    then show ?thesis using len after [of m ?a] unfolding insert_sorted_def Let_def if_not_P [OF False] prod.case
      by (simp only: length_append)
  qed
qed

lemma length_fold_insert_sorted: "length (fold insert_sorted ms v) \<le> length ms + length v"
proof (induction ms arbitrary: v)
  case (Cons m ms)
  have "length (fold insert_sorted ms (insert_sorted m v)) \<le> length ms + length (insert_sorted m v)" by (rule Cons.IH)
  then show ?case using length_insert_sorted [of m v] by simp
qed simp


definition sealed_bounded :: "nat \<Rightarrow> nat \<Rightarrow> segment_mapping \<Rightarrow> bool" where
  "sealed_bounded V E m \<longleftrightarrow> s_tag m = 0 \<and> s_length m \<le> kMaxSegLen \<and> seg_end m \<le> V \<and>
     kHeaderSectors \<le> s_moffset m \<and> s_moffset m \<le> E \<and> (\<not> s_zeroed m \<longrightarrow> seg_mend m \<le> E)"

lemma sealed_bounded_joinable: "joinable (sealed_bounded V E)"
  unfolding joinable_def sealed_bounded_def using joinsD by auto

text \<open>The index of a sealed file: what packing makes of a well-formed bounded one.\<close>

lemma packed_index:
  assumes "wf_segs ss" "\<forall>s \<in> set ss. seg_bounded V E s" "packed = fold insert_sorted (repack kHeaderSectors ss) []"
  shows "wf_segs packed" "lookup packed x = lookup (repack kHeaderSectors ss) x" "length packed \<le> length ss"
    "\<forall>m \<in> set packed. sealed_bounded V (kHeaderSectors + data_sectors ss) m"
proof -
  let ?r = "repack kHeaderSectors ss"
  note wf = repack_wf [OF assms(1), of kHeaderSectors]
  have tags: "\<forall>s \<in> set (?r @ []). s_tag s = 0" using wf assms(2) by (fastforce simp: seg_bounded_def)
  have r: "\<forall>m \<in> set (?r @ []). sealed_bounded V (kHeaderSectors + data_sectors ss) m"
    using wf assms(2) repack_bounds [of _ kHeaderSectors ss] by (fastforce simp: seg_bounded_def sealed_bounded_def seg_end_def)
  note f = fold_insert_sorted_correct [of "[]" ?r "sealed_bounded V (kHeaderSectors + data_sectors ss)"]
  show "wf_segs packed" "\<forall>m \<in> set packed. sealed_bounded V (kHeaderSectors + data_sectors ss) m"
    using f wf tags r sealed_bounded_joinable assms(3) by auto
  show "lookup packed x = lookup ?r x" using f wf tags assms(3) by (auto split: option.splits)
  have "length (repack k ss) = length ss" for k by (induction ss arbitrary: k) simp_all
  then show "length packed \<le> length ss" using length_fold_insert_sorted [of ?r "[]"] assms(3) by simp
qed

lemma write_sealed_ok:
  fixes PB :: bytes
  assumes run: "write_sealed sha256 tag vsize k packed (payload_image PB) hashed io = (Inr (out, uuid, n), io')"
    and k: "k * kSector = kHeaderSectors * kSector + length PB" and tag: "length tag < 256" "cstr_ok tag"
    and sha: "\<And>b. length (sha256 b) = 32"
  defines "off \<equiv> index_sector k * kSector"
  shows "out = sealed_file (make_ht True True off (length packed) vsize uuid tag) (PB @ zeros (off - kSpace - length PB)) packed
      (zeros (index_region packed - length packed * kEncodedSize)) (make_ht False True off (length packed) vsize uuid tag)"
    "valid_uuid uuid" "n = length out"
proof -
  let ?h = "make_ht True True off (length packed) vsize uuid tag" and ?t = "make_ht False True off (length packed) vsize uuid tag"
  have uuid: "uuid = uuid_from_content_digest (final_hex (sha256 (hashed @ take (length packed * 16) (encode_index packed))))"
    using run by (auto simp: write_sealed_def Let_def split: sum.splits prod.splits option.splits)
  show v: "valid_uuid uuid" unfolding uuid by (rule content_uuid_valid [OF sha])
  have hts: "ht_ok ?h" "ht_ok ?t" "serialize_ht ?h = Inr (ht_fields ?h)" "serialize_ht ?t = Inr (ht_fields ?t)"
    using make_ht_facts [OF _ _ tag] valid_uuid_cstr [OF v] by auto
  have len: "length (ht_fields ?h) = kSpace" "length (ht_fields ?t) = kSpace" using hts(1,2) by (simp_all add: length_header)
  have none: "write_all bs o' f i = (None, f', i') \<Longrightarrow> f' = file_write o' bs f" for bs o' f i f' i'
    by (auto simp: write_all_def split: outcome.splits)
  have out: "out = file_write (off + index_region packed) (ht_fields ?t) (file_write off (encode_index packed)
      (file_write 0 (ht_fields ?h) (payload_image PB)))" and n: "n = off + index_region packed + 4096"
    using run unfolding write_sealed_def Let_def uuid [symmetric] off_def [symmetric] hts(3,4) sum.case
    by (auto dest!: none split: prod.splits option.splits)
  have sp: "kHeaderSectors * kSector = kSpace" by (simp add: kHeaderSectors_def kSector_def kSpace_def)
  have ge: "kSpace + length PB \<le> off"
    using mult_le_mono1 [OF index_sector_ge(1) [of k], of kSector] k sp unfolding off_def by simp
  have ne: "ht_fields ?h \<noteq> []" "ht_fields ?t \<noteq> []" using len by (auto simp: kSpace_def)
  have "file_write 0 (ht_fields ?h) (payload_image PB) = ht_fields ?h @ PB"
    using len(1) sp ne by (cases "PB = []") (simp_all add: file_write_def payload_image_def kSpace_def split: if_splits)
  moreover have "file_write off (encode_index packed) (ht_fields ?h @ PB) = ht_fields ?h @ PB @
      (if encode_index packed = [] then [] else zeros (off - kSpace - length PB) @ encode_index packed)"
    using len(1) ge by (simp add: file_write_def)
  moreover have "length (encode_index packed) = index_region packed"
    using index_region_ge [of packed] by (simp add: encode_index_eq length_store_segments)
  ultimately have out': "out = ht_fields ?h @ PB @ zeros (off - kSpace - length PB) @ encode_index packed @ ht_fields ?t"
    unfolding out using len ge ne by (cases "encode_index packed = []") (simp_all add: file_write_def kSpace_def)
  then show "out = sealed_file ?h (PB @ zeros (off - kSpace - length PB)) packed
      (zeros (index_region packed - length packed * kEncodedSize)) ?t"
    by (simp add: sealed_file_def encode_index_eq)
  show "n = length out" using out' n len ge \<open>length (encode_index packed) = index_region packed\<close> by (simp add: kSpace_def)
qed


lemma check_segments_id: "\<forall>s \<in> set v. f s = Inr s \<Longrightarrow> check_segments f v = Inr v"
  by (induction v) auto

lemma sealed_layer_opens:
  fixes vsize :: nat
  assumes wf: "wf_segs packed" and bounded: "\<forall>m \<in> set packed. sealed_bounded V E m" and V: "V \<le> kMaxOffset"
    and count: "length packed \<le> kMaxRoIndexSize" and E: "E \<le> kHeaderSectors + V"
    and data: "kSpace + length data = index_sector E * kSector"
    and strings: "valid_uuid uuid" "length tag < 256" "cstr_ok tag" and fault: "\<And>n k. fault n k = None"
  defines "h \<equiv> make_ht True True (index_sector E * kSector) (length packed) vsize uuid tag"
    and "t \<equiv> make_ht False True (index_sector E * kSector) (length packed) vsize uuid tag"
  shows "\<exists>l. layer_open (Some (local_file (sealed_file h data packed pad t) fault)) = Inr l \<and>
    l_segments l = packed \<and> l_ht l = t"
proof -
  have u: "length uuid < 37" "cstr_ok uuid" using valid_uuid_cstr [OF strings(1)] by auto
  note hts = make_ht_facts [OF u strings(2,3)]
  have lim: "index_sector E * kSector < U64"
    using index_sector_ge(2) [of E] E V by (simp add: U64_def kSector_def kHeaderSectors_def kMaxOffset_def)
  have cnt: "length packed < U64" using count by (simp add: U64_def kMaxRoIndexSize_def)
  have t: "unat (ht_index_offset t) = kSpace + length data" "unat (ht_index_size t) = length packed"
    using lim cnt data by (simp_all add: t_def make_ht_def Let_def unat_of_u64 del: of_nat_mult)
  have segs: "\<forall>s \<in> set packed. seg_fits s \<and> s_offset s \<noteq> kInvalidOffset"
    using bounded wf V E by (fastforce simp: sealed_bounded_def seg_fits_def seg_end_def wf_segs_def kInvalidOffset_def kMaxSegLen_def
      kHeaderSectors_def kMaxOffset_def kMaxMoffset_def)
  have mend: "(kSpace + length data) div kAlignment = index_sector E"
    unfolding data by (simp add: kSector_def kAlignment_def)
  have tags: "map (\<lambda>s. s\<lparr>s_tag := 0\<rparr>) packed = packed"
    using bounded by (intro map_idI) (simp add: sealed_bounded_def)
  have "\<forall>s \<in> set packed. moffset_ok False (index_sector E) s"
  proof
    fix s
    assume "s \<in> set packed"
    then have "sealed_bounded V E s" "0 < s_length s" using bounded wf by (auto simp: wf_segs_def)
    then show "moffset_ok False (index_sector E) s"
      using index_sector_ge(1) [of E] by (auto simp: sealed_bounded_def moffset_ok_def seg_mend_def kDataStartSector_def kHeaderSectors_def
        kSpace_def kAlignment_def)
  qed
  then have chk: "check_segments (check_segment False None (min_tag packed) (unat (ht_virtual_size t)) (index_sector E)) packed = Inr packed"
    by (intro check_segments_id) (simp add: check_segment_def)
  have w: "warp_layout n None v = Inr None" for n v by (simp add: warp_layout_def)
  have ord: "ordered packed" using wf by (simp add: ordered_sorted wf_segs_def)
  have "t\<lparr>ht_index_size := of_nat (length packed)\<rparr> = t" by (simp add: t_def make_ht_def Let_def)
  moreover have "\<exists>l. open_impl (Some (local_file (sealed_file h data packed pad t) fault)) None = Inr l \<and>
      l_segments l = packed \<and> l_ht l = t\<lparr>ht_index_size := of_nat (length packed)\<rparr> \<and>
      l_src l = (case None of None \<Rightarrow> local_file (sealed_file h data packed pad t) fault
        | Some w \<Rightarrow> warp_source (local_file (sealed_file h data packed pad t) fault) w
                      (warp_base (length (sealed_file h data packed pad t))))"
    using hts t count segs ord fault w chk tags mend
    by (intro open_sealed_file [where tgt = None]) (simp_all add: h_def t_def)
  ultimately show ?thesis by (auto simp: layer_open_def)
qed

lemma seal_body_published:
  assumes run: "seal_body sha256 tag st io = (res, st', io')" and new: "\<not> (st' = st \<and> res \<noteq> None)"
  obtains io1 k packed out hashed io2 out' uuid n io3 where
    "pack_loop (rw_file st) (rw_segments st) kHeaderSectors [] [] (store_u64_le (of_nat (rw_vsize st))) io1 = (Inr (k, packed, out, hashed), io2)"
    "write_sealed sha256 tag (rw_vsize st) k packed out hashed io2 = (Inr (out', uuid, n), io3)"
    "st' = (mappings_changed (st\<lparr>rw_uuid := uuid\<rparr>))\<lparr>rw_segments := packed, rw_data_bytes := n, rw_file := out', rw_sealed := True\<rparr>"
proof -
  have op: "\<not> \<not> rw_open st" using run new by (auto simp: seal_body_def split: if_splits)
  obtain a io1 where a: "sys_call io = (a, io1)" by (cases "sys_call io")
  note run = run [unfolded seal_body_def if_not_P [OF op] a prod.case]
  have a': "a = None" using run new by (cases a) auto
  obtain r io2 where r: "pack_loop (rw_file st) (rw_segments st) kHeaderSectors [] [] (store_u64_le (of_nat (rw_vsize st))) io1 = (r, io2)"
    by (cases "pack_loop (rw_file st) (rw_segments st) kHeaderSectors [] [] (store_u64_le (of_nat (rw_vsize st))) io1")
  note run = run [unfolded a' option.case r prod.case]
  obtain k packed out hashed where r': "r = Inr (k, packed, out, hashed)" using run new by (cases r) auto
  obtain w io3 where w: "write_sealed sha256 tag (rw_vsize st) k packed out hashed io2 = (w, io3)"
    by (cases "write_sealed sha256 tag (rw_vsize st) k packed out hashed io2")
  note run = run [unfolded r' sum.case prod.case w]
  obtain out' uuid n where w': "w = Inr (out', uuid, n)" using run new by (cases w) auto
  obtain b io4 where b: "sys_call io3 = (b, io4)" by (cases "sys_call io3")
  note run = run [unfolded w' sum.case prod.case b]
  have b': "b = None" using run new by (cases b) auto
  obtain c io5 where c: "sync_parent io4 = (c, io5)" by (cases "sync_parent io4")
  note run = run [unfolded b' option.case c prod.case]
  show thesis using that [OF r [unfolded r'] w [unfolded w']] run by simp
qed

lemma seal_body_ok:
  assumes inv: "rw_inv st" and tag: "length tag < 256" "cstr_ok tag" and sha: "\<And>b. length (sha256 b) = 32"
    and count: "length (rw_segments st) \<le> kMaxRoIndexSize" and fault: "\<And>n k. fault n k = None"
    and run: "seal_body sha256 tag st io = (res, st', io')"
  shows "st' = st \<and> res \<noteq> None \<or>
    rw_sealed st' \<and> rw_vsize st' = rw_vsize st \<and> rw_terminal_op st' = rw_terminal_op st \<and> valid_uuid (rw_uuid st') \<and>
    rw_data_bytes st' = length (rw_file st') \<and>
    (\<forall>x. rw_sector st' x = rw_sector st x) \<and>
    (\<exists>l. layer_open (Some (local_file (rw_file st') fault)) = Inr l \<and> l_segments l = rw_segments st' \<and>
       ht_virtual_size (l_ht l) = of_nat (rw_vsize st) \<and> ht_uuid (l_ht l) = rw_uuid st' \<and> ht_user_tag (l_ht l) = tag)"
proof (cases "st' = st \<and> res \<noteq> None")
  case False
  obtain io1 k packed out hashed io2 out' uuid n io3 where
    pk: "pack_loop (rw_file st) (rw_segments st) kHeaderSectors [] [] (store_u64_le (of_nat (rw_vsize st))) io1 = (Inr (k, packed, out, hashed), io2)"
    and ws: "write_sealed sha256 tag (rw_vsize st) k packed out hashed io2 = (Inr (out', uuid, n), io3)"
    and st': "st' = (mappings_changed (st\<lparr>rw_uuid := uuid\<rparr>))\<lparr>rw_segments := packed, rw_data_bytes := n, rw_file := out', rw_sealed := True\<rparr>"
    using seal_body_published [OF run False] by metis
  have wf: "wf_segs (rw_segments st)" and bd: "\<forall>s \<in> set (rw_segments st). seg_bounded (rw_sectors st) (rw_data_end st) s"
    and V: "rw_sectors st \<le> kMaxOffset" using inv by (auto simp: rw_inv_def)
  let ?PB = "packed_bytes (rw_file st) (rw_segments st)" and ?D = "data_sectors (rw_segments st)"
  have p: "out = payload_image ?PB" "packed = fold insert_sorted (repack kHeaderSectors (rw_segments st)) []" "k = kHeaderSectors + ?D"
    "\<forall>s \<in> set (rw_segments st). \<not> s_zeroed s \<longrightarrow> seg_mend s * kSector \<le> length (rw_file st)"
    using pack_loop_ok [of "rw_file st" "rw_segments st" kHeaderSectors "[]" "[]"] pk wf_segs_pos [OF wf] by (auto simp: payload_image_def)
  have len: "length ?PB = ?D * kSector" by (rule length_packed_bytes [OF p(4)])
  have k: "k * kSector = kHeaderSectors * kSector + length ?PB" by (simp add: p(3) len add_mult_distrib)
  have sp: "kHeaderSectors * kSector = kSpace" by (simp add: kHeaderSectors_def kSector_def kSpace_def)
  note w = write_sealed_ok [OF ws [unfolded p(1)] k tag sha]
  note ix = packed_index [OF wf bd p(2), folded p(3)]
  have D: "0 + ?D \<le> rw_sectors st" using wf bd by (intro data_sectors_le) (auto simp: seg_bounded_def)
  let ?off = "index_sector k * kSector"
  have off: "kSpace + length ?PB \<le> ?off" using mult_le_mono1 [OF index_sector_ge(1) [of k], of kSector] k sp by simp
  let ?h = "make_ht True True ?off (length packed) (rw_vsize st) uuid tag"
    and ?t = "make_ht False True ?off (length packed) (rw_vsize st) uuid tag"
  have opens: "\<exists>l. layer_open (Some (local_file out' fault)) = Inr l \<and> l_segments l = packed \<and> l_ht l = ?t"
    unfolding w(1) using off D p(3) count ix(3)
    by (intro sealed_layer_opens [OF ix(1,4) V _ _ _ w(2) tag fault]) simp_all
  have u: "length uuid < 37" "cstr_ok uuid" using valid_uuid_cstr [OF w(2)] by auto
  have hlen: "length (ht_fields ?h) = kSpace" using make_ht_facts(1) [OF u tag] by (simp add: length_header)
  have "get_bytes (kHeaderSectors * kSector) (?D * kSector) out' = ?PB"
    unfolding w(1) sealed_file_def sp using hlen len by (simp add: get_bytes_def)
  moreover have "(kHeaderSectors + ?D) * kSector \<le> length out'"
    unfolding w(1) sealed_file_def add_mult_distrib sp using hlen len by simp
  moreover have "\<forall>s \<in> set (rw_segments st). s_tag s = 0 \<and> (\<not> s_zeroed s \<longrightarrow> seg_mend s * kSector \<le> length (rw_file st))"
    using p(4) bd by (auto simp: seg_bounded_def)
  ultimately have "sector_bytes [out'] (lookup packed x) = sector_bytes [rw_file st] (lookup (rw_segments st) x)" for x
    unfolding ix(2) by (intro repack_content) auto
  moreover have "ht_virtual_size ?t = of_nat (rw_vsize st)" "ht_uuid ?t = uuid" "ht_user_tag ?t = tag"
    by (simp_all add: make_ht_def Let_def)
  ultimately show ?thesis using opens w(2,3) by (auto simp: st' rw_sector_def mappings_changed_def)
qed simp


lemma write_sealed_succeeds:
  assumes "length tag < 256" "cstr_ok tag" "\<And>b. length (sha256 b) = 32"
  shows "\<exists>r. write_sealed sha256 tag vsize k packed out hashed [] = (Inr r, [])"
proof -
  let ?u = "uuid_from_content_digest (final_hex (sha256 (hashed @ take (length packed * 16) (encode_index packed))))"
  have "length ?u < 37" "cstr_ok ?u" using valid_uuid_cstr [OF content_uuid_valid [OF assms(3)]] by auto
  from make_ht_facts(7) [OF this assms(1,2)] show ?thesis by (simp add: write_sealed_def Let_def)
qed

lemma seal_body_succeeds:
  assumes inv: "rw_inv st" and tag: "length tag < 256" "cstr_ok tag" and sha: "\<And>b. length (sha256 b) = 32" and op: "rw_open st"
  shows "\<exists>st'. seal_body sha256 tag st [] = (None, st', [])"
proof -
  have "seg_mend s * kSector \<le> length (rw_file st)" if s: "s \<in> set (rw_segments st)" "\<not> s_zeroed s" for s
  proof -
    have len: "0 < s_length s" using inv s by (auto simp: rw_inv_def wf_segs_def)
    then have "covers s (seg_end s - 1)" by (auto simp: covers_def seg_end_def)
    then have "lookup (rw_segments st) (seg_end s - 1) = Some (s_tag s, place s (seg_end s - 1))"
      using inv s lookup_memI by (auto simp: rw_inv_def)
    then have "(s_moffset s + (seg_end s - 1 - s_offset s) + 1) * kSector \<le> length (rw_file st)"
      using inv s(2) by (fastforce simp: rw_inv_def place_def)
    moreover have "s_moffset s + (seg_end s - 1 - s_offset s) + 1 = seg_mend s" using len s(2) by (simp add: seg_end_def seg_mend_def)
    ultimately show ?thesis by metis
  qed
  then have "\<exists>r. pack_loop (rw_file st) (rw_segments st) kHeaderSectors [] [] (store_u64_le (of_nat (rw_vsize st))) [] = (Inr r, [])"
    by (intro pack_loop_succeeds) blast
  then obtain k packed out hashed where
    "pack_loop (rw_file st) (rw_segments st) kHeaderSectors [] [] (store_u64_le (of_nat (rw_vsize st))) [] = (Inr (k, packed, out, hashed), [])"
    by (auto simp: split_paired_Ex)
  moreover have "\<exists>r. write_sealed sha256 tag (rw_vsize st) k packed out hashed [] = (Inr r, [])"
    by (rule write_sealed_succeeds [OF tag sha])
  then obtain out' uuid n where "write_sealed sha256 tag (rw_vsize st) k packed out hashed [] = (Inr (out', uuid, n), [])"
    by (auto simp: split_paired_Ex)
  ultimately show ?thesis using op by (simp add: seal_body_def sync_parent_def)
qed

lemma rw_seal_spec:
  assumes inv: "rw_inv st" and fresh: "\<not> rw_sealed st" and tag: "length tag < 256" "cstr_ok tag"
    and sha: "\<And>b. length (sha256 b) = 32" and count: "length (rw_segments st) \<le> kMaxRoIndexSize"
    and fault: "\<And>n k. fault n k = None" and run: "rw_seal sha256 tag st io = (res, st', io')"
  shows "(\<not> rw_sealed st' \<longrightarrow> st' = st \<and> res \<noteq> None) \<and>
    (rw_sealed st' \<longrightarrow> rw_vsize st' = rw_vsize st \<and> valid_uuid (rw_uuid st') \<and>
      (\<forall>x. rw_sector st' x = rw_sector st x) \<and>
      (\<exists>l. layer_open (Some (local_file (rw_file st') fault)) = Inr l \<and>
         ht_virtual_size (l_ht l) = of_nat (rw_vsize st) \<and> ht_uuid (l_ht l) = rw_uuid st' \<and> ht_user_tag (l_ht l) = tag \<and>
         (\<forall>x. sector_bytes [rw_file st'] (lookup (l_segments l) x) = rw_sector st x))) \<and>
    (io = [] \<longrightarrow> rw_open st \<longrightarrow> \<not> rw_journal_failed st \<longrightarrow> \<not> rw_terminal_op st \<longrightarrow> \<not> rw_grow_op st \<longrightarrow>
      res = None \<and> rw_sealed st')"
proof (cases "rw_journal_failed st \<or> rw_terminal_op st \<or> rw_grow_op st")
  case True
  then show ?thesis using run fresh by (auto simp: rw_seal_def begin_terminal_op_def split: if_splits)
next
  case False
  let ?st = "st\<lparr>rw_terminal_op := True\<rparr>"
  obtain r s1 io1 where body: "seal_body sha256 tag ?st io = (r, s1, io1)" by (cases "seal_body sha256 tag ?st io")
  have res: "res = r" "st' = end_terminal_op s1" using run False fresh body by (auto simp: rw_seal_def begin_terminal_op_def)
  have inv': "rw_inv ?st" and sec: "rw_sector ?st x = rw_sector st x" for x
    using inv by (simp_all add: rw_inv_def rw_sectors_def rw_sector_def)
  have same: "end_terminal_op ?st = st" using False by (simp add: end_terminal_op_def)
  have ends: "rw_sealed st' = rw_sealed s1" "rw_vsize st' = rw_vsize s1" "rw_uuid st' = rw_uuid s1" "rw_file st' = rw_file s1"
    "rw_segments st' = rw_segments s1" "rw_sector st' x = rw_sector s1 x" for x
    by (simp_all add: res end_terminal_op_def rw_sector_def)
  have "\<exists>st'. seal_body sha256 tag ?st [] = (None, st', [])" if "rw_open st"
    using that by (intro seal_body_succeeds [OF inv' tag sha]) simp
  then have ok: "io = [] \<longrightarrow> rw_open st \<longrightarrow> res = None" using body res by auto
  have count': "length (rw_segments ?st) \<le> kMaxRoIndexSize" using count by simp
  from seal_body_ok [where fault = fault, OF inv' tag sha count' fault body] show ?thesis
  proof (elim disjE conjE exE)
    assume "s1 = ?st" "r \<noteq> None"
    then show ?thesis using same res fresh ok by auto
  next
    fix l
    assume "rw_sealed s1" "rw_vsize s1 = rw_vsize ?st" "valid_uuid (rw_uuid s1)" "\<forall>x. rw_sector s1 x = rw_sector ?st x"
      "layer_open (Some (local_file (rw_file s1) fault)) = Inr l" "l_segments l = rw_segments s1"
      "ht_virtual_size (l_ht l) = of_nat (rw_vsize ?st)" "ht_uuid (l_ht l) = rw_uuid s1" "ht_user_tag (l_ht l) = tag"
    then show ?thesis using ok ends sec by (auto simp: rw_sector_def)
  qed
qed


text \<open>C4: Sealing.  Whatever system call fails, a layer that \<open>seal\<close> does not leave sealed is exactly the layer of before.
  A layer it leaves sealed is published: its file opens with \<open>LsmtLayer::open\<close> at the size of the layer, with the given
  tag and a well-formed content-derived uuid, and resolves every sector to the bytes the writable layer showed.  Without
  I/O errors an open, unsealed layer with no other terminal operation under way is sealed.\<close>

theorem rw_seal_correct:
  assumes inv: "rw_inv st" and fresh: "\<not> rw_sealed st" and tag: "length tag < 256" "cstr_ok tag"
    and sha: "\<And>b. length (sha256 b) = 32" and count: "length (rw_segments st) \<le> kMaxRoIndexSize"
    and fault: "\<And>n k. fault n k = None" and run: "rw_seal sha256 tag st io = (res, st', io')"
  shows "(\<not> rw_sealed st' \<longrightarrow> st' = st \<and> res \<noteq> None) \<and>
    (rw_sealed st' \<longrightarrow> rw_vsize st' = rw_vsize st \<and> valid_uuid (rw_uuid st') \<and>
      (\<forall>x. rw_sector st' x = rw_sector st x) \<and>
      (\<exists>l. layer_open (Some (local_file (rw_file st') fault)) = Inr l \<and>
         ht_virtual_size (l_ht l) = of_nat (rw_vsize st) \<and> ht_uuid (l_ht l) = rw_uuid st' \<and> ht_user_tag (l_ht l) = tag \<and>
         (\<forall>x. sector_bytes [rw_file st'] (lookup (l_segments l) x) = rw_sector st x))) \<and>
    (io = [] \<longrightarrow> rw_open st \<longrightarrow> \<not> rw_journal_failed st \<longrightarrow> \<not> rw_terminal_op st \<longrightarrow> \<not> rw_grow_op st \<longrightarrow>
      res = None \<and> rw_sealed st')"
  using assms by (rule rw_seal_spec)

text \<open>C24: An empty layer.  \<open>create_empty_lsmt_layer\<close> publishes a file only for a positive multiple of the sector size.  The file it
  publishes opens as a layer of that size that maps no sector, and its bytes depend on the size and the tag alone,
  whatever the script of outcomes was.\<close>

theorem create_empty_opens:
  assumes tag: "length tag < 256" "cstr_ok tag" and sha: "\<And>b. length (sha256 b) = 32" and vsize: "vsize < U64"
    and fault: "\<And>n k. fault n k = None" and run: "create_empty_lsmt_layer sha256 vsize tag io = (Inr f, io')"
  shows "0 < vsize \<and> vsize mod kSector = 0 \<and> length f = 2 * kSpace \<and>
    create_empty_lsmt_layer sha256 vsize tag [] = (Inr f, []) \<and>
    (\<exists>l. layer_open (Some (local_file f fault)) = Inr l \<and> l_segments l = [] \<and> unat (ht_virtual_size (l_ht l)) = vsize)"
proof -
  define uuid where "uuid = uuid_from_content_digest (final_hex (sha256 (store_u64_le (of_nat vsize))))"
  have v: "valid_uuid uuid" unfolding uuid_def by (rule content_uuid_valid [OF sha])
  have u: "length uuid < 37" "cstr_ok uuid" using valid_uuid_cstr [OF v] by auto
  note hts = make_ht_facts [OF u tag]
  define h where "h = make_ht True True (kHeaderSectors * kSector) 0 vsize uuid tag"
  define t where "t = make_ht False True (kHeaderSectors * kSector) 0 vsize uuid tag"
  have ser: "serialize_ht h = Inr (ht_fields h)" "serialize_ht t = Inr (ht_fields t)" using hts(7) by (simp_all add: h_def t_def)
  have len: "length (ht_fields h) = kSpace" "length (ht_fields t) = kSpace" using hts(1) by (simp_all add: h_def t_def length_header)
  have sp: "kHeaderSectors * kSector = kSpace" by (simp add: kHeaderSectors_def kSector_def kSpace_def)
  have none: "write_all bs off g i = (None, g', i') \<Longrightarrow> g' = file_write off bs g" for bs off g i g' i'
    by (auto simp: write_all_def split: outcome.splits)
  have w: "file_write 0 (ht_fields h) [] = ht_fields h" "file_write kSpace (ht_fields t) (ht_fields h) = ht_fields h @ ht_fields t"
    using len by (auto simp: file_write_def)
  have pos: "\<not> (vsize = 0 \<or> vsize mod kSector \<noteq> 0)"
    using run by (auto simp: create_empty_lsmt_layer_def split: if_splits)
  have f: "f = ht_fields h @ ht_fields t"
    using run w unfolding create_empty_lsmt_layer_def uuid_def [symmetric] Let_def h_def [symmetric] t_def [symmetric] ser sum.case if_not_P [OF pos]
    by (auto simp: sp dest!: none split: prod.splits option.splits)
  have again: "create_empty_lsmt_layer sha256 vsize tag [] = (Inr f, [])"
    unfolding create_empty_lsmt_layer_def uuid_def [symmetric] Let_def h_def [symmetric] t_def [symmetric] ser sum.case if_not_P [OF pos]
    by (simp add: f w sp)
  have "index_sector kHeaderSectors = kHeaderSectors" by (simp add: index_sector_def kHeaderSectors_def)
  then have "\<exists>l. layer_open (Some (local_file (sealed_file h [] [] [] t) fault)) = Inr l \<and> l_segments l = [] \<and> l_ht l = t"
    using sealed_layer_opens [where V = 0 and E = kHeaderSectors and packed = "[]" and data = "[]" and vsize = vsize and pad = "[]",
      OF _ _ _ _ _ _ v tag fault] by (simp add: h_def t_def sp)
  moreover have "sealed_file h [] [] [] t = f" by (simp add: sealed_file_def f)
  moreover have "unat (ht_virtual_size t) = vsize" using vsize by (simp add: t_def make_ht_def Let_def unat_of_u64)
  ultimately show ?thesis using pos again f len by auto
qed


definition sample_full_rw :: LsmtRw where
  "sample_full_rw = sample_rw\<lparr>rw_file := zeros 4096 @ replicate 512 7, rw_data_bytes := 4608, rw_data_end := 9, rw_pair := None,
     rw_segments := [\<lparr>s_offset = 1, s_length = 1, s_moffset = 8, s_zeroed = False, s_tag = 0\<rparr>]\<rparr>"

lemma sample_full_rw_inv: "rw_inv sample_full_rw"
  by (auto simp: rw_inv_def sample_full_rw_def sample_rw_def owns_once_def rw_sectors_def kSector_def kHeaderSectors_def
      kMaxOffset_def seg_bounded_def seg_end_def seg_mend_def kMaxSegLen_def kMaxLength_def covers_def place_def split: if_splits)

theorem rw_seal_correct_witness:
  "\<exists>st' l. rw_seal (\<lambda>b. zeros 32) [] sample_full_rw [] = (None, st', []) \<and> rw_sealed st' \<and>
     layer_open (Some (local_file (rw_file st') (\<lambda>_ _. None))) = Inr l \<and>
     sector_bytes [rw_file st'] (lookup (l_segments l) 1) = replicate 512 7"
proof -
  obtain res st' io' where run: "rw_seal (\<lambda>b. zeros 32) [] sample_full_rw [] = (res, st', io')"
    by (cases "rw_seal (\<lambda>b. zeros 32) [] sample_full_rw []")
  have flags: "\<not> rw_sealed sample_full_rw" "rw_open sample_full_rw" "\<not> rw_journal_failed sample_full_rw"
    "\<not> rw_terminal_op sample_full_rw" "\<not> rw_grow_op sample_full_rw" "length (rw_segments sample_full_rw) \<le> kMaxRoIndexSize"
    by (simp_all add: sample_full_rw_def sample_rw_def kMaxRoIndexSize_def)
  have strings: "length ([] :: bytes) < 256" "cstr_ok []" by (simp_all add: cstr_ok_def)
  have one: "rw_sector sample_full_rw 1 = replicate 512 7"
  proof -
    have "sector_bytes [zeros 4096 @ replicate 512 7] (Some (0, Some 8)) = replicate 512 7"
      by (subst sector_padded) (simp_all add: kSector_def get_bytes_def)
    then show ?thesis by (simp add: rw_sector_def sample_full_rw_def sample_rw_def covers_def seg_end_def place_def)
  qed
  from rw_seal_correct [where fault = "\<lambda>_ _. None", OF sample_full_rw_inv flags(1) strings _ flags(6) _ run] flags one
  have "res = None" "rw_sealed st'" "\<exists>l. layer_open (Some (local_file (rw_file st') (\<lambda>_ _. None))) = Inr l \<and>
     sector_bytes [rw_file st'] (lookup (l_segments l) 1) = replicate 512 7" by auto
  moreover have "io' = []"
  proof -
    have "rw_inv (sample_full_rw\<lparr>rw_terminal_op := True\<rparr>)" using sample_full_rw_inv by (simp add: rw_inv_def rw_sectors_def)
    from seal_body_succeeds [of _ _ "\<lambda>b. zeros 32", OF this strings] flags run show ?thesis
      by (auto simp: rw_seal_def begin_terminal_op_def)
  qed
  ultimately show ?thesis using run by auto
qed

theorem create_empty_opens_witness:
  "\<exists>f. create_empty_lsmt_layer (\<lambda>b. zeros 32) 4096 [] [] = (Inr f, []) \<and> length f = 8192 \<and>
     (\<exists>l. layer_open (Some (local_file f (\<lambda>_ _. None))) = Inr l \<and> l_segments l = [])"
proof -
  have strings: "length ([] :: bytes) < 256" "cstr_ok []" by (simp_all add: cstr_ok_def)
  let ?u = "uuid_from_content_digest (final_hex (zeros 32))"
  have "length ?u < 37" "cstr_ok ?u" using valid_uuid_cstr [OF content_uuid_valid [of "zeros 32"]] by auto
  from make_ht_facts(7) [OF this strings] obtain f where f: "create_empty_lsmt_layer (\<lambda>b. zeros 32) 4096 [] [] = (Inr f, [])"
    by (simp add: create_empty_lsmt_layer_def Let_def kSector_def)
  from create_empty_opens [where fault = "\<lambda>_ _. None", OF strings _ _ _ f] f show ?thesis
    by (auto simp: U64_def kSpace_def)
qed

section \<open>The life cycle as a state machine\<close>

text \<open>One call of an operation, under any script of I/O outcomes.\<close>

inductive rw_step :: "(bytes \<Rightarrow> bytes) \<Rightarrow> LsmtRw \<Rightarrow> LsmtRw \<Rightarrow> bool" for sha256 where
  step_pwrite: "rw_pwrite src offset st io = (r, st', io') \<Longrightarrow> rw_step sha256 st st'"
| step_discard: "rw_discard offset len st io = (e, st', io') \<Longrightarrow> rw_step sha256 st st'"
| step_grow: "rw_grow vsize st io = (e, st', io') \<Longrightarrow> rw_step sha256 st st'"
| step_checkpoint: "rw_checkpoint st io = (e, st', io') \<Longrightarrow> rw_step sha256 st st'"
| step_seal: "length tag < 256 \<Longrightarrow> cstr_ok tag \<Longrightarrow> rw_seal sha256 tag st io = (e, st', io') \<Longrightarrow> rw_step sha256 st st'"

inductive_cases rw_stepE: "rw_step sha256 st st'"

lemma sealed_step: "rw_step sha256 st st' \<Longrightarrow> rw_sealed st \<Longrightarrow> st' = st"
  by (erule rw_stepE) (auto simp: rw_pwrite_def rw_discard_def rw_grow_def begin_grow_op_def rw_checkpoint_def
      begin_terminal_op_def rw_seal_def Let_def split: if_splits)

lemma checkpointed_step:
  assumes "rw_step sha256 st st'" "rw_checkpointed st" "\<not> rw_sealed st" "rw_inv st" "length (rw_segments st) \<le> kMaxRoIndexSize"
    "\<And>b. length (sha256 b) = 32"
  shows "st' = st \<or> rw_sealed st' \<and> rw_vsize st' = rw_vsize st \<and> (\<forall>x. rw_sector st' x = rw_sector st x)"
  using assms(1)
proof (cases rule: rw_step.cases)
  case (step_seal tag io e io1)
  from rw_seal_spec [where fault = "\<lambda>_ _. None", OF assms(4,3) step_seal(1,2) assms(6,5) _ step_seal(3)] show ?thesis by blast
qed (use assms in \<open>auto simp: rw_pwrite_def rw_discard_def rw_grow_def begin_grow_op_def rw_checkpoint_def
      begin_terminal_op_def Let_def split: if_splits\<close>)

text \<open>C5: Terminal states.  From a checkpointed layer, whatever operations are called in whatever order and however their
  I/O fails, the layer either stays exactly as it is or has been sealed, and the content of every sector and the size stay
  what they were at the checkpoint; a sealed layer never changes again.\<close>

theorem terminal_frozen:
  assumes steps: "(rw_step sha256)\<^sup>*\<^sup>* st st'" and inv: "rw_inv st" and final: "rw_checkpointed st \<or> rw_sealed st"
    and count: "length (rw_segments st) \<le> kMaxRoIndexSize" and sha: "\<And>b. length (sha256 b) = 32"
  shows "(st' = st \<or> \<not> rw_sealed st \<and> rw_sealed st') \<and> rw_vsize st' = rw_vsize st \<and>
    (\<forall>x. rw_sector st' x = rw_sector st x)"
  using steps
proof (induction rule: rtranclp_induct)
  case (step y z)
  then show ?case using sealed_step [OF step(2)] checkpointed_step [OF step(2)] inv final count sha by metis
qed simp


theorem terminal_frozen_witness:
  "\<exists>st'. (rw_step (\<lambda>b. zeros 32))\<^sup>*\<^sup>* (sample_full_rw\<lparr>rw_checkpointed := True\<rparr>) st' \<and> rw_sealed st' \<and>
     rw_vsize st' = 4096 \<and> rw_sector st' 1 = rw_sector sample_full_rw 1"
proof -
  let ?st = "sample_full_rw\<lparr>rw_checkpointed := True\<rparr>"
  have inv: "rw_inv ?st" using sample_full_rw_inv by (simp add: rw_inv_def rw_sectors_def)
  have strings: "length ([] :: bytes) < 256" "cstr_ok []" by (simp_all add: cstr_ok_def)
  have flags: "\<not> rw_sealed ?st" "rw_open ?st" "\<not> rw_journal_failed ?st" "\<not> rw_terminal_op ?st" "\<not> rw_grow_op ?st"
    "length (rw_segments ?st) \<le> kMaxRoIndexSize" "rw_vsize ?st = 4096"
    by (simp_all add: sample_full_rw_def sample_rw_def kMaxRoIndexSize_def)
  obtain res st' io' where run: "rw_seal (\<lambda>b. zeros 32) [] ?st [] = (res, st', io')"
    by (cases "rw_seal (\<lambda>b. zeros 32) [] ?st []")
  have sealed: "rw_sealed st'"
    using rw_seal_spec [where fault = "\<lambda>_ _. None", OF inv flags(1) strings _ flags(6) _ run] flags by auto
  have steps: "(rw_step (\<lambda>b. zeros 32))\<^sup>*\<^sup>* ?st st'" using step_seal [OF strings run] by blast
  from terminal_frozen [OF steps inv _ flags(6)] steps sealed flags(7) show ?thesis
    by (intro exI [of _ st']) (auto simp: rw_sector_def)
qed

section \<open>Opening from a pair, the payload view, offline sealing\<close>

definition from_pair :: "bytes \<Rightarrow> FilePair \<Rightarrow> script \<Rightarrow> LsmtRw result \<times> script" where
  "from_pair data fp io = (case sys_call io of
     (Some e, io) \<Rightarrow> (Inl e, io)
   | (None, io) \<Rightarrow>
       (Inr \<lparr>rw_file = data, rw_open = True, rw_data_bytes = fp_data_bytes fp,
             rw_vsize = unat (ht_virtual_size (fp_header fp)), rw_data_end = fp_data_bytes fp div kSector,
             rw_uuid = ht_uuid (fp_header fp), rw_pair = Some fp, rw_journal_failed = False, rw_sealed = False,
             rw_checkpointed = False, rw_grow_op = False, rw_terminal_op = False,
             rw_segments = fp_mappings fp, rw_revision = 0\<rparr>, io))"

text \<open>\<open>LsmtRwLayer::View\<close>: the payload file bounded by the published extent.\<close>

definition view_pread :: "LsmtRw \<Rightarrow> fault \<Rightarrow> reader" where
  "view_pread st fault count offset =
     (let bound = rw_data_bytes st in
      if offset \<ge> bound then Inr []
      else let count = (if count > bound - offset then bound - offset else count) in
        if count = 0 then Inr []
        else if \<not> rw_open st then Inl EBADF
        else (case fault count offset of Some e \<Rightarrow> Inl e | None \<Rightarrow> Inr (get_bytes offset count (rw_file st))))"

definition rw_view :: "LsmtRw \<Rightarrow> fault \<Rightarrow> BlobSource" where
  "rw_view st fault = \<lparr>src_size = rw_data_bytes st, src_pread = view_pread st fault\<rparr>"

interpretation rv: blob_source "rw_view st fault" "take (rw_data_bytes st) (rw_file st)" for st fault
  by unfold_locales
    (auto simp: rw_view_def view_pread_def get_bytes_def Let_def drop_take min_def split: if_splits option.splits)

text \<open>The reopened layer shows what the journal recorded: the mappings of the replayed log.\<close>

lemma from_pair_sector:
  "from_pair data fp io = (Inr st, io') \<Longrightarrow> rw_sector st x = sector_bytes [data] (lookup (fp_mappings fp) x)"
  by (auto simp: from_pair_def rw_sector_def split: option.splits prod.splits)

text \<open>The digest pass over the sealed file.\<close>

function hash_loop :: "bytes \<Rightarrow> nat \<Rightarrow> bytes \<Rightarrow> script \<Rightarrow> bytes result \<times> script" where
  "hash_loop f off hashed io =
     (if off \<ge> length f then (Inr hashed, io)
      else
        let n = min kCopyBuffer (length f - off) in
        case read_all n off f io of
          (Inl e, io) \<Rightarrow> (Inl e, io)
        | (Inr bs, io) \<Rightarrow> hash_loop f (off + n) (hashed @ bs) io)"
  by pat_completeness auto
termination
  by (relation "measure (\<lambda>(f, off, hashed, io). length f - off)") (auto simp: kCopyBuffer_def)

declare hash_loop.simps [simp del]

definition content_extent :: "segment_mapping list \<Rightarrow> nat" where
  "content_extent segs = fold (\<lambda>s acc. max acc (seg_end s * kSector)) segs 0"

text \<open>\<open>seal_file\<close> from the recovered layer on; the result is the digest and the size of the sealed file.\<close>

definition rebaseline :: "nat \<Rightarrow> LsmtRw \<Rightarrow> LsmtRw result" where
  "rebaseline virtual_size st =
     (if virtual_size > 0 then
        if virtual_size mod kSector \<noteq> 0 then Inl EINVAL
        else if virtual_size < rw_vsize st then Inl EINVAL
        else if virtual_size < content_extent (rw_segments st) then Inl EINVAL
        else Inr (st\<lparr>rw_vsize := virtual_size\<rparr>)
      else Inr st)"

definition seal_recovered :: "(bytes \<Rightarrow> bytes) \<Rightarrow> bytes \<Rightarrow> nat \<Rightarrow> LsmtRw \<Rightarrow> script \<Rightarrow> (bytes \<times> nat) result \<times> LsmtRw \<times> script" where
  "seal_recovered sha256 user_tag virtual_size st io = (case rebaseline virtual_size st of
     Inl e \<Rightarrow> (Inl e, st, io)
   | Inr st \<Rightarrow>
       (case rw_seal sha256 user_tag st io of
          (Some e, st, io) \<Rightarrow> (Inl e, st, io)
        | (None, st, io) \<Rightarrow>
            (case sys_call io of (Some e, io) \<Rightarrow> (Inl e, st, io) | (None, io) \<Rightarrow>
              (case sys_call io of (Some e, io) \<Rightarrow> (Inl e, st, io) | (None, io) \<Rightarrow>
                (case hash_loop (rw_file st) 0 [] io of
                   (Inl e, io) \<Rightarrow> (Inl e, st, io)
                 | (Inr hashed, io) \<Rightarrow> (Inr (final_hex (sha256 hashed), length (rw_file st)), st, io))))))"

lemma hash_loop_all:
  assumes "hash_loop f off (take off f) io = (Inr hashed, io')" "off \<le> length f"
  shows "hashed = f"
  using assms
proof (induction "length f - off" arbitrary: off io rule: less_induct)
  case less
  show ?case
  proof (cases "off \<ge> length f")
    case True
    then show ?thesis using less.prems by (simp add: hash_loop.simps)
  next
    case False
    let ?n = "min kCopyBuffer (length f - off)"
    obtain r io1 where rd: "read_all ?n off f io = (r, io1)" by (cases "read_all ?n off f io")
    note run = less.prems(1) [unfolded hash_loop.simps [of f off] if_not_P [OF False] Let_def rd prod.case]
    obtain bs where r: "r = Inr bs" using run by (cases r) auto
    have "bs = get_bytes off ?n f" using read_all_Inr rd r by blast
    then have "take off f @ bs = take (off + ?n) f" using less.prems(2) by (simp add: get_bytes_def take_add)
    then show ?thesis using less.hyps [of "off + ?n" io1] run r False by (simp add: kCopyBuffer_def)
  qed
qed

lemma content_extent_le: "content_extent segs \<le> n \<longleftrightarrow> (\<forall>s \<in> set segs. seg_end s * kSector \<le> n)"
proof -
  have "fold (\<lambda>s acc. max acc (seg_end s * kSector)) segs a \<le> n \<longleftrightarrow> a \<le> n \<and> (\<forall>s \<in> set segs. seg_end s * kSector \<le> n)" for a
    by (induction segs arbitrary: a) auto
  then show ?thesis by (simp add: content_extent_def)
qed

lemma rebaseline_inv:
  assumes "rebaseline v st = Inr st'" "rw_inv st" "v div kSector \<le> kMaxOffset"
  shows "rw_inv st' \<and> rw_segments st' = rw_segments st \<and> rw_file st' = rw_file st \<and> rw_sealed st' = rw_sealed st \<and>
    rw_vsize st' = (if v = 0 then rw_vsize st else v) \<and> rw_vsize st \<le> rw_vsize st'"
proof (cases "v = 0")
  case False
  then have st': "st' = st\<lparr>rw_vsize := v\<rparr>" and v: "v mod kSector = 0" "rw_vsize st \<le> v"
    using assms(1) by (auto simp: rebaseline_def split: if_splits)
  have "rw_sectors st \<le> v div kSector" using v(2) by (simp add: rw_sectors_def div_le_mono)
  then have "\<forall>s \<in> set (rw_segments st). seg_bounded (v div kSector) (rw_data_end st) s"
    using assms(2) seg_bounded_mono by (fastforce simp: rw_inv_def)
  then show ?thesis using assms(2,3) st' v False by (auto simp: rw_inv_def rw_sectors_def)
qed (use assms in \<open>auto simp: rebaseline_def\<close>)

text \<open>C23: An offline commit.  A requested size that is off the sector grid, smaller than the declared size or smaller than
  what the layer maps is refused and the layer left alone.  When the commit reports a digest and a size, they are those of
  a file that opens at the requested (or else the declared) size and shows every sector of the layer.\<close>

theorem seal_recovered_correct:
  assumes inv: "rw_inv st" and fresh: "\<not> rw_sealed st" and tag: "length tag < 256" "cstr_ok tag"
    and sha: "\<And>b. length (sha256 b) = 32" and count: "length (rw_segments st) \<le> kMaxRoIndexSize"
    and limit: "v div kSector \<le> kMaxOffset" and fault: "\<And>n k. fault n k = None"
    and run: "seal_recovered sha256 tag v st io = (res, st', io')"
  shows "(0 < v \<longrightarrow> v mod kSector \<noteq> 0 \<or> v < rw_vsize st \<or> (\<exists>s \<in> set (rw_segments st). v < seg_end s * kSector) \<longrightarrow>
      res = Inl EINVAL \<and> st' = st) \<and>
    (\<forall>hex n. res = Inr (hex, n) \<longrightarrow> hex = final_hex (sha256 (rw_file st')) \<and> n = length (rw_file st') \<and>
      (\<exists>l. layer_open (Some (local_file (rw_file st') fault)) = Inr l \<and>
         ht_virtual_size (l_ht l) = of_nat (if v = 0 then rw_vsize st else v) \<and>
         (\<forall>x. sector_bytes [rw_file st'] (lookup (l_segments l) x) = rw_sector st x)))"
proof (cases "rebaseline v st")
  case (Inl e)
  then have "res = Inl EINVAL" "st' = st" using run by (auto simp: seal_recovered_def rebaseline_def split: if_splits)
  then show ?thesis by simp
next
  case (Inr st1)
  have ok: "\<not> (0 < v \<and> (v mod kSector \<noteq> 0 \<or> v < rw_vsize st \<or> (\<exists>s \<in> set (rw_segments st). v < seg_end s * kSector)))"
    using Inr content_extent_le [of "rw_segments st" v] by (auto simp: rebaseline_def not_less split: if_splits)
  note rb = rebaseline_inv [OF Inr inv limit]
  have "hex = final_hex (sha256 (rw_file st')) \<and> n = length (rw_file st') \<and>
      (\<exists>l. layer_open (Some (local_file (rw_file st') fault)) = Inr l \<and>
         ht_virtual_size (l_ht l) = of_nat (if v = 0 then rw_vsize st else v) \<and>
         (\<forall>x. sector_bytes [rw_file st'] (lookup (l_segments l) x) = rw_sector st x))" if res: "res = Inr (hex, n)" for hex n
  proof -
    obtain e s2 io2 where seal: "rw_seal sha256 tag st1 io = (e, s2, io2)" by (cases "rw_seal sha256 tag st1 io")
    note r = run [unfolded seal_recovered_def Inr sum.case seal prod.case res]
    have e: "e = None" using r by (cases e) auto
    obtain a io3 where a: "sys_call io2 = (a, io3)" by (cases "sys_call io2")
    note r = r [unfolded e option.case a prod.case]
    have a': "a = None" using r by (cases a) auto
    obtain b io4 where b: "sys_call io3 = (b, io4)" by (cases "sys_call io3")
    note r = r [unfolded a' option.case b prod.case]
    have b': "b = None" using r by (cases b) auto
    obtain h io5 where h: "hash_loop (rw_file s2) 0 [] io4 = (h, io5)" by (cases "hash_loop (rw_file s2) 0 [] io4")
    note r = r [unfolded b' option.case h prod.case]
    obtain hashed where h': "h = Inr hashed" using r by (cases h) auto
    have "hashed = rw_file s2" using hash_loop_all [of "rw_file s2" 0 io4 hashed io5] h h' by simp
    then have out: "st' = s2" "hex = final_hex (sha256 (rw_file s2))" "n = length (rw_file s2)" using r h' by auto
    have "rw_inv st1" "\<not> rw_sealed st1" "length (rw_segments st1) \<le> kMaxRoIndexSize" using rb fresh count by auto
    from rw_seal_spec [where fault = fault, OF this(1,2) tag sha this(3) fault seal] e
    obtain l where "layer_open (Some (local_file (rw_file s2) fault)) = Inr l" "ht_virtual_size (l_ht l) = of_nat (rw_vsize st1)"
      "\<forall>x. sector_bytes [rw_file s2] (lookup (l_segments l) x) = rw_sector st1 x" by blast
    then show ?thesis using out rb by (auto simp: rw_sector_def)
  qed
  then show ?thesis using ok by auto
qed


lemma hash_loop_succeeds: "\<exists>r. hash_loop f off hashed [] = (Inr r, [])"
proof (induction "length f - off" arbitrary: off hashed rule: less_induct)
  case less
  show ?case
  proof (cases "off \<ge> length f")
    case False
    let ?n = "min kCopyBuffer (length f - off)"
    have n: "0 < ?n" "off + ?n \<le> length f" using False by (auto simp: kCopyBuffer_def)
    then show ?thesis using less.hyps [of "off + ?n" "hashed @ get_bytes off ?n f"] False
      by (simp add: hash_loop.simps [of f off] Let_def)
  qed (simp add: hash_loop.simps)
qed

theorem seal_recovered_correct_witness:
  "\<exists>r st' l. seal_recovered (\<lambda>b. zeros 32) [] 8192 sample_full_rw [] = (Inr r, st', []) \<and>
     layer_open (Some (local_file (rw_file st') (\<lambda>_ _. None))) = Inr l \<and> ht_virtual_size (l_ht l) = 8192 \<and>
     sector_bytes [rw_file st'] (lookup (l_segments l) 1) = rw_sector sample_full_rw 1"
proof -
  let ?st = "sample_full_rw\<lparr>rw_vsize := 8192\<rparr>"
  have strings: "length ([] :: bytes) < 256" "cstr_ok []" by (simp_all add: cstr_ok_def)
  have rb: "rebaseline 8192 sample_full_rw = Inr ?st"
    by (simp add: rebaseline_def sample_full_rw_def sample_rw_def kSector_def content_extent_def seg_end_def)
  have inv: "rw_inv ?st" using rebaseline_inv [OF rb sample_full_rw_inv] by (simp add: kSector_def kMaxOffset_def)
  then have "rw_inv (?st\<lparr>rw_terminal_op := True\<rparr>)" by (simp add: rw_inv_def rw_sectors_def)
  moreover have flags: "rw_open ?st" "\<not> rw_sealed ?st" "\<not> rw_journal_failed ?st" "\<not> rw_terminal_op ?st" "\<not> rw_grow_op ?st"
    "\<not> rw_sealed sample_full_rw" "length (rw_segments sample_full_rw) \<le> kMaxRoIndexSize"
    by (simp_all add: sample_full_rw_def sample_rw_def kMaxRoIndexSize_def)
  ultimately obtain s1 where "seal_body (\<lambda>b. zeros 32) [] (?st\<lparr>rw_terminal_op := True\<rparr>) [] = (None, s1, [])"
    using seal_body_succeeds [of "?st\<lparr>rw_terminal_op := True\<rparr>" "[]" "\<lambda>b. zeros 32"] strings by auto
  then have "rw_seal (\<lambda>b. zeros 32) [] ?st [] = (None, end_terminal_op s1, [])"
    using flags by (simp add: rw_seal_def begin_terminal_op_def)
  then obtain hex n st' where run: "seal_recovered (\<lambda>b. zeros 32) [] 8192 sample_full_rw [] = (Inr (hex, n), st', [])"
    using hash_loop_succeeds [of "rw_file (end_terminal_op s1)" 0 "[]"] rb by (auto simp: seal_recovered_def)
  have "8192 div kSector \<le> kMaxOffset" by (simp add: kSector_def kMaxOffset_def)
  from seal_recovered_correct [where fault = "\<lambda>_ _. None", OF sample_full_rw_inv flags(6) strings _ flags(7) this _ run] run
  show ?thesis by auto
qed

end
