(* ===== verification/LsmtWrite.thy ===== *)
theory LsmtWrite
  imports LsmtRwSeal
begin

text \<open>
  \<open>src/format/writer.cpp\<close>, the LSMT half: identifiers, a sealed layer over a raw image with a placement of tail ranges, and
  warp metadata layers that refer to a target. A descriptor is the file behind it.

  The file of \<open>write_lsmt_single_layer\<close> opens and shows the input, with the tail ranges last; the file of
  \<open>write_lsmt_warp_layer\<close> opens over its target and shows what the mappings describe.
\<close>

section \<open>Identifiers\<close>

text \<open>The random device is the list of the four words it returns; \<open>memcpy\<close> copies them in host order.\<close>

definition generate_uuid :: "32 word list \<Rightarrow> bytes" where
  "generate_uuid rd =
     (let b = concat (map store_u32_le (take 4 rd));
          b = b[6 := (b ! 6 AND 0x0f) OR 0x40];
          b = b[8 := (b ! 8 AND 0x3f) OR 0x80]
      in concat (map (\<lambda>i. (if i = 4 \<or> i = 6 \<or> i = 8 \<or> i = 10 then [0x2D] else []) @
           [hexd ! unat (drop_bit 4 (b ! i)), hexd ! unat (b ! i AND 0xf)]) [0..<16]))"

section \<open>Placement of a single layer\<close>

record LsmtPayloadRange =
  pr_offset :: nat
  pr_length :: nat

record LsmtWriteOptions =
  lw_uuid :: bytes
  lw_parent_uuid :: bytes
  lw_user_tag :: bytes
  lw_tail_ranges :: "LsmtPayloadRange list"

definition pr_end :: "LsmtPayloadRange \<Rightarrow> nat" where
  "pr_end r = pr_offset r + pr_length r"

fun tail_loop :: "nat \<Rightarrow> LsmtPayloadRange list \<Rightarrow> LsmtPayloadRange list \<Rightarrow> nat \<Rightarrow> (LsmtPayloadRange list \<times> nat) result" where
  "tail_loop n_sectors [] tail tail_sectors = Inr (tail, tail_sectors)"
| "tail_loop n_sectors (r # ranges) tail tail_sectors =
     (if pr_length r = 0 \<or> pr_offset r \<ge> n_sectors \<or> pr_length r > n_sectors - pr_offset r \<or>
         (tail \<noteq> [] \<and> pr_offset r < pr_end (last tail)) then Inl EINVAL
      else if tail \<noteq> [] \<and> pr_offset r = pr_end (last tail) then
        tail_loop n_sectors ranges (butlast tail @ [(last tail)\<lparr>pr_length := pr_length (last tail) + pr_length r\<rparr>])
          (tail_sectors + pr_length r)
      else tail_loop n_sectors ranges (tail @ [r]) (tail_sectors + pr_length r))"

text \<open>The lambda \<open>append\<close>: mappings of at most \<open>kMaxLength\<close> sectors for a run of sectors.\<close>

function append_run :: "nat \<Rightarrow> nat \<Rightarrow> nat \<Rightarrow> segment_mapping list \<Rightarrow> (segment_mapping list \<times> nat) result" where
  "append_run first len phys segs =
     (if len = 0 then Inr (segs, phys)
      else if length segs = kMaxRoIndexSize then Inl EFBIG
      else let count = min kMaxLength len in
        append_run (first + count) (len - count) (phys + count)
          (segs @ [\<lparr>s_offset = first, s_length = count, s_moffset = phys, s_zeroed = False, s_tag = 0\<rparr>]))"
  by pat_completeness auto
termination
  by (relation "measure (\<lambda>(first, len, phys, segs). len)") (auto simp: kMaxLength_def)

declare append_run.simps [simp del]

fun place_loop :: "LsmtPayloadRange list \<Rightarrow> nat \<Rightarrow> nat \<Rightarrow> nat \<Rightarrow> segment_mapping list
    \<Rightarrow> (nat \<times> nat \<times> segment_mapping list) result" where
  "place_loop [] logical data_physical tail_physical segs = Inr (logical, data_physical, segs)"
| "place_loop (r # tail) logical data_physical tail_physical segs =
     bindR (append_run logical (pr_offset r - logical) data_physical segs) (\<lambda>(segs, data_physical).
     bindR (append_run (pr_offset r) (pr_length r) tail_physical segs) (\<lambda>(segs, tail_physical).
       place_loop tail (pr_end r) data_physical tail_physical segs))"

definition place_segments :: "nat \<Rightarrow> LsmtPayloadRange list \<Rightarrow> nat \<Rightarrow> segment_mapping list result" where
  "place_segments n_sectors tail tail_start =
     bindR (place_loop tail 0 kDataStartSector tail_start []) (\<lambda>(logical, data_physical, segs).
     bindR (append_run logical (n_sectors - logical) data_physical segs) (\<lambda>(segs, _). Inr segs))"

section \<open>Writing a single layer\<close>

function copy_extent :: "bytes \<Rightarrow> nat \<Rightarrow> nat \<Rightarrow> nat \<Rightarrow> nat \<Rightarrow> bytes \<Rightarrow> script \<Rightarrow> bytes result \<times> script" where
  "copy_extent input src dst n copied out io =
     (if copied \<ge> n then (Inr out, io)
      else let chunk = min kCopyBuffer (n - copied) in
        case read_all chunk (src + copied) input io of
          (Inl e, io) \<Rightarrow> (Inl e, io)
        | (Inr buf, io) \<Rightarrow>
            (case write_all buf (dst + copied) out io of
               (Some e, _, io) \<Rightarrow> (Inl e, io)
             | (None, out, io) \<Rightarrow> copy_extent input src dst n (copied + chunk) out io))"
  by pat_completeness auto
termination
  by (relation "measure (\<lambda>(input, src, dst, n, copied, out, io). n - copied)") (auto simp: kCopyBuffer_def)

declare copy_extent.simps [simp del]

fun copy_pass :: "bytes \<Rightarrow> nat \<Rightarrow> bool \<Rightarrow> segment_mapping list \<Rightarrow> bytes \<Rightarrow> script \<Rightarrow> bytes result \<times> script" where
  "copy_pass input tail_start at_tail [] out io = (Inr out, io)"
| "copy_pass input tail_start at_tail (s # segs) out io =
     (if (s_moffset s \<ge> tail_start) \<noteq> at_tail then copy_pass input tail_start at_tail segs out io
      else case copy_extent input (s_offset s * kAlignment) (s_moffset s * kAlignment) (s_length s * kAlignment) 0 out io of
        (Inl e, io) \<Rightarrow> (Inl e, io)
      | (Inr out, io) \<Rightarrow> copy_pass input tail_start at_tail segs out io)"

definition writer_ht :: "32 word list \<Rightarrow> LsmtWriteOptions \<Rightarrow> nat \<Rightarrow> nat \<Rightarrow> nat \<Rightarrow> HeaderTrailer" where
  "writer_ht rd opts index_offset index_size virtual_size =
     (set_flag_bit kFlagShiftSealed (set_flag_bit kFlagShiftType default_ht))
       \<lparr>ht_index_offset := of_nat index_offset, ht_index_size := of_nat index_size, ht_virtual_size := of_nat virtual_size,
        ht_uuid := (if lw_uuid opts = [] then generate_uuid rd else lw_uuid opts),
        ht_parent_uuid := lw_parent_uuid opts, ht_version := 1, ht_sub_version := 1, ht_user_tag := lw_user_tag opts\<rparr>"

text \<open>Index, header and trailer behind the payload.\<close>

definition finish_layer :: "HeaderTrailer \<Rightarrow> segment_mapping list \<Rightarrow> nat \<Rightarrow> nat \<Rightarrow> bytes \<Rightarrow> script \<Rightarrow> bytes result \<times> script" where
  "finish_layer ht segs index_offset total_size out io =
     (case write_all (concat (map store_segment_le segs)) index_offset out io of
        (Some e, _, io) \<Rightarrow> (Inl e, io)
      | (None, out, io) \<Rightarrow>
          (case serialize_ht (set_flag_bit kFlagShiftHeader ht) of
             Inl e \<Rightarrow> (Inl e, io)
           | Inr region \<Rightarrow>
               (case write_all region 0 out io of
                  (Some e, _, io) \<Rightarrow> (Inl e, io)
                | (None, out, io) \<Rightarrow>
                    (case serialize_ht (clr_flag_bit kFlagShiftHeader (set_flag_bit kFlagShiftHeader ht)) of
                       Inl e \<Rightarrow> (Inl e, io)
                     | Inr region \<Rightarrow>
                         (case write_all region (total_size - kSpace) out io of
                            (Some e, _, io) \<Rightarrow> (Inl e, io)
                          | (None, out, io) \<Rightarrow>
                              (case sys_call io of (Some e, io) \<Rightarrow> (Inl e, io) | (None, io) \<Rightarrow> (Inr (take total_size out), io)))))))"

definition write_lsmt_single_layer :: "32 word list \<Rightarrow> LsmtWriteOptions \<Rightarrow> bytes \<Rightarrow> nat \<Rightarrow> script \<Rightarrow> bytes result \<times> script" where
  "write_lsmt_single_layer rd opts input in_size io =
     (let n_sectors = in_size div kAlignment in
      if in_size = 0 \<or> in_size mod kAlignment \<noteq> 0 then (Inl EINVAL, io)
      else if n_sectors > kMaxOffset then (Inl EFBIG, io)
      else if length (lw_tail_ranges opts) > kMaxRoIndexSize then (Inl EFBIG, io)
      else case tail_loop n_sectors (lw_tail_ranges opts) [] 0 of
        Inl e \<Rightarrow> (Inl e, io)
      | Inr (tail, tail_sectors) \<Rightarrow>
          let tail_start = kDataStartSector + n_sectors - tail_sectors in
          (case place_segments n_sectors tail tail_start of
             Inl e \<Rightarrow> (Inl e, io)
           | Inr segs \<Rightarrow>
               let index_offset = kSpace + in_size;
                   total_size = index_offset + length segs * kEncodedSize + kSpace
               in (case sys_call io of (Some e, io) \<Rightarrow> (Inl e, io) | (None, io) \<Rightarrow>
                  (case write_all (zeros kSpace) 0 [] io of (Some e, _, io) \<Rightarrow> (Inl e, io) | (None, out, io) \<Rightarrow>
                  (case copy_pass input tail_start False segs out io of (Inl e, io) \<Rightarrow> (Inl e, io) | (Inr out, io) \<Rightarrow>
                  (case copy_pass input tail_start True segs out io of (Inl e, io) \<Rightarrow> (Inl e, io) | (Inr out, io) \<Rightarrow>
                     finish_layer (writer_ht rd opts index_offset (length segs) in_size) segs index_offset total_size out io))))))"

section \<open>The generated identifier is well formed\<close>

lemma dashed_hex:
  assumes "length b = 16"
  shows "concat (map (\<lambda>i. (if i = 4 \<or> i = 6 \<or> i = 8 \<or> i = 10 then [0x2D] else []) @
      [hexd ! unat (drop_bit 4 (b ! i)), hexd ! unat (b ! i AND 0xf)]) [0..<16]) = uuid_from_content_digest (final_hex (b @ zeros 16))"
proof -
  obtain x0 x1 x2 x3 x4 x5 x6 x7 x8 x9 x10 x11 x12 x13 x14 x15
    where b: "b = [x0, x1, x2, x3, x4, x5, x6, x7, x8, x9, x10, x11, x12, x13, x14, x15]"
    using assms by (auto simp: numeral_eq_Suc length_Suc_conv)
  have u: "[0..<16] = [0, 1, 2, 3, 4, 5, 6, 7, 8, 9, 10, 11, 12, 13, 14, 15]" by (simp add: upt_conv_Cons)
  show ?thesis unfolding u b
    by (simp add: final_hex_def uuid_from_content_digest_def insert_dash_def)
qed

lemma generate_uuid_valid:
  assumes "4 \<le> length rd"
  shows "valid_uuid (generate_uuid rd)"
proof -
  have "length (concat (map store_u32_le rs)) = 4 * length rs" for rs by (induction rs) simp_all
  then have "length (concat (map store_u32_le (take 4 rd))) = 16" using assms by simp
  then show ?thesis unfolding generate_uuid_def Let_def by (subst dashed_hex) (simp_all add: content_uuid_valid)
qed

section \<open>What the placement maps\<close>

text \<open>The mappings of a run of sectors.\<close>

definition run_of :: "nat \<Rightarrow> nat \<Rightarrow> nat \<Rightarrow> segment_mapping list \<Rightarrow> bool" where
  "run_of first len phys v \<longleftrightarrow> wf_segs v \<and>
     (\<forall>s \<in> set v. s_tag s = 0 \<and> \<not> s_zeroed s \<and> s_length s \<le> kMaxLength \<and> first \<le> s_offset s \<and> seg_end s \<le> first + len \<and>
        s_moffset s = phys + (s_offset s - first)) \<and>
     (\<forall>x. lookup v x = (if first \<le> x \<and> x < first + len then Some (0, Some (phys + (x - first))) else None))"

lemma append_run_ok:
  assumes "append_run first len phys segs = Inr (segs', phys')" "length segs \<le> kMaxRoIndexSize"
  shows "\<exists>v. segs' = segs @ v \<and> phys' = phys + len \<and> run_of first len phys v \<and> length segs' \<le> kMaxRoIndexSize"
  using assms
proof (induction len arbitrary: first phys segs rule: less_induct)
  case (less len)
  show ?case
  proof (cases "len = 0")
    case True
    then show ?thesis using less.prems by (simp add: append_run.simps run_of_def)
  next
    case False
    let ?c = "min kMaxLength len"
    let ?s = "\<lparr>s_offset = first, s_length = ?c, s_moffset = phys, s_zeroed = False, s_tag = 0\<rparr>"
    have c: "0 < ?c" using False by (simp add: kMaxLength_def)
    have full: "length segs \<noteq> kMaxRoIndexSize"
      using less.prems(1) False by (auto simp: append_run.simps [of first])
    then have run: "append_run (first + ?c) (len - ?c) (phys + ?c) (segs @ [?s]) = Inr (segs', phys')"
      using less.prems(1) False by (simp add: append_run.simps [of first] Let_def)
    have "len - ?c < len" "length (segs @ [?s]) \<le> kMaxRoIndexSize" using c False full less.prems(2) by auto
    from less.IH [OF this(1) run this(2)] obtain v where v: "segs' = (segs @ [?s]) @ v" "phys' = phys + ?c + (len - ?c)"
      "run_of (first + ?c) (len - ?c) (phys + ?c) v" "length segs' \<le> kMaxRoIndexSize" by blast
    have "run_of first len phys (?s # v)"
      using v(3) c by (fastforce simp: run_of_def wf_segs_Cons seg_end_def covers_def place_def)
    then show ?thesis using v by (intro exI [of _ "?s # v"]) auto
  qed
qed

definition sectors_of :: "LsmtPayloadRange list \<Rightarrow> nat set" where
  "sectors_of ranges = (\<Union>r \<in> set ranges. {pr_offset r..<pr_end r})"

definition tail_ok :: "nat \<Rightarrow> LsmtPayloadRange list \<Rightarrow> bool" where
  "tail_ok n tail \<longleftrightarrow> sorted_wrt (\<lambda>a b. pr_end a \<le> pr_offset b) tail \<and> (\<forall>r \<in> set tail. 0 < pr_length r \<and> pr_end r \<le> n)"

lemma tail_ok_snoc: "tail_ok n (tail @ [r]) \<longleftrightarrow> tail_ok n tail \<and> (\<forall>a \<in> set tail. pr_end a \<le> pr_offset r) \<and> 0 < pr_length r \<and> pr_end r \<le> n"
  by (auto simp: tail_ok_def sorted_wrt_append)

lemma tail_loop_ok:
  assumes "tail_loop n ranges tail k = Inr (tail', k')" "tail_ok n tail" "k = sum_list (map pr_length tail)"
  shows "tail_ok n tail' \<and> k' = sum_list (map pr_length tail') \<and> sectors_of tail' = sectors_of tail \<union> sectors_of ranges"
  using assms
proof (induction ranges arbitrary: tail k)
  case (Cons r ranges)
  have ok: "0 < pr_length r" "pr_end r \<le> n" "tail \<noteq> [] \<Longrightarrow> pr_end (last tail) \<le> pr_offset r"
    using Cons.prems(1) by (auto simp: pr_end_def not_less split: if_splits)
  show ?case
  proof (cases "tail \<noteq> [] \<and> pr_offset r = pr_end (last tail)")
    case True
    then obtain front l where tail: "tail = front @ [l]" by (metis append_butlast_last_id)
    let ?l = "l\<lparr>pr_length := pr_length l + pr_length r\<rparr>"
    have "tail_ok n (front @ [?l])" using Cons.prems(2) True ok unfolding tail tail_ok_snoc by (simp add: pr_end_def)
    moreover have "tail_loop n ranges (front @ [?l]) (k + pr_length r) = Inr (tail', k')"
      using Cons.prems(1) True by (simp add: tail split: if_splits)
    moreover have "sectors_of (front @ [?l]) = sectors_of tail \<union> {pr_offset r..<pr_end r}"
      using True by (auto simp: sectors_of_def tail pr_end_def)
    ultimately show ?thesis using Cons.IH [of "front @ [?l]" "k + pr_length r"] Cons.prems(3) tail by (simp add: sectors_of_def Un_ac)
  next
    case False
    have "pr_end a \<le> pr_offset r" if a: "a \<in> set tail" for a
    proof -
      obtain front l where tail: "tail = front @ [l]" using a by (metis append_butlast_last_id empty_iff empty_set)
      then show ?thesis using a Cons.prems(2) ok(3) unfolding tail tail_ok_snoc by (auto simp: pr_end_def)
    qed
    then have "tail_ok n (tail @ [r])" using Cons.prems(2) ok by (simp add: tail_ok_snoc)
    moreover have "tail_loop n ranges (tail @ [r]) (k + pr_length r) = Inr (tail', k')"
      using Cons.prems(1) False by (auto split: if_splits)
    ultimately show ?thesis using Cons.IH [of "tail @ [r]" "k + pr_length r"] Cons.prems(3) by (simp add: sectors_of_def Un_ac)
  qed
qed (simp add: sectors_of_def)

lemma tail_sum: "tail_ok n tail \<Longrightarrow> \<forall>r \<in> set tail. l \<le> pr_offset r \<Longrightarrow> l \<le> n \<Longrightarrow> l + sum_list (map pr_length tail) \<le> n"
proof (induction tail arbitrary: l)
  case (Cons r tail)
  have "\<forall>q \<in> set tail. pr_end r \<le> pr_offset q" "tail_ok n tail" "pr_end r \<le> n" using Cons.prems(1) by (auto simp: tail_ok_def)
  then have "pr_end r + sum_list (map pr_length tail) \<le> n" using Cons.IH [of "pr_end r"] by blast
  then show ?case using Cons.prems(2) by (simp add: pr_end_def)
qed simp

text \<open>Mappings of the sectors below \<open>l\<close>, of which those in \<open>T\<close> form the tail class: ordinary payload up to \<open>dp\<close>, the tail class from \<open>ts\<close> to \<open>tp\<close>, both in
  increasing physical order.\<close>

abbreviation phys_sorted :: "segment_mapping list \<Rightarrow> bool" where
  "phys_sorted \<equiv> sorted_wrt (\<lambda>a b. seg_mend a \<le> s_moffset b)"

definition placed :: "nat set \<Rightarrow> nat \<Rightarrow> nat \<Rightarrow> nat \<Rightarrow> nat \<Rightarrow> segment_mapping list \<Rightarrow> bool" where
  "placed T ts l dp tp segs \<longleftrightarrow> wf_segs segs \<and> kDataStartSector \<le> dp \<and> dp \<le> ts \<and> ts \<le> tp \<and>
     (\<forall>s \<in> set segs. s_tag s = 0 \<and> \<not> s_zeroed s \<and> s_length s \<le> kMaxLength \<and> seg_end s \<le> l \<and> kDataStartSector \<le> s_moffset s \<and>
        (if s_moffset s < ts then seg_mend s \<le> dp else seg_mend s \<le> tp)) \<and>
     (\<forall>x < l. \<exists>p. lookup segs x = Some (0, Some p) \<and> (ts \<le> p \<longleftrightarrow> x \<in> T)) \<and>
     phys_sorted (filter (\<lambda>s. s_moffset s < ts) segs) \<and> phys_sorted (filter (\<lambda>s. ts \<le> s_moffset s) segs)"

lemma run_of_phys:
  assumes "run_of first len phys v"
  shows "phys_sorted v" "\<forall>s \<in> set v. phys \<le> s_moffset s \<and> seg_mend s \<le> phys + len \<and> s_moffset s < phys + len \<and> 0 < s_length s"
proof -
  have s: "\<forall>s \<in> set v. first \<le> s_offset s \<and> seg_end s \<le> first + len \<and> s_moffset s = phys + (s_offset s - first) \<and> 0 < s_length s"
    using assms by (auto simp: run_of_def wf_segs_def)
  then show "\<forall>s \<in> set v. phys \<le> s_moffset s \<and> seg_mend s \<le> phys + len \<and> s_moffset s < phys + len \<and> 0 < s_length s"
    by (fastforce simp: seg_mend_def seg_end_def)
  have "sorted_wrt (\<lambda>a b. seg_end a \<le> s_offset b) v" using assms by (simp add: run_of_def wf_segs_def)
  then show "phys_sorted v" by (rule sorted_wrt_mono_rel [rotated]) (use s in \<open>fastforce simp: seg_mend_def seg_end_def\<close>)
qed

lemma placed_append:
  assumes p: "placed T ts l dp tp segs" and r: "run_of l len (if at_tail then tp else dp) v"
    and fits: "\<not> at_tail \<Longrightarrow> dp + len \<le> ts" and cls: "\<forall>x. l \<le> x \<and> x < l + len \<longrightarrow> (x \<in> T) = at_tail"
  shows "placed T ts (l + len) (if at_tail then dp else dp + len) (if at_tail then tp + len else tp) (segs @ v)"
proof -
  note ph = run_of_phys [OF r]
  have wf: "wf_segs segs" "\<forall>s \<in> set segs. seg_end s \<le> l" using p by (auto simp: placed_def)
  have v: "wf_segs v" "\<forall>s \<in> set v. s_tag s = 0 \<and> \<not> s_zeroed s \<and> s_length s \<le> kMaxLength \<and> l \<le> s_offset s \<and> seg_end s \<le> l + len"
    "\<forall>x. l \<le> x \<and> x < l + len \<longrightarrow> lookup v x = Some (0, Some ((if at_tail then tp else dp) + (x - l)))"
    using r by (auto simp: run_of_def)
  have "wf_segs (segs @ v)" using wf v by (force simp: wf_segs_append)
  moreover have "\<forall>x < l + len. \<exists>p. lookup (segs @ v) x = Some (0, Some p) \<and> (ts \<le> p \<longleftrightarrow> x \<in> T)"
  proof (intro allI impI)
    fix x assume "x < l + len"
    show "\<exists>p. lookup (segs @ v) x = Some (0, Some p) \<and> (ts \<le> p \<longleftrightarrow> x \<in> T)"
    proof (cases "x < l")
      case True
      then show ?thesis using p by (force simp: placed_def lookup_append)
    next
      case False
      have "lookup segs x = None" using False wf(2) by (intro lookup_above) force
      then have "lookup (segs @ v) x = Some (0, Some ((if at_tail then tp else dp) + (x - l)))"
        using False \<open>x < l + len\<close> v(3) by (simp add: lookup_append)
      moreover have "(ts \<le> (if at_tail then tp else dp) + (x - l)) = at_tail"
        using False \<open>x < l + len\<close> fits p by (cases at_tail) (auto simp: placed_def)
      ultimately show ?thesis using cls False \<open>x < l + len\<close> by auto
    qed
  qed
  moreover have "(\<forall>s \<in> set (segs @ v). s_tag s = 0 \<and> \<not> s_zeroed s \<and> s_length s \<le> kMaxLength \<and> seg_end s \<le> l + len \<and> kDataStartSector \<le> s_moffset s \<and>
      (if s_moffset s < ts then seg_mend s \<le> (if at_tail then dp else dp + len) else seg_mend s \<le> (if at_tail then tp + len else tp)))"
    using p v(2) ph(2) fits by (cases at_tail) (fastforce simp: placed_def)+
  moreover have "phys_sorted (filter (\<lambda>s. s_moffset s < ts) (segs @ v))" "phys_sorted (filter (\<lambda>s. ts \<le> s_moffset s) (segs @ v))"
  proof -
    have sv: "phys_sorted (filter P v)" for P using ph(1) by (simp add: sorted_wrt_filter)
    have "seg_mend a \<le> s_moffset b" if "a \<in> set segs" "b \<in> set v" "(s_moffset a < ts) = (s_moffset b < ts)" for a b
      using that p ph(2) fits by (cases at_tail) (fastforce simp: placed_def)+
    then show "phys_sorted (filter (\<lambda>s. s_moffset s < ts) (segs @ v))" "phys_sorted (filter (\<lambda>s. ts \<le> s_moffset s) (segs @ v))"
      using p sv by (auto simp: placed_def sorted_wrt_append)
  qed
  moreover have "kDataStartSector \<le> (if at_tail then dp else dp + len)" "(if at_tail then dp else dp + len) \<le> ts"
    "ts \<le> (if at_tail then tp + len else tp)" using p fits by (auto simp: placed_def)
  ultimately show ?thesis unfolding placed_def by (intro conjI) assumption+
qed

lemma place_loop_ok:
  assumes "place_loop tail l dp tp segs = Inr (l', dp', segs')" "placed T ts l dp tp segs" "tail_ok n tail"
    "\<forall>r \<in> set tail. l \<le> pr_offset r" "l \<le> n" "dp + (n - l) = ts + sum_list (map pr_length tail)" "length segs \<le> kMaxRoIndexSize"
    "\<forall>x \<ge> l. x \<in> T \<longleftrightarrow> x \<in> sectors_of tail"
  shows "\<exists>tp'. placed T ts l' dp' tp' segs' \<and> tp' = tp + sum_list (map pr_length tail) \<and> l' \<le> n \<and> dp' + (n - l') = ts \<and> length segs' \<le> kMaxRoIndexSize \<and>
    (\<forall>x \<ge> l'. x \<notin> T)"
  using assms
proof (induction tail arbitrary: l dp tp segs)
  case (Cons r tail)
  obtain s1 d1 where a1: "append_run l (pr_offset r - l) dp segs = Inr (s1, d1)"
    and run: "bindR (append_run (pr_offset r) (pr_length r) tp s1) (\<lambda>(segs, tp). place_loop tail (pr_end r) d1 tp segs) = Inr (l', dp', segs')"
    using Cons.prems(1) by auto
  then obtain s2 t2 where a2: "append_run (pr_offset r) (pr_length r) tp s1 = Inr (s2, t2)"
    and rest: "place_loop tail (pr_end r) d1 t2 s2 = Inr (l', dp', segs')" by auto
  obtain v where v: "s1 = segs @ v" "d1 = dp + (pr_offset r - l)" "run_of l (pr_offset r - l) dp v" "length s1 \<le> kMaxRoIndexSize"
    using append_run_ok [OF a1 Cons.prems(7)] by blast
  obtain w where w: "s2 = s1 @ w" "t2 = tp + pr_length r" "run_of (pr_offset r) (pr_length r) tp w" "length s2 \<le> kMaxRoIndexSize"
    using append_run_ok [OF a2 v(4)] by blast
  have tl: "tail_ok n tail" "\<forall>q \<in> set tail. pr_end r \<le> pr_offset q" "pr_end r \<le> n" "l \<le> pr_offset r"
    using Cons.prems(3,4) by (auto simp: tail_ok_def)
  have sum: "pr_end r + sum_list (map pr_length tail) \<le> n" using tail_sum [OF tl(1,2,3)] .
  have acc: "d1 + (n - pr_end r) = ts + sum_list (map pr_length tail)"
    using Cons.prems(6) tl(3,4) v(2) by (simp add: pr_end_def)
  have "dp + (pr_offset r - l) \<le> ts" using acc sum v(2) by linarith
  moreover have "x \<notin> T" if "l \<le> x" "x < pr_offset r" for x
    using that Cons.prems(8) tl(2) by (fastforce simp: sectors_of_def pr_end_def)
  ultimately have "placed T ts (pr_offset r) d1 tp s1"
    using placed_append [OF Cons.prems(2), of "pr_offset r - l" False v] v tl(4) by simp
  from placed_append [OF this, of "pr_length r" True w] have pl: "placed T ts (pr_end r) d1 t2 s2"
    using w Cons.prems(8) tl(4) by (simp add: pr_end_def sectors_of_def)
  have "\<forall>x \<ge> pr_end r. x \<in> T \<longleftrightarrow> x \<in> sectors_of tail" using Cons.prems(8) tl(4) by (auto simp: sectors_of_def pr_end_def)
  from Cons.IH [OF rest pl tl(1,2,3) acc w(4) this] show ?case using w(2) by (auto simp: add.assoc)
qed (auto simp: sectors_of_def)

lemma place_segments_ok:
  assumes "place_segments n tail ts = Inr segs" "tail_ok n tail" "ts = kDataStartSector + n - sum_list (map pr_length tail)"
  shows "placed (sectors_of tail) ts n ts (kDataStartSector + n) segs" "length segs \<le> kMaxRoIndexSize"
proof -
  obtain l dp s1 where pl: "place_loop tail 0 kDataStartSector ts [] = Inr (l, dp, s1)"
    and ar: "bindR (append_run l (n - l) dp s1) (\<lambda>(segs, _). Inr segs) = Inr segs"
    using assms(1) by (auto simp: place_segments_def)
  then obtain d1 where ar: "append_run l (n - l) dp s1 = Inr (segs, d1)" by auto
  have sum: "sum_list (map pr_length tail) \<le> n" using tail_sum [OF assms(2), of 0] by simp
  let ?T = "sectors_of tail"
  have "placed ?T ts 0 kDataStartSector ts []" using assms(3) sum by (simp add: placed_def)
  from place_loop_ok [OF pl this assms(2)] sum assms(3) obtain tp where
    p: "placed ?T ts l dp tp s1" "tp = kDataStartSector + n" "l \<le> n" "dp + (n - l) = ts" "length s1 \<le> kMaxRoIndexSize" "\<forall>x \<ge> l. x \<notin> ?T"
    by auto
  obtain v where v: "segs = s1 @ v" "run_of l (n - l) dp v" "length segs \<le> kMaxRoIndexSize"
    using append_run_ok [OF ar p(5)] by blast
  show "length segs \<le> kMaxRoIndexSize" by fact
  show "placed ?T ts n ts (kDataStartSector + n) segs"
    using placed_append [OF p(1), of "n - l" False v] v p by simp
qed

section \<open>Copying the payload\<close>

lemma file_write_append: "file_write (off + length a) b (file_write off a f) = file_write off (a @ b) f"
proof (cases "a = [] \<or> b = []")
  case False
  show ?thesis
  proof (rule nth_equalityI)
    show len: "length (file_write (off + length a) b (file_write off a f)) = length (file_write off (a @ b) f)"
      using False by (auto simp: length_file_write)
    fix i assume "i < length (file_write (off + length a) b (file_write off a f))"
    then show "file_write (off + length a) b (file_write off a f) ! i = file_write off (a @ b) f ! i"
      using len False by (auto simp: file_write_nth length_file_write nth_append)
  qed
qed (auto simp: file_write_def)

lemma write_all_None: "write_all b off f io = (None, f', io') \<Longrightarrow> f' = file_write off b f"
  by (auto simp: write_all_def split: outcome.splits)

lemma copy_extent_ok:
  assumes "copy_extent input src dst n copied out io = (Inr out', io')" "copied \<le> n"
  shows "out' = file_write (dst + copied) (get_bytes (src + copied) (n - copied) input) out \<and> (copied < n \<longrightarrow> src + n \<le> length input)"
  using assms
proof (induction "n - copied" arbitrary: copied out io rule: less_induct)
  case less
  show ?case
  proof (cases "copied \<ge> n")
    case True
    then show ?thesis using less.prems by (simp add: copy_extent.simps file_write_def)
  next
    case False
    let ?c = "min kCopyBuffer (n - copied)"
    have c: "0 < ?c" "?c \<le> n - copied" using False by (auto simp: kCopyBuffer_def)
    obtain r io1 where rd: "read_all ?c (src + copied) input io = (r, io1)" by (cases "read_all ?c (src + copied) input io")
    note run = less.prems(1) [unfolded copy_extent.simps [of input src dst n copied] if_not_P [OF False] Let_def rd prod.case]
    obtain buf where r: "r = Inr buf" using run by (cases r) auto
    have buf: "buf = get_bytes (src + copied) ?c input" "src + copied + ?c \<le> length input" using read_all_Inr rd r by blast+
    obtain w o1 io2 where wr: "write_all buf (dst + copied) out io1 = (w, o1, io2)" by (cases "write_all buf (dst + copied) out io1")
    note run = run [unfolded r sum.case wr prod.case]
    have w: "w = None" using run by (cases w) auto
    have o1: "o1 = file_write (dst + copied) buf out" using write_all_None wr w by blast
    have len: "length buf = ?c" using buf by (simp add: length_get_bytes)
    have lt: "n - (copied + ?c) < n - copied" "copied + ?c \<le> n" using c by auto
    have "copy_extent input src dst n (copied + ?c) o1 io2 = (Inr out', io')" using run w by simp
    from less.hyps [OF lt(1) this lt(2)] have IH:
      "out' = file_write (dst + (copied + ?c)) (get_bytes (src + (copied + ?c)) (n - (copied + ?c)) input) o1"
      "copied + ?c < n \<longrightarrow> src + n \<le> length input" by auto
    have "out' = file_write (dst + copied) (buf @ get_bytes (src + copied + ?c) (n - copied - ?c) input) out"
      using IH(1) file_write_append [of "dst + copied" buf _ out] by (simp add: o1 len add.assoc)
    moreover have "get_bytes (src + copied) (n - copied) input = buf @ get_bytes (src + copied + ?c) (n - copied - ?c) input"
      using get_bytes_append [of "src + copied" ?c "n - copied - ?c" input] c buf(1) by simp
    moreover have "src + n \<le> length input" using IH(2) buf(2) c lt(2) by (cases "copied + ?c < n") auto
    ultimately show ?thesis by simp
  qed
qed

text \<open>The payload of a mapping is in the output.\<close>

definition copied_in :: "bytes \<Rightarrow> bytes \<Rightarrow> segment_mapping \<Rightarrow> bool" where
  "copied_in input f s \<longleftrightarrow> \<not> s_zeroed s \<and> seg_mend s * kAlignment \<le> length f \<and> seg_end s * kAlignment \<le> length input \<and>
     get_bytes (s_moffset s * kAlignment) (s_length s * kAlignment) f = get_bytes (s_offset s * kAlignment) (s_length s * kAlignment) input"

lemma copy_pass_ok:
  assumes "copy_pass input ts at_tail segs out io = (Inr out', io')"
    "phys_sorted (filter (\<lambda>s. (ts \<le> s_moffset s) = at_tail) segs)" "\<forall>s \<in> set segs. 0 < s_length s \<and> \<not> s_zeroed s"
    "\<forall>s \<in> set prev. copied_in input out s" "\<forall>a \<in> set prev. \<forall>b \<in> set segs. (ts \<le> s_moffset b) = at_tail \<longrightarrow> seg_mend a \<le> s_moffset b"
    "\<forall>s \<in> set segs. (ts \<le> s_moffset s) = at_tail \<longrightarrow> seg_mend s * kAlignment \<le> B" "length out \<le> B"
  shows "(\<forall>s \<in> set prev \<union> {s \<in> set segs. (ts \<le> s_moffset s) = at_tail}. copied_in input out' s) \<and> length out \<le> length out' \<and> length out' \<le> B"
  using assms
proof (induction segs arbitrary: out io prev)
  case (Cons s segs)
  show ?case
  proof (cases "(ts \<le> s_moffset s) = at_tail")
    case False
    have "copy_pass input ts at_tail segs out io = (Inr out', io')" using Cons.prems(1) False by simp
    moreover have "phys_sorted (filter (\<lambda>s. (ts \<le> s_moffset s) = at_tail) segs)" using Cons.prems(2) False by simp
    ultimately have "(\<forall>s \<in> set prev \<union> {s \<in> set segs. (ts \<le> s_moffset s) = at_tail}. copied_in input out' s) \<and> length out \<le> length out' \<and> length out' \<le> B"
      using Cons.IH Cons.prems(3-7) by simp
    then show ?thesis using False by auto
  next
    case True
    obtain r io1 where ex: "copy_extent input (s_offset s * kAlignment) (s_moffset s * kAlignment) (s_length s * kAlignment) 0 out io = (r, io1)"
      by (cases "copy_extent input (s_offset s * kAlignment) (s_moffset s * kAlignment) (s_length s * kAlignment) 0 out io")
    have "r \<noteq> Inl e" for e using Cons.prems(1) True ex by auto
    then obtain o1 where r: "r = Inr o1" by (cases r) auto
    have run: "copy_pass input ts at_tail segs o1 io1 = (Inr out', io')" using Cons.prems(1) True ex r by simp
    have len: "0 < s_length s * kAlignment" using Cons.prems(3) by (simp add: kAlignment_def)
    let ?d = "get_bytes (s_offset s * kAlignment) (s_length s * kAlignment) input"
    have o1: "o1 = file_write (s_moffset s * kAlignment) ?d out" and inp: "seg_end s * kAlignment \<le> length input"
      using copy_extent_ok [OF ex [unfolded r]] len by (simp_all add: seg_end_def add_mult_distrib)
    have ld: "length ?d = s_length s * kAlignment" using inp by (simp add: length_get_bytes seg_end_def add_mult_distrib)
    have mend: "seg_mend s * kAlignment = s_moffset s * kAlignment + length ?d" using Cons.prems(3) ld by (simp add: seg_mend_def add_mult_distrib)
    have ne: "?d \<noteq> []" using ld len by (cases ?d) simp_all
    have lo1: "length o1 = max (length out) (seg_mend s * kAlignment)" using ne mend by (simp add: o1 length_file_write)
    have cs: "copied_in input o1 s"
      using get_file_write_same [of "s_moffset s * kAlignment" ?d out] inp lo1 ld Cons.prems(3) by (simp add: copied_in_def o1)
    have cp: "copied_in input o1 t" if t: "t \<in> set prev" for t
    proof -
      have "copied_in input out t" "seg_mend t \<le> s_moffset s" using Cons.prems(4,5) t True by auto
      moreover have "seg_mend t * kAlignment \<le> s_moffset s * kAlignment" using \<open>seg_mend t \<le> s_moffset s\<close> by (rule mult_le_mono1)
      moreover have "s_moffset t * kAlignment + s_length t * kAlignment = seg_mend t * kAlignment"
        using \<open>copied_in input out t\<close> by (simp add: copied_in_def seg_mend_def add_mult_distrib)
      ultimately show ?thesis
        using get_file_write_outside [of "s_moffset t * kAlignment" "s_length t * kAlignment" out "s_moffset s * kAlignment" ?d] lo1
        by (simp add: copied_in_def o1 le_max_iff_disj)
    qed
    have c1: "\<forall>t \<in> set (s # prev). copied_in input o1 t" using cs cp by simp
    have c2: "\<forall>a \<in> set (s # prev). \<forall>b \<in> set segs. (ts \<le> s_moffset b) = at_tail \<longrightarrow> seg_mend a \<le> s_moffset b"
      using Cons.prems(2,5) True by auto
    have c3: "phys_sorted (filter (\<lambda>s. (ts \<le> s_moffset s) = at_tail) segs)" using Cons.prems(2) True by simp
    have c4: "length o1 \<le> B" using lo1 Cons.prems(6,7) True by simp
    have c5: "\<forall>s \<in> set segs. 0 < s_length s \<and> \<not> s_zeroed s" "\<forall>s \<in> set segs. (ts \<le> s_moffset s) = at_tail \<longrightarrow> seg_mend s * kAlignment \<le> B"
      using Cons.prems(3,6) by simp_all
    from Cons.IH [OF run c3 c5(1) c1 c2 c5(2) c4]
    have "(\<forall>t \<in> set (s # prev) \<union> {s \<in> set segs. (ts \<le> s_moffset s) = at_tail}. copied_in input out' t) \<and>
        length o1 \<le> length out' \<and> length out' \<le> B" .
    then show ?thesis using lo1 by auto
  qed
qed auto

section \<open>The written layer\<close>

lemma serialize_Inr: "serialize_ht ht = Inr r \<Longrightarrow> ht_strings_ok ht \<and> r = ht_fields ht"
  using serialize_ht_ok [of ht] serialize_ht_error [of ht] by (cases "ht_strings_ok ht") auto

lemma finish_layer_ok:
  fixes ht :: HeaderTrailer
  assumes run: "finish_layer ht segs index_offset total_size out io = (Inr f, io')"
    and total: "total_size = index_offset + length segs * kEncodedSize + kSpace"
    and len: "kSpace \<le> length out" "length out \<le> index_offset" and segs: "segs \<noteq> []"
  defines "h \<equiv> set_flag_bit kFlagShiftHeader ht" and "t \<equiv> clr_flag_bit kFlagShiftHeader (set_flag_bit kFlagShiftHeader ht)"
  shows "f = sealed_file h (drop kSpace (out @ zeros (index_offset - length out))) segs [] t" "ht_strings_ok h" "ht_strings_ok t"
proof -
  let ?ix = "concat (map store_segment_le segs)"
  have lix: "length ?ix = length segs * kEncodedSize" by (rule length_store_segments)
  obtain w o1 io1 where w: "write_all ?ix index_offset out io = (w, o1, io1)" by (cases "write_all ?ix index_offset out io")
  note r = run [unfolded finish_layer_def h_def [symmetric] w prod.case]
  have w': "w = None" using r by (cases w) auto
  have ne: "?ix \<noteq> []" using segs lix by (cases segs) (auto simp: kEncodedSize_def)
  have o1: "o1 = out @ zeros (index_offset - length out) @ ?ix"
    using write_all_None [OF w [unfolded w']] file_write_gap [OF len(2) ne] by simp
  note r = r [unfolded w' option.case]
  obtain rh where rh: "serialize_ht h = Inr rh" using r by (cases "serialize_ht h") auto
  have h: "ht_strings_ok h" "rh = ht_fields h" using serialize_Inr [OF rh] by auto
  obtain w2 o2 io2 where w2: "write_all rh 0 o1 io1 = (w2, o2, io2)" by (cases "write_all rh 0 o1 io1")
  note r = r [unfolded rh sum.case w2 prod.case t_def [symmetric]]
  have w2': "w2 = None" using r by (cases w2) auto
  have lh: "length (ht_fields h) = kSpace" "ht_fields h \<noteq> []" using length_ht_fields [OF h(1)] by (auto simp: kSpace_def)
  have o2: "o2 = ht_fields h @ drop kSpace (out @ zeros (index_offset - length out)) @ ?ix"
    using write_all_None [OF w2 [unfolded w2']] lh len h(2) by (simp add: file_write_def o1)
  note r = r [unfolded w2' option.case]
  obtain rt where rt: "serialize_ht t = Inr rt" using r by (cases "serialize_ht t") (auto simp: h_def t_def)
  have t: "ht_strings_ok t" "rt = ht_fields t" using serialize_Inr [OF rt] by auto
  have rt': "serialize_ht (clr_flag_bit kFlagShiftHeader h) = Inr rt" using rt by (simp add: t_def h_def)
  obtain w3 o3 io3 where w3: "write_all rt (total_size - kSpace) o2 io2 = (w3, o3, io3)" by (cases "write_all rt (total_size - kSpace) o2 io2")
  note r = r [unfolded rt' sum.case w3 prod.case]
  have w3': "w3 = None" using r by (cases w3) auto
  have lt: "length (ht_fields t) = kSpace" using length_ht_fields [OF t(1)] .
  have len2: "length o2 = total_size - kSpace" using lh len lix total by (simp add: o2)
  have o3: "o3 = o2 @ ht_fields t" using write_all_None [OF w3 [unfolded w3']] t(2) len2 file_write_end [of o2] by simp
  have "f = take total_size o3" using r w3' by (cases "sys_call io3") (auto split: option.splits)
  then have "f = o2 @ ht_fields t" using o3 len2 lt total by simp
  then show "f = sealed_file h (drop kSpace (out @ zeros (index_offset - length out))) segs [] t" by (simp add: sealed_file_def o2)
  show "ht_strings_ok h" "ht_strings_ok t" by (rule h(1), rule t(1))
qed

lemma writer_ht_facts:
  fixes rd opts off cnt vs
  defines "h \<equiv> set_flag_bit kFlagShiftHeader (writer_ht rd opts off cnt vs)"
  defines "t \<equiv> clr_flag_bit kFlagShiftHeader h"
  assumes "4 \<le> length rd" "cstr_ok (lw_uuid opts)" "cstr_ok (lw_parent_uuid opts)" "cstr_ok (lw_user_tag opts)" "ht_strings_ok h" "ht_strings_ok t"
  shows "ht_ok h" "is_header h" "is_data_file h" "ht_ok t" "is_trailer t" "is_data_file t" "is_sealed t"
    "\<not> get_flag_bit h kFlagShiftHybridRw" "\<not> get_flag_bit t kFlagShiftHybridRw"
    "ht_index_offset t = of_nat off" "ht_index_size t = of_nat cnt" "ht_virtual_size t = of_nat vs"
proof -
  have "cstr_ok (generate_uuid rd)" using valid_uuid_cstr generate_uuid_valid assms(3) by blast
  then show "ht_ok h" "ht_ok t" using assms
    by (simp_all add: ht_ok_def h_def t_def ht_cstrs_ok_def writer_ht_def set_flag_bit_def clr_flag_bit_def default_ht_def)
  show "is_header h" "is_data_file h" "is_trailer t" "is_data_file t" "is_sealed t"
    "\<not> get_flag_bit h kFlagShiftHybridRw" "\<not> get_flag_bit t kFlagShiftHybridRw"
    by (simp_all add: h_def t_def writer_ht_def set_flag_bit_def clr_flag_bit_def default_ht_def is_header_def is_data_file_def is_trailer_def
      is_sealed_def get_flag_bit_def kFlagShiftType_def kFlagShiftHeader_def kFlagShiftSealed_def kFlagShiftHybridRw_def)
  show "ht_index_offset t = of_nat off" "ht_index_size t = of_nat cnt" "ht_virtual_size t = of_nat vs"
    by (simp_all add: h_def t_def writer_ht_def set_flag_bit_def clr_flag_bit_def)
qed

text \<open>The payload of \<open>n\<close> sectors is placed and copied into \<open>out\<close>.\<close>

definition laid_out :: "bytes \<Rightarrow> nat \<Rightarrow> nat set \<Rightarrow> nat \<Rightarrow> segment_mapping list \<Rightarrow> bytes \<Rightarrow> bool" where
  "laid_out input n T ts segs out \<longleftrightarrow> 0 < n \<and> placed T ts n ts (kDataStartSector + n) segs \<and> length segs \<le> kMaxRoIndexSize \<and>
     (\<forall>s \<in> set segs. copied_in input out s) \<and> kSpace \<le> length out \<and> length out \<le> kSpace + n * kAlignment"

lemma data_start: "kDataStartSector * kAlignment = kSpace" "(kDataStartSector + n) * kAlignment = kSpace + n * kAlignment"
  by (simp_all add: kDataStartSector_def kSpace_def kAlignment_def)

lemma placed_facts:
  assumes "placed T ts n ts (kDataStartSector + n) segs" "s \<in> set segs"
  shows "s_tag s = 0" "\<not> s_zeroed s" "s_length s \<le> kMaxLength" "seg_end s \<le> n" "kDataStartSector \<le> s_moffset s"
    "s_moffset s < ts \<Longrightarrow> seg_mend s \<le> ts" "seg_mend s \<le> kDataStartSector + n" "0 < s_length s" "seg_mend s * kAlignment \<le> kSpace + n * kAlignment"
proof -
  show "s_tag s = 0" "\<not> s_zeroed s" "s_length s \<le> kMaxLength" "seg_end s \<le> n" "kDataStartSector \<le> s_moffset s"
    "s_moffset s < ts \<Longrightarrow> seg_mend s \<le> ts" "0 < s_length s"
    using assms by (auto simp: placed_def wf_segs_def)
  show m: "seg_mend s \<le> kDataStartSector + n" using assms by (fastforce simp: placed_def split: if_splits)
  show "seg_mend s * kAlignment \<le> kSpace + n * kAlignment" using mult_le_mono1 [OF m, of kAlignment] by (simp add: data_start)
qed

lemma copied_payload:
  assumes p: "placed T ts n ts (kDataStartSector + n) segs" and c: "length segs \<le> kMaxRoIndexSize" "0 < n"
    and p1: "copy_pass input ts False segs (zeros kSpace) io = (Inr o2, io2)" and p2: "copy_pass input ts True segs o2 io2 = (Inr o3, io3)"
  shows "laid_out input n T ts segs o3"
proof -
  have srt: "phys_sorted (filter (\<lambda>s. (ts \<le> s_moffset s) = b) segs)" for b
    using p by (cases b) (simp_all add: placed_def not_le)
  let ?B = "kSpace + n * kAlignment"
  have f: "\<forall>s \<in> set segs. \<not> s_zeroed s \<and> 0 < s_length s \<and> (s_moffset s < ts \<longrightarrow> seg_mend s \<le> ts) \<and> seg_mend s * kAlignment \<le> ?B"
    using placed_facts [OF p] by simp
  have c1: "(\<forall>s \<in> set [] \<union> {s \<in> set segs. (ts \<le> s_moffset s) = False}. copied_in input o2 s) \<and> length (zeros kSpace) \<le> length o2 \<and> length o2 \<le> ?B"
    using f by (intro copy_pass_ok [OF p1 srt]) auto
  let ?prev = "filter (\<lambda>s. s_moffset s < ts) segs"
  have c2: "(\<forall>s \<in> set ?prev \<union> {s \<in> set segs. (ts \<le> s_moffset s) = True}. copied_in input o3 s) \<and> length o2 \<le> length o3 \<and> length o3 \<le> ?B"
    using f c1 by (intro copy_pass_ok [OF p2 srt]) fastforce+
  have "copied_in input o3 s" if "s \<in> set segs" for s using c2 that by (cases "s_moffset s < ts") auto
  then show ?thesis using p c c1 c2 by (auto simp: laid_out_def)
qed

lemma write_single_layer_parts:
  fixes opts rd in_size
  assumes run: "write_lsmt_single_layer rd opts input in_size io = (Inr f, io')"
  defines "n \<equiv> in_size div kAlignment"
  obtains ts segs out h t where "laid_out input n (sectors_of (lw_tail_ranges opts)) ts segs out" "n * kAlignment = in_size" "n \<le> kMaxOffset"
    "h = set_flag_bit kFlagShiftHeader (writer_ht rd opts (kSpace + in_size) (length segs) in_size)" "t = clr_flag_bit kFlagShiftHeader h"
    "ht_strings_ok h" "ht_strings_ok t" "f = sealed_file h (drop kSpace (out @ zeros (kSpace + in_size - length out))) segs [] t"
proof -
  note r = run [unfolded write_lsmt_single_layer_def Let_def n_def [symmetric]]
  have c: "\<not> (in_size = 0 \<or> in_size mod kAlignment \<noteq> 0)" "\<not> n > kMaxOffset" "\<not> length (lw_tail_ranges opts) > kMaxRoIndexSize"
    using r by (auto split: if_splits)
  note r = r [unfolded if_not_P [OF c(1)] if_not_P [OF c(2)] if_not_P [OF c(3)]]
  obtain tail k where tl: "tail_loop n (lw_tail_ranges opts) [] 0 = Inr (tail, k)"
    using r by (cases "tail_loop n (lw_tail_ranges opts) [] 0") auto
  define ts where "ts = kDataStartSector + n - k"
  note r = r [unfolded tl sum.case prod.case ts_def [symmetric]]
  obtain segs where pl: "place_segments n tail ts = Inr segs" using r by (cases "place_segments n tail ts") auto
  note r = r [unfolded pl sum.case]
  obtain a io1 where a: "sys_call io = (a, io1)" by (cases "sys_call io")
  note r = r [unfolded a prod.case]
  have a': "a = None" using r by (cases a) auto
  obtain w o1 io2 where w: "write_all (zeros kSpace) 0 [] io1 = (w, o1, io2)" by (cases "write_all (zeros kSpace) 0 [] io1")
  note r = r [unfolded a' option.case w prod.case]
  have w': "w = None" using r by (cases w) auto
  have o1: "o1 = zeros kSpace" using write_all_None [OF w [unfolded w']] by (auto simp: file_write_def)
  obtain p1 io3 where p1: "copy_pass input ts False segs o1 io2 = (p1, io3)" by (cases "copy_pass input ts False segs o1 io2")
  note r = r [unfolded w' option.case p1 prod.case]
  obtain o2 where o2: "p1 = Inr o2" using r by (cases p1) auto
  obtain p2 io4 where p2: "copy_pass input ts True segs o2 io3 = (p2, io4)" by (cases "copy_pass input ts True segs o2 io3")
  note r = r [unfolded o2 sum.case p2 prod.case]
  obtain o3 where o3: "p2 = Inr o3" using r by (cases p2) auto
  note r = r [unfolded o3 sum.case]
  have tail: "tail_ok n tail" "k = sum_list (map pr_length tail)" "sectors_of tail = sectors_of (lw_tail_ranges opts)"
    using tail_loop_ok [OF tl] by (auto simp: tail_ok_def sectors_of_def)
  note placed = place_segments_ok [OF pl tail(1) ts_def [unfolded tail(2)], unfolded tail(3)]
  have size: "n * kAlignment = in_size" "0 < n" using c(1) by (auto simp: n_def mod_eq_0_iff_dvd kAlignment_def)
  note laid = copied_payload [OF placed size(2) p1 [unfolded o1 o2] p2 [unfolded o3]]
  have "segs \<noteq> []" using placed(1) size(2) by (auto simp: placed_def)
  note fin = finish_layer_ok [OF r refl _ _ this]
  show thesis using laid size(1) c(2) fin by (intro that [OF laid size(1) _ refl refl]) (simp_all add: laid_out_def)
qed

lemma laid_out_opens:
  assumes laid: "laid_out input n T ts segs out" and size: "n * kAlignment = in_size" "n \<le> kMaxOffset"
    and h: "h = set_flag_bit kFlagShiftHeader (writer_ht rd opts (kSpace + in_size) (length segs) in_size)" and t: "t = clr_flag_bit kFlagShiftHeader h"
    and ok: "ht_strings_ok h" "ht_strings_ok t" and strs: "4 \<le> length rd" "cstr_ok (lw_uuid opts)" "cstr_ok (lw_parent_uuid opts)" "cstr_ok (lw_user_tag opts)"
    and fault: "\<And>n k. fault n k = None"
  defines "f \<equiv> sealed_file h (drop kSpace (out @ zeros (kSpace + in_size - length out))) segs [] t"
  shows "\<exists>l. layer_open (Some (local_file f fault)) = Inr l \<and> l_segments l = segs \<and> unat (ht_virtual_size (l_ht l)) = in_size"
proof -
  let ?B = "kSpace + in_size" and ?data = "drop kSpace (out @ zeros (kSpace + in_size - length out))"
  note hts = writer_ht_facts [OF strs ok [unfolded t, unfolded h], folded h, folded t]
  have p: "placed T ts n ts (kDataStartSector + n) segs" using laid by (simp add: laid_out_def)
  have P: "\<forall>s \<in> set segs. s_tag s = 0 \<and> \<not> s_zeroed s \<and> s_length s \<le> kMaxLength \<and> seg_end s \<le> n \<and>
      kDataStartSector \<le> s_moffset s \<and> seg_mend s \<le> kDataStartSector + n \<and> 0 < s_length s" using placed_facts [OF p] by simp
  have data: "kSpace + length ?data = ?B" using laid size(1) by (simp add: laid_out_def)
  have lim: "?B < U64" "in_size < U64" "length segs < U64" "length segs \<le> kMaxRoIndexSize"
    using size laid by (auto simp: laid_out_def U64_def kMaxOffset_def kSpace_def kMaxRoIndexSize_def kAlignment_def)
  have T: "unat (ht_index_offset t) = kSpace + length ?data" "unat (ht_index_size t) = length segs" "unat (ht_virtual_size t) = in_size"
    unfolding hts data using lim by (simp_all add: unat_of_u64 del: of_nat_add)
  have fits: "\<forall>s \<in> set segs. seg_fits s \<and> s_offset s \<noteq> kInvalidOffset"
    using P size(2) by (fastforce simp: seg_fits_def seg_end_def seg_mend_def kInvalidOffset_def kMaxMoffset_def kMaxOffset_def
      kDataStartSector_def kSpace_def kAlignment_def)
  have ord: "ordered segs" using p by (simp add: ordered_sorted wf_segs_def placed_def)
  have tags: "map (\<lambda>s. s\<lparr>s_tag := 0\<rparr>) segs = segs" using P by (intro map_idI) simp
  have mend: "?B div kAlignment = kDataStartSector + n" using data_start(2) [of n] size(1) by (simp add: kAlignment_def)
  have chk: "check_segments (check_segment False None (min_tag segs) in_size (kDataStartSector + n)) segs = Inr segs"
    using P by (intro check_segments_id) (auto simp: check_segment_def moffset_ok_def seg_mend_def)
  have "\<exists>l. open_impl (Some (local_file (sealed_file h ?data segs [] t) fault)) None = Inr l \<and>
      l_segments l = segs \<and> l_ht l = t\<lparr>ht_index_size := of_nat (length segs)\<rparr> \<and>
      l_src l = (case None of None \<Rightarrow> local_file (sealed_file h ?data segs [] t) fault
        | Some w \<Rightarrow> warp_source (local_file (sealed_file h ?data segs [] t) fault) w (warp_base (length (sealed_file h ?data segs [] t))))"
    by (rule open_sealed_file [where tgt = None, OF hts(1-9) T(1,2) lim(4) fits ord fault])
      (simp_all only: warp_layout_def data mend tags T(3) chk if_False HOL.simp_thms option.case)
  then show ?thesis using T(3) by (auto simp: layer_open_def f_def)
qed

lemma laid_out_sector:
  assumes laid: "laid_out input n T ts segs out" and size: "n * kAlignment = in_size" and ok: "ht_strings_ok h" "ht_strings_ok t" and x: "x < n"
  defines "f \<equiv> sealed_file h (drop kSpace (out @ zeros (kSpace + in_size - length out))) segs [] t"
  shows "sector_bytes [f] (lookup segs x) = get_bytes (x * kAlignment) kAlignment input"
proof -
  have p: "placed T ts n ts (kDataStartSector + n) segs" "length out \<le> kSpace + in_size" "kSpace \<le> length out"
    using laid size by (auto simp: laid_out_def)
  note P = placed_facts [OF p(1)]
  have lf: "length out \<le> length f" using sealed_file_regions(4) [OF ok] p(2) by (simp add: f_def)
  have tailf: "get_bytes k m f = get_bytes k m out" if "kSpace \<le> k" "k + m \<le> length out" for k m
    using that length_ht_fields [OF ok(1)] unfolding f_def sealed_file_def by (simp add: get_bytes_def)
  obtain p where p: "lookup segs x = Some (0, Some p)" using p(1) x by (auto simp: placed_def)
  then obtain s where s: "s \<in> set segs" "covers s x" "p = s_moffset s + (x - s_offset s)"
    using lookup_SomeD [OF p] by (auto simp: place_def split: if_splits)
  let ?d = "x - s_offset s"
  have cov: "s_offset s \<le> x" "?d < s_length s" using s(2) by (auto simp: covers_def seg_end_def)
  have ci: "seg_mend s * kAlignment \<le> length out" "get_bytes (s_moffset s * kAlignment) (s_length s * kAlignment) out =
      get_bytes (s_offset s * kAlignment) (s_length s * kAlignment) input" "\<not> s_zeroed s"
    using laid s(1) by (auto simp: laid_out_def copied_in_def)
  have ins: "?d * kAlignment + kAlignment \<le> s_length s * kAlignment"
    using mult_le_mono1 [of "Suc ?d" "s_length s" kAlignment] cov(2) by simp
  have pos: "p * kAlignment = s_moffset s * kAlignment + ?d * kAlignment" "x * kAlignment = s_offset s * kAlignment + ?d * kAlignment"
    using s(3) cov(1) by (simp_all flip: add_mult_distrib)
  have hi: "p * kAlignment + kAlignment \<le> length out"
    using ci(1,3) ins pos(1) by (simp add: seg_mend_def add_mult_distrib)
  have lo: "kSpace \<le> p * kAlignment"
    using mult_le_mono1 [of kDataStartSector p kAlignment] P(5) [OF s(1)] s(3) data_start(1) by simp
  have "get_bytes (p * kAlignment) kAlignment f = get_bytes (?d * kAlignment) kAlignment (get_bytes (s_moffset s * kAlignment) (s_length s * kAlignment) out)"
    using tailf [OF lo hi] get_get_bytes [OF ins, of "s_moffset s * kAlignment" out] pos(1) by simp
  also have "\<dots> = get_bytes (x * kAlignment) kAlignment input" unfolding ci(2) get_get_bytes [OF ins] pos(2) ..
  finally have eq: "get_bytes (p * kAlignment) kAlignment f = get_bytes (x * kAlignment) kAlignment input" .
  have "length (get_bytes (p * kAlignment) kAlignment f) = kAlignment" using hi lf by (simp add: length_get_bytes)
  then show ?thesis using p by (simp add: sector_bytes_def padded_get eq)
qed

text \<open>C8: Building a single-layer image.  When \<open>write_lsmt_single_layer\<close> returns, whatever the tail ranges were, the file opens
  as a layer of the input's size whose index maps every sector to the input's bytes and nothing beyond the end.  Sectors of the
  requested tail ranges lie behind all others in the file.\<close>

theorem write_single_layer_correct:
  assumes run: "write_lsmt_single_layer rd opts input in_size io = (Inr f, io')" and rd: "4 \<le> length rd"
    and strs: "cstr_ok (lw_uuid opts)" "cstr_ok (lw_parent_uuid opts)" "cstr_ok (lw_user_tag opts)"
    and fault: "\<And>n k. fault n k = None"
  shows "\<exists>l. layer_open (Some (local_file f fault)) = Inr l \<and> wf_segs (l_segments l) \<and> unat (ht_virtual_size (l_ht l)) = in_size \<and>
    in_size \<le> length input \<and>
    (\<forall>x. sector_bytes [f] (lookup (l_segments l) x) = (if x * kAlignment < in_size then get_bytes (x * kAlignment) kAlignment input else zeros kAlignment)) \<and>
    (\<forall>x y p q. lookup (l_segments l) x = Some (0, Some p) \<longrightarrow> lookup (l_segments l) y = Some (0, Some q) \<longrightarrow>
       x \<notin> sectors_of (lw_tail_ranges opts) \<longrightarrow> y \<in> sectors_of (lw_tail_ranges opts) \<longrightarrow> p < q)"
proof -
  define n where "n = in_size div kAlignment"
  let ?T = "sectors_of (lw_tail_ranges opts)"
  obtain ts segs out h t where laid: "laid_out input n ?T ts segs out" and size: "n * kAlignment = in_size" "n \<le> kMaxOffset"
    and ht: "h = set_flag_bit kFlagShiftHeader (writer_ht rd opts (kSpace + in_size) (length segs) in_size)" "t = clr_flag_bit kFlagShiftHeader h"
    and ok: "ht_strings_ok h" "ht_strings_ok t" and f: "f = sealed_file h (drop kSpace (out @ zeros (kSpace + in_size - length out))) segs [] t"
    using write_single_layer_parts [OF run] unfolding n_def .
  have p: "placed ?T ts n ts (kDataStartSector + n) segs" "0 < n" using laid by (auto simp: laid_out_def)
  have cls: "\<exists>p. lookup segs x = Some (0, Some p) \<and> (ts \<le> p \<longleftrightarrow> x \<in> ?T)" if "x < n" for x using p(1) that by (auto simp: placed_def)
  obtain l where l: "layer_open (Some (local_file f fault)) = Inr l" "l_segments l = segs" "unat (ht_virtual_size (l_ht l)) = in_size"
    using laid_out_opens [OF laid size ht ok rd strs, of fault] fault f by blast
  have beyond: "lookup segs x = None" if "\<not> x < n" for x using that placed_facts(4) [OF p(1)] by (intro lookup_above) force
  have lt: "x * kAlignment < in_size \<longleftrightarrow> x < n" for x unfolding size(1) [symmetric] by (simp add: kAlignment_def)
  have inp: "in_size \<le> length input"
  proof -
    obtain p where "lookup segs (n - 1) = Some (0, Some p)" using cls [of "n - 1"] p(2) by auto
    then obtain s where s: "s \<in> set segs" "covers s (n - 1)" using lookup_SomeD by fastforce
    then have "seg_end s * kAlignment \<le> length input" "n \<le> seg_end s" using laid by (auto simp: laid_out_def copied_in_def covers_def)
    then show ?thesis using mult_le_mono1 [of n "seg_end s" kAlignment] size(1) by linarith
  qed
  have order: "p < q" if "lookup segs x = Some (0, Some p)" "lookup segs y = Some (0, Some q)" "x \<notin> ?T" "y \<in> ?T" for x y p q
  proof -
    have "x < n" "y < n" using that(1,2) beyond by fastforce+
    then have "\<not> ts \<le> p" "ts \<le> q" using cls that by fastforce+
    then show ?thesis by simp
  qed
  have "sector_bytes [f] (lookup segs x) = (if x * kAlignment < in_size then get_bytes (x * kAlignment) kAlignment input else zeros kAlignment)" for x
    unfolding lt using laid_out_sector [OF laid size(1) ok] beyond f by (simp add: sector_bytes_def)
  moreover have "wf_segs segs" using p(1) by (simp add: placed_def)
  ultimately show ?thesis using l inp order by auto
qed

text \<open>Two sectors, the first of them in the tail class.\<close>

definition tail_options :: LsmtWriteOptions where
  "tail_options = \<lparr>lw_uuid = [], lw_parent_uuid = [], lw_user_tag = [0x61], lw_tail_ranges = [\<lparr>pr_offset = 0, pr_length = 1\<rparr>]\<rparr>"

lemma finish_layer_succeeds:
  assumes "ht_strings_ok ht"
  shows "\<exists>f. finish_layer ht segs index_offset total_size out [] = (Inr f, [])"
proof -
  have "ht_strings_ok (set_flag_bit k ht)" "ht_strings_ok (clr_flag_bit k (set_flag_bit k ht))" for k
    using assms by (simp_all add: ht_strings_ok_def set_flag_bit_def clr_flag_bit_def)
  then show ?thesis by (simp add: finish_layer_def serialize_ht_ok)
qed

lemma tail_sample_writes: "\<exists>f. write_lsmt_single_layer [1, 2, 3, 4] tail_options (replicate 512 7 @ replicate 512 9) 1024 [] = (Inr f, [])"
proof -
  let ?s0 = "\<lparr>s_offset = 0, s_length = 1, s_moffset = 9, s_zeroed = False, s_tag = 0\<rparr>"
  let ?s1 = "\<lparr>s_offset = 1, s_length = 1, s_moffset = 8, s_zeroed = False, s_tag = 0\<rparr>"
  have pl: "place_segments 2 [\<lparr>pr_offset = 0, pr_length = 1\<rparr>] 9 = Inr [?s0, ?s1]"
    by (simp add: place_segments_def append_run.simps pr_end_def kMaxLength_def kDataStartSector_def kSpace_def kAlignment_def kMaxRoIndexSize_def)
  have tl: "tail_loop 2 (lw_tail_ranges tail_options) [] 0 = Inr ([\<lparr>pr_offset = 0, pr_length = 1\<rparr>], 1)"
    by (simp add: tail_options_def)
  have cp: "\<exists>o2. copy_pass (replicate 512 7 @ replicate 512 9) 9 b [?s0, ?s1] out [] = (Inr o2, [])" for b out
    by (cases b) (simp_all add: copy_extent.simps kCopyBuffer_def kAlignment_def)
  have "length (generate_uuid [1, 2, 3, 4]) = 36" using generate_uuid_valid [of "[1, 2, 3, 4]"] valid_uuid_cstr by simp
  then have ok: "ht_strings_ok (writer_ht [1, 2, 3, 4] tail_options a b c)" for a b c
    by (simp add: ht_strings_ok_def writer_ht_def tail_options_def set_flag_bit_def)
  have c: "(1024 :: nat) div kAlignment = 2" "(1024 :: nat) mod kAlignment = 0" "kDataStartSector + 2 - 1 = 9"
    "length (lw_tail_ranges tail_options) = 1"
    by (simp_all add: kAlignment_def kDataStartSector_def kSpace_def tail_options_def)
  obtain o1 where o1: "copy_pass (replicate 512 7 @ replicate 512 9) 9 False [?s0, ?s1] (file_write 0 (zeros kSpace) []) [] = (Inr o1, [])"
    using cp by blast
  obtain o2 where o2: "copy_pass (replicate 512 7 @ replicate 512 9) 9 True [?s0, ?s1] o1 [] = (Inr o2, [])" using cp by blast
  show ?thesis
    unfolding write_lsmt_single_layer_def Let_def c tl sum.case prod.case pl calls_ok option.case o1 o2
    using finish_layer_succeeds [OF ok] by (simp add: kMaxOffset_def kMaxRoIndexSize_def)
qed

theorem write_single_layer_correct_witness:
  "\<exists>f l. write_lsmt_single_layer [1, 2, 3, 4] tail_options (replicate 512 7 @ replicate 512 9) 1024 [] = (Inr f, []) \<and>
     layer_open (Some (local_file f (\<lambda>_ _. None))) = Inr l \<and>
     sector_bytes [f] (lookup (l_segments l) 0) = replicate 512 7 \<and> sector_bytes [f] (lookup (l_segments l) 1) = replicate 512 9 \<and>
     sector_bytes [f] (lookup (l_segments l) 2) = zeros kAlignment"
proof -
  obtain f where f: "write_lsmt_single_layer [1, 2, 3, 4] tail_options (replicate 512 7 @ replicate 512 9) 1024 [] = (Inr f, [])"
    using tail_sample_writes by blast
  have strs: "cstr_ok (lw_uuid tail_options)" "cstr_ok (lw_parent_uuid tail_options)" "cstr_ok (lw_user_tag tail_options)"
    by (simp_all add: tail_options_def cstr_ok_def)
  obtain l where l: "layer_open (Some (local_file f (\<lambda>_ _. None))) = Inr l" "\<And>x. sector_bytes [f] (lookup (l_segments l) x) =
      (if x * kAlignment < 1024 then get_bytes (x * kAlignment) kAlignment (replicate 512 7 @ replicate 512 9) else zeros kAlignment)"
    using write_single_layer_correct [OF f _ strs, of "\<lambda>_ _. None"] by auto
  show ?thesis
    using f l(1) l(2) [of 0] l(2) [of 1] l(2) [of 2] by (intro exI [of _ f] exI [of _ l]) (simp add: kAlignment_def get_bytes_def)
qed

text \<open>C27: Generated identifiers.  Whatever the random device returns, \<open>generate_uuid\<close> produces a string that the format accepts as
  an identifier: 36 characters, hexadecimal digits in groups of 8, 4, 4, 4 and 12.\<close>

theorem generate_uuid_wellformed:
  assumes "4 \<le> length rd" shows "valid_uuid (generate_uuid rd)"
  using assms by (rule generate_uuid_valid)

theorem generate_uuid_wellformed_witness: "valid_uuid (generate_uuid [0, 0xFFFFFFFF, 3, 4])"
  using generate_uuid_wellformed [of "[0, 0xFFFFFFFF, 3, 4]"] by simp

section \<open>Warp metadata layers\<close>

definition max_file :: nat where "max_file = 2 ^ 63 - 1"

text \<open>The validation loop: local mappings are renumbered to compact sectors of the output.\<close>

fun warp_check :: "nat \<Rightarrow> nat \<Rightarrow> nat \<Rightarrow> nat \<Rightarrow> bool \<Rightarrow> bool \<Rightarrow> segment_mapping list
    \<Rightarrow> (segment_mapping list \<times> nat \<times> bool \<times> bool) result" where
  "warp_check vsectors input_sectors e data_end is_local is_remote [] = Inr ([], data_end, is_local, is_remote)"
| "warp_check vsectors input_sectors e data_end is_local is_remote (m # ms) =
     (if s_tag m > 1 \<or> s_length m = 0 \<or> s_length m > kMaxLength \<or> s_offset m \<ge> kInvalidOffset \<or> s_offset m < e \<or>
         s_offset m > vsectors \<or> s_length m > vsectors - s_offset m \<or> s_moffset m > kMaxMoffset \<or>
         (\<not> s_zeroed m \<and> s_length m > kMaxMoffset - s_moffset m) then Inl EINVAL
      else if s_tag m = 0 then
        (if \<not> s_zeroed m \<and> (s_moffset m > input_sectors \<or> s_length m > input_sectors - s_moffset m) then Inl EINVAL
         else if \<not> s_zeroed m \<and> s_length m * kAlignment > max_file - data_end then Inl EINVAL
         else
           let m' = m\<lparr>s_moffset := data_end div kAlignment\<rparr>;
               data_end = (if s_zeroed m then data_end else data_end + s_length m * kAlignment)
           in bindR (warp_check vsectors input_sectors (seg_end m) data_end True is_remote ms) (\<lambda>(segs, r). Inr (m' # segs, r)))
      else bindR (warp_check vsectors input_sectors (seg_end m) data_end is_local True ms) (\<lambda>(segs, r). Inr (m # segs, r)))"

fun warp_copy :: "bytes \<Rightarrow> segment_mapping list \<Rightarrow> segment_mapping list \<Rightarrow> bytes \<Rightarrow> script \<Rightarrow> bytes result \<times> script" where
  "warp_copy metadata (m # segs) (orig # mappings) out io =
     (if s_tag m \<noteq> 0 \<or> s_zeroed m then warp_copy metadata segs mappings out io
      else case copy_extent metadata (s_moffset orig * kAlignment) (s_moffset m * kAlignment) (s_length m * kAlignment) 0 out io of
        (Inl e, io) \<Rightarrow> (Inl e, io)
      | (Inr out, io) \<Rightarrow> warp_copy metadata segs mappings out io)"
| "warp_copy metadata _ _ out io = (Inr out, io)"

text \<open>\<open>readable\<close>: the descriptor is open for reading. \<open>aliased\<close>: the output is the input file. The file that existed under the
  output name is truncated after the checks.\<close>

definition write_warp_output :: "bytes \<Rightarrow> bytes \<Rightarrow> bytes \<Rightarrow> segment_mapping list \<Rightarrow> segment_mapping list \<Rightarrow> nat \<Rightarrow> bytes \<Rightarrow> script
    \<Rightarrow> bytes result \<times> script" where
  "write_warp_output header trailer index segs mappings data_end metadata io =
     (case write_all header 0 [] io of (Some e, _, io) \<Rightarrow> (Inl e, io) | (None, out, io) \<Rightarrow>
     (case warp_copy metadata segs mappings out io of (Inl e, io) \<Rightarrow> (Inl e, io) | (Inr out, io) \<Rightarrow>
     (case (if index = [] then (None, out, io) else write_all index data_end out io) of (Some e, _, io) \<Rightarrow> (Inl e, io) | (None, out, io) \<Rightarrow>
     (case write_all trailer (data_end + length index) out io of (Some e, _, io) \<Rightarrow> (Inl e, io) | (None, out, io) \<Rightarrow>
     (case sys_call io of (Some e, io) \<Rightarrow> (Inl e, io) | (None, io) \<Rightarrow> (Inr (take (data_end + length index + kSpace) out), io))))))"

definition write_lsmt_warp_layer :: "32 word list \<Rightarrow> LsmtWriteOptions \<Rightarrow> bool \<Rightarrow> bool \<Rightarrow> bytes \<Rightarrow> nat \<Rightarrow> segment_mapping list \<Rightarrow> script
    \<Rightarrow> bytes result \<times> script" where
  "write_lsmt_warp_layer rd opts readable aliased metadata virtual_size mappings io =
     (if virtual_size = 0 \<or> virtual_size mod kAlignment \<noteq> 0 \<or> virtual_size div kAlignment > kMaxOffset \<or>
         length mappings > kMaxRoIndexSize then (Inl EINVAL, io)
      else case sys_call io of (Some e, io) \<Rightarrow> (Inl e, io) | (None, io) \<Rightarrow>
      (case sys_call io of (Some e, io) \<Rightarrow> (Inl e, io) | (None, io) \<Rightarrow>
      (if \<not> readable then (Inl EINVAL, io)
      else case warp_check (virtual_size div kAlignment) (length metadata div kAlignment) 0 kSpace False False mappings of
        Inl e \<Rightarrow> (Inl e, io)
      | Inr (segs, data_end, is_local, is_remote) \<Rightarrow>
          if is_remote \<and> \<not> is_local then (Inl EINVAL, io)
          else if length segs * kEncodedSize + kSpace > max_file - data_end then (Inl EINVAL, io)
          else
            let ht = writer_ht rd opts data_end (length segs) virtual_size in
            (case serialize_ht ht of Inl e \<Rightarrow> (Inl e, io) | Inr trailer \<Rightarrow>
            (case serialize_ht (set_flag_bit kFlagShiftHeader ht) of Inl e \<Rightarrow> (Inl e, io) | Inr header \<Rightarrow>
            (case sys_call io of (Some e, io) \<Rightarrow> (Inl e, io) | (None, io) \<Rightarrow>
            (case sys_call io of (Some e, io) \<Rightarrow> (Inl e, io) | (None, io) \<Rightarrow>
            (if aliased then (Inl EINVAL, io)
            else case sys_call io of (Some e, io) \<Rightarrow> (Inl e, io) | (None, io) \<Rightarrow>
              write_warp_output header trailer (concat (map store_segment_le segs)) segs mappings data_end metadata io))))))))"

section \<open>The compact payload\<close>

definition meta_bytes :: "bytes \<Rightarrow> segment_mapping \<Rightarrow> bytes" where
  "meta_bytes metadata m =
     (if s_tag m = 0 \<and> \<not> s_zeroed m then get_bytes (s_moffset m * kAlignment) (s_length m * kAlignment) metadata else [])"

fun renumber :: "bytes \<Rightarrow> nat \<Rightarrow> segment_mapping list \<Rightarrow> segment_mapping list" where
  "renumber metadata de [] = []"
| "renumber metadata de (m # ms) =
     (if s_tag m = 0 then m\<lparr>s_moffset := de div kAlignment\<rparr> else m) # renumber metadata (de + length (meta_bytes metadata m)) ms"

text \<open>What a mapping of the input satisfies.\<close>

definition warp_input_ok :: "nat \<Rightarrow> nat \<Rightarrow> segment_mapping \<Rightarrow> bool" where
  "warp_input_ok vs isec m \<longleftrightarrow> s_tag m \<le> 1 \<and> 0 < s_length m \<and> s_length m \<le> kMaxLength \<and> s_offset m < kInvalidOffset \<and> seg_end m \<le> vs \<and>
     s_moffset m \<le> kMaxMoffset \<and> (s_tag m = 0 \<and> \<not> s_zeroed m \<longrightarrow> s_moffset m + s_length m \<le> isec)"

lemma whole_sectors: "k \<le> n div kAlignment \<Longrightarrow> k * kAlignment \<le> n"
  using mult_le_mono1 [of k "n div kAlignment" kAlignment] div_times_less_eq_dividend [of n kAlignment] by linarith

lemma length_meta_bytes:
  assumes "warp_input_ok vs (length metadata div kAlignment) m"
  shows "length (meta_bytes metadata m) = (if s_tag m = 0 \<and> \<not> s_zeroed m then s_length m * kAlignment else 0)"
proof -
  have "(s_moffset m + s_length m) * kAlignment \<le> length metadata" if "s_tag m = 0" "\<not> s_zeroed m"
    by (rule whole_sectors) (use assms that in \<open>simp add: warp_input_ok_def\<close>)
  then show ?thesis by (auto simp: meta_bytes_def length_get_bytes add_mult_distrib)
qed

lemma warp_check_ok:
  assumes "warp_check vs (length metadata div kAlignment) e de loc rem ms = Inr (segs, de', loc', rem')" "de \<le> max_file"
  shows "segs = renumber metadata de ms \<and> de' = de + length (concat (map (meta_bytes metadata) ms)) \<and> de' \<le> max_file \<and>
    wf_segs ms \<and> (\<forall>m \<in> set ms. e \<le> s_offset m \<and> warp_input_ok vs (length metadata div kAlignment) m) \<and>
    (rem' \<longleftrightarrow> rem \<or> (\<exists>m \<in> set ms. s_tag m = 1)) \<and> (loc' \<longleftrightarrow> loc \<or> (\<exists>m \<in> set ms. s_tag m = 0))"
  using assms
proof (induction ms arbitrary: e de loc rem segs)
  case (Cons m ms)
  let ?isec = "length metadata div kAlignment"
  have ok: "warp_input_ok vs ?isec m" "e \<le> s_offset m"
    using Cons.prems(1) by (auto simp: warp_input_ok_def seg_end_def not_less split: if_splits)
  note lm = length_meta_bytes [OF ok(1)]
  have room: "s_tag m = 0 \<and> \<not> s_zeroed m \<longrightarrow> s_length m * kAlignment \<le> max_file - de"
    using Cons.prems(1) by (auto split: if_splits)
  let ?de = "de + length (meta_bytes metadata m)"
  obtain segs2 where rest: "warp_check vs ?isec (seg_end m) ?de (loc \<or> s_tag m = 0) (rem \<or> s_tag m = 1) ms = Inr (segs2, de', loc', rem')"
    and segs: "segs = (if s_tag m = 0 then m\<lparr>s_moffset := de div kAlignment\<rparr> else m) # segs2"
    using Cons.prems(1) ok(1) lm by (cases "s_tag m = 0") (auto simp: warp_input_ok_def Let_def le_Suc_eq split: if_splits)
  have de: "?de \<le> max_file" using room lm Cons.prems(2) by auto
  note IH = Cons.IH [OF rest de]
  have "wf_segs (m # ms)" using IH ok(1) by (auto simp: wf_segs_Cons warp_input_ok_def)
  moreover have "\<forall>q \<in> set ms. e \<le> s_offset q" using IH ok by (fastforce simp: seg_end_def)
  ultimately show ?case using IH segs ok by auto
qed simp

lemma warp_copy_ok:
  assumes "warp_copy metadata (renumber metadata de ms) ms out io = (Inr out', io')" "length out = de" "kAlignment dvd de"
    "\<forall>m \<in> set ms. warp_input_ok vs (length metadata div kAlignment) m"
  shows "out' = out @ concat (map (meta_bytes metadata) ms)"
  using assms
proof (induction ms arbitrary: de out io)
  case (Cons m ms)
  note lm = length_meta_bytes [of vs metadata m]
  show ?case
  proof (cases "s_tag m = 0 \<and> \<not> s_zeroed m")
    case False
    then have "meta_bytes metadata m = []" by (auto simp: meta_bytes_def)
    then show ?thesis using Cons.IH [of de out io] Cons.prems False by (cases "s_tag m = 0") simp_all
  next
    case True
    have dv: "de div kAlignment * kAlignment = de" using Cons.prems(3) by simp
    let ?src = "s_moffset m * kAlignment" and ?n = "s_length m * kAlignment"
    obtain r io1 where ex: "copy_extent metadata ?src de ?n 0 out io = (r, io1)" by (cases "copy_extent metadata ?src de ?n 0 out io")
    have "r \<noteq> Inl e" for e using Cons.prems(1) True ex dv by auto
    then obtain o1 where r: "r = Inr o1" by (cases r) auto
    have "o1 = file_write de (meta_bytes metadata m) out" using copy_extent_ok [OF ex [unfolded r]] True by (simp add: meta_bytes_def)
    then have o1: "o1 = out @ meta_bytes metadata m" using Cons.prems(2) file_write_end by metis
    have "warp_copy metadata (renumber metadata (de + length (meta_bytes metadata m)) ms) ms o1 io1 = (Inr out', io')"
      using Cons.prems(1) True ex dv r by simp
    moreover have "kAlignment dvd de + length (meta_bytes metadata m)" using lm Cons.prems(3,4) True by simp
    ultimately show ?thesis using Cons.IH [of "de + length (meta_bytes metadata m)" o1 io1] Cons.prems(2,4) o1 by simp
  qed
qed simp

text \<open>What opening makes of a mapping.\<close>

definition opened :: "nat \<Rightarrow> segment_mapping \<Rightarrow> segment_mapping" where
  "opened base m = (if s_tag m = 1 \<and> \<not> s_zeroed m then m\<lparr>s_tag := 0, s_moffset := s_moffset m + base div kAlignment\<rparr> else m\<lparr>s_tag := 0\<rparr>)"

lemma sector_of_bytes:
  assumes "get_bytes off (n * kAlignment) C = get_bytes src (n * kAlignment) D" "off + n * kAlignment \<le> length C" "src + n * kAlignment \<le> length D" "d < n"
  shows "padded (off + d * kAlignment) kAlignment C = padded (src + d * kAlignment) kAlignment D"
proof -
  have le: "d * kAlignment + kAlignment \<le> n * kAlignment" using mult_le_mono1 [of "Suc d" n kAlignment] assms(4) by simp
  have "get_bytes (off + d * kAlignment) kAlignment C = get_bytes (src + d * kAlignment) kAlignment D"
    using get_get_bytes [OF le, of off C] get_get_bytes [OF le, of src D] assms(1) by simp
  then show ?thesis using le assms(2,3) by (simp add: padded_get length_get_bytes)
qed

lemma opened_sector:
  assumes "C = pre @ concat (map (meta_bytes metadata) ms) @ post" "length pre = de" "kAlignment dvd de" "wf_segs ms"
    "\<forall>m \<in> set ms. warp_input_ok vs (length metadata div kAlignment) m"
    "\<forall>m \<in> set ms. s_tag m = 1 \<and> \<not> s_zeroed m \<longrightarrow> s_moffset m + s_length m \<le> length t div kAlignment"
    "drop base C = t" "kAlignment dvd base" "base \<le> length C"
  shows "sector_bytes [C] (lookup (map (opened base) (renumber metadata de ms)) x) = sector_bytes [metadata, t] (lookup ms x)"
  using assms(1-6)
proof (induction ms arbitrary: pre de)
  case (Cons m ms)
  let ?m = "if s_tag m = 0 then m\<lparr>s_moffset := de div kAlignment\<rparr> else m" and ?b = "meta_bytes metadata m"
  have ok: "warp_input_ok vs (length metadata div kAlignment) m" using Cons.prems(5) by simp
  note lm = length_meta_bytes [OF ok]
  have cov: "covers (opened base ?m) x = covers m x" by (simp add: opened_def covers_def seg_end_def)
  show ?case
  proof (cases "covers m x")
    case False
    have "C = (pre @ ?b) @ concat (map (meta_bytes metadata) ms) @ post" "length (pre @ ?b) = de + length ?b" "kAlignment dvd de + length ?b"
      using Cons.prems(1,2,3) lm by simp_all
    from Cons.IH [OF this] show ?thesis using Cons.prems(4-6) False cov by (simp add: wf_segs_Cons)
  next
    case True
    let ?d = "x - s_offset m"
    have d: "?d < s_length m" using True by (auto simp: covers_def seg_end_def)
    consider "s_zeroed m" | "\<not> s_zeroed m" "s_tag m = 0" | "\<not> s_zeroed m" "s_tag m = 1" using ok by (auto simp: warp_input_ok_def le_Suc_eq)
    then show ?thesis
    proof cases
      case 1
      then show ?thesis using True cov by (simp add: opened_def place_def sector_bytes_def)
    next
      case 2
      have b: "?b = get_bytes (s_moffset m * kAlignment) (s_length m * kAlignment) metadata" using 2 by (simp add: meta_bytes_def)
      have lb: "length ?b = s_length m * kAlignment" using lm 2 by simp
      have g: "get_bytes de (s_length m * kAlignment) C = get_bytes (s_moffset m * kAlignment) (s_length m * kAlignment) metadata"
        unfolding b [symmetric] using Cons.prems(1,2) lb by (simp add: get_bytes_def)
      have le: "(s_moffset m + s_length m) * kAlignment \<le> length metadata"
        by (rule whole_sectors) (use ok 2 in \<open>simp add: warp_input_ok_def\<close>)
      have "padded (de + ?d * kAlignment) kAlignment C = padded (s_moffset m * kAlignment + ?d * kAlignment) kAlignment metadata"
        using Cons.prems(1,2) lb le by (intro sector_of_bytes [OF g _ _ d]) (simp_all add: add_mult_distrib)
      moreover have "(de div kAlignment + ?d) * kAlignment = de + ?d * kAlignment" using Cons.prems(3) by (simp add: add_mult_distrib)
      ultimately show ?thesis using True cov 2 by (simp add: opened_def place_def sector_bytes_def add_mult_distrib)
    next
      case 3
      have le: "(s_moffset m + s_length m) * kAlignment \<le> length t"
        by (rule whole_sectors) (use Cons.prems(6) 3 in simp)
      have g: "get_bytes (base + s_moffset m * kAlignment) (s_length m * kAlignment) C = get_bytes (s_moffset m * kAlignment) (s_length m * kAlignment) t"
        unfolding assms(7) [symmetric] by (simp add: get_bytes_def add.commute)
      have lt: "length C = base + length t" using assms(7,9) by auto
      have "padded (base + s_moffset m * kAlignment + ?d * kAlignment) kAlignment C = padded (s_moffset m * kAlignment + ?d * kAlignment) kAlignment t"
        using le lt by (intro sector_of_bytes [OF g _ _ d]) (simp_all add: add_mult_distrib)
      moreover have "(s_moffset m + base div kAlignment + ?d) * kAlignment = base + s_moffset m * kAlignment + ?d * kAlignment"
        using assms(8) by (simp add: add_mult_distrib)
      ultimately show ?thesis using True cov 3 by (simp add: opened_def place_def sector_bytes_def add_mult_distrib add_ac)
    qed
  qed
qed (simp add: sector_bytes_def)

section \<open>The written warp layer\<close>

lemma clr_set_writer_ht: "clr_flag_bit kFlagShiftHeader (set_flag_bit kFlagShiftHeader (writer_ht rd opts a b c)) = writer_ht rd opts a b c"
  by (simp add: writer_ht_def set_flag_bit_def clr_flag_bit_def default_ht_def kFlagShiftHeader_def kFlagShiftType_def kFlagShiftSealed_def)

lemma write_warp_output_ok:
  assumes run: "write_warp_output (ht_fields h) (ht_fields t) (concat (map store_segment_le segs)) segs ms de metadata io = (Inr f, io')"
    and segs: "segs = renumber metadata kSpace ms" and de: "de = kSpace + length (concat (map (meta_bytes metadata) ms))"
    and ok: "\<forall>m \<in> set ms. warp_input_ok vs (length metadata div kAlignment) m" and strs: "ht_strings_ok h" "ht_strings_ok t"
  shows "f = sealed_file h (concat (map (meta_bytes metadata) ms)) segs [] t"
proof -
  let ?ix = "concat (map store_segment_le segs)" and ?d = "concat (map (meta_bytes metadata) ms)"
  have lh: "length (ht_fields h) = kSpace" "length (ht_fields t) = kSpace" using length_ht_fields strs by auto
  obtain w o1 io1 where w: "write_all (ht_fields h) 0 [] io = (w, o1, io1)" by (cases "write_all (ht_fields h) 0 [] io")
  note r = run [unfolded write_warp_output_def w prod.case]
  have w': "w = None" using r by (cases w) auto
  have o1: "o1 = ht_fields h" using write_all_None [OF w [unfolded w']] by (auto simp: file_write_def)
  obtain p io2 where p: "warp_copy metadata segs ms o1 io1 = (p, io2)" by (cases "warp_copy metadata segs ms o1 io1")
  note r = r [unfolded w' option.case p prod.case]
  obtain o2 where p': "p = Inr o2" using r by (cases p) auto
  have o2: "o2 = ht_fields h @ ?d"
    using warp_copy_ok [OF p [unfolded p' segs] _ _ ok] lh o1 by (simp add: kSpace_def kAlignment_def)
  obtain w3 o3 io3 where w3: "(if ?ix = [] then (None, o2, io2) else write_all ?ix de o2 io2) = (w3, o3, io3)"
    by (cases "if ?ix = [] then (None, o2, io2) else write_all ?ix de o2 io2")
  note r = r [unfolded p' sum.case w3 prod.case]
  have w3': "w3 = None" using r by (cases w3) auto
  have len2: "length o2 = de" using o2 lh de by simp
  have o3: "o3 = o2 @ ?ix"
  proof (cases "?ix = []")
    case True
    then show ?thesis using w3 by simp
  next
    case False
    then show ?thesis using w3 w3' write_all_None [of ?ix de o2 io2] len2 file_write_end [of o2 ?ix] by simp
  qed
  obtain w4 o4 io4 where w4: "write_all (ht_fields t) (de + length ?ix) o3 io3 = (w4, o4, io4)"
    by (cases "write_all (ht_fields t) (de + length ?ix) o3 io3")
  note r = r [unfolded w3' option.case w4 prod.case]
  have w4': "w4 = None" using r by (cases w4) auto
  have len3: "length o3 = de + length ?ix" using o3 len2 by simp
  have o4: "o4 = o3 @ ht_fields t" using write_all_None [OF w4 [unfolded w4']] file_write_end [of o3] len3 by simp
  have "f = take (de + length ?ix + kSpace) o4" using r w4' by (cases "sys_call io4") (auto split: option.splits)
  then show ?thesis using o4 len3 lh by (simp add: o3 o2 sealed_file_def)
qed

lemma write_warp_parts:
  fixes rd opts virtual_size metadata mappings
  assumes run: "write_lsmt_warp_layer rd opts readable aliased metadata virtual_size mappings io = (Inr f, io')"
  defines "de \<equiv> kSpace + length (concat (map (meta_bytes metadata) mappings))" and "segs \<equiv> renumber metadata kSpace mappings"
  defines "t \<equiv> writer_ht rd opts de (length segs) virtual_size"
  defines "h \<equiv> set_flag_bit kFlagShiftHeader t"
  shows "0 < virtual_size \<and> virtual_size mod kAlignment = 0 \<and> virtual_size div kAlignment \<le> kMaxOffset \<and> length mappings \<le> kMaxRoIndexSize"
    "\<not> aliased" "wf_segs mappings" "\<forall>m \<in> set mappings. warp_input_ok (virtual_size div kAlignment) (length metadata div kAlignment) m"
    "(\<exists>m \<in> set mappings. s_tag m = 1) \<longrightarrow> (\<exists>m \<in> set mappings. s_tag m = 0)" "de + length segs * kEncodedSize + kSpace \<le> max_file"
    "ht_strings_ok t" "ht_strings_ok h" "f = sealed_file h (concat (map (meta_bytes metadata) mappings)) segs [] t"
proof -
  let ?c = "virtual_size = 0 \<or> virtual_size mod kAlignment \<noteq> 0 \<or> virtual_size div kAlignment > kMaxOffset \<or> length mappings > kMaxRoIndexSize"
  note r = run [unfolded write_lsmt_warp_layer_def]
  have c: "\<not> ?c"
  proof
    assume "?c"
    then show False using r by (simp only: if_P) simp
  qed
  note r = r [unfolded if_not_P [OF c]]
  obtain a1 io1 where a1: "sys_call io = (a1, io1)" by (cases "sys_call io")
  note r = r [unfolded a1 prod.case]
  have a1': "a1 = None" using r by (cases a1) auto
  obtain a2 io2 where a2: "sys_call io1 = (a2, io2)" by (cases "sys_call io1")
  note r = r [unfolded a1' option.case a2 prod.case]
  have a2': "a2 = None" using r by (cases a2) auto
  note r = r [unfolded a2' option.case]
  have rd: "\<not> \<not> readable" using r by (cases readable) auto
  note r = r [unfolded if_not_P [OF rd]]
  obtain v where v: "warp_check (virtual_size div kAlignment) (length metadata div kAlignment) 0 kSpace False False mappings = Inr v"
    using r by (cases "warp_check (virtual_size div kAlignment) (length metadata div kAlignment) 0 kSpace False False mappings") auto
  obtain s' d' l' r' where v': "v = (s', d', l', r')" by (cases v)
  note wc = warp_check_ok [OF v [unfolded v']]
  have eq: "s' = segs" "d' = de" "d' \<le> max_file" using wc by (auto simp: segs_def de_def kSpace_def max_file_def)
  note r = r [unfolded v v' sum.case prod.case eq(1,2)]
  have c2: "\<not> (r' \<and> \<not> l')" "\<not> length segs * kEncodedSize + kSpace > max_file - de" using r by (auto split: if_splits)
  note r = r [unfolded if_not_P [OF c2(1)] if_not_P [OF c2(2)] Let_def t_def [symmetric] h_def [symmetric]]
  obtain rt where rt: "serialize_ht t = Inr rt" using r by (cases "serialize_ht t") auto
  note r = r [unfolded rt sum.case]
  obtain rh where rh: "serialize_ht h = Inr rh" using r by (cases "serialize_ht h") auto
  note r = r [unfolded rh sum.case]
  obtain a3 io3 where a3: "sys_call io2 = (a3, io3)" by (cases "sys_call io2")
  note r = r [unfolded a3 prod.case]
  have a3': "a3 = None" using r by (cases a3) auto
  obtain a4 io4 where a4: "sys_call io3 = (a4, io4)" by (cases "sys_call io3")
  note r = r [unfolded a3' option.case a4 prod.case]
  have a4': "a4 = None" using r by (cases a4) auto
  note r = r [unfolded a4' option.case]
  show al: "\<not> aliased" using r by (cases aliased) auto
  note r = r [unfolded if_not_P [OF al]]
  obtain a5 io5 where a5: "sys_call io4 = (a5, io5)" by (cases "sys_call io4")
  note r = r [unfolded a5 prod.case]
  have a5': "a5 = None" using r by (cases a5) auto
  note r = r [unfolded a5' option.case]
  have s: "ht_strings_ok t" "rt = ht_fields t" "ht_strings_ok h" "rh = ht_fields h" using serialize_Inr rt rh by auto
  show "0 < virtual_size \<and> virtual_size mod kAlignment = 0 \<and> virtual_size div kAlignment \<le> kMaxOffset \<and> length mappings \<le> kMaxRoIndexSize"
    using c by auto
  show "wf_segs mappings" and ok: "\<forall>m \<in> set mappings. warp_input_ok (virtual_size div kAlignment) (length metadata div kAlignment) m"
    "(\<exists>m \<in> set mappings. s_tag m = 1) \<longrightarrow> (\<exists>m \<in> set mappings. s_tag m = 0)"
    using wc c2(1) by (auto simp: kSpace_def max_file_def)
  show "de + length segs * kEncodedSize + kSpace \<le> max_file" using c2(2) eq by simp
  show "ht_strings_ok t" "ht_strings_ok h" using s by auto
  show "f = sealed_file h (concat (map (meta_bytes metadata) mappings)) segs [] t"
    using write_warp_output_ok [OF r [unfolded s(2,4)] segs_def [THEN meta_eq_to_obj_eq] de_def [THEN meta_eq_to_obj_eq] ok(1) s(3,1)] .
qed

lemma renumber_set:
  assumes "s \<in> set (renumber metadata de ms)" "\<forall>m \<in> set ms. warp_input_ok vs (length metadata div kAlignment) m" "kAlignment dvd de"
  shows "\<exists>m \<in> set ms. s_offset s = s_offset m \<and> s_length s = s_length m \<and> s_zeroed s = s_zeroed m \<and> s_tag s = s_tag m \<and>
    (s_tag m \<noteq> 0 \<longrightarrow> s_moffset s = s_moffset m) \<and> (s_tag m = 0 \<longrightarrow> de div kAlignment \<le> s_moffset s \<and>
      seg_mend s * kAlignment \<le> de + length (concat (map (meta_bytes metadata) ms)))"
  using assms
proof (induction ms arbitrary: de)
  case (Cons m ms)
  note lm = length_meta_bytes [of vs metadata m]
  show ?case
  proof (cases "s = (if s_tag m = 0 then m\<lparr>s_moffset := de div kAlignment\<rparr> else m)")
    case True
    then show ?thesis using lm Cons.prems(2,3) by (auto simp: seg_mend_def add_mult_distrib)
  next
    case False
    let ?de = "de + length (meta_bytes metadata m)"
    have "s \<in> set (renumber metadata ?de ms)" "kAlignment dvd ?de" using False Cons.prems lm by auto
    from Cons.IH [OF this(1) _ this(2)] Cons.prems(2) obtain q where q: "q \<in> set ms" "s_offset s = s_offset q \<and> s_length s = s_length q \<and> s_zeroed s = s_zeroed q \<and> s_tag s = s_tag q \<and>
      (s_tag q \<noteq> 0 \<longrightarrow> s_moffset s = s_moffset q) \<and> (s_tag q = 0 \<longrightarrow> ?de div kAlignment \<le> s_moffset s \<and>
      seg_mend s * kAlignment \<le> ?de + length (concat (map (meta_bytes metadata) ms)))" by auto
    have "de div kAlignment \<le> ?de div kAlignment" by (simp add: div_le_mono)
    then show ?thesis using q by (intro bexI [of _ q]) auto
  qed
qed simp

lemma renumber_wf: "wf_segs ms \<Longrightarrow> wf_segs (renumber metadata de ms) \<and> length (renumber metadata de ms) = length ms"
proof -
  have k: "map (\<lambda>s. (s_offset s, s_length s)) (renumber metadata de ms) = map (\<lambda>s. (s_offset s, s_length s)) ms" for de
    by (induction ms arbitrary: de) simp_all
  then have len: "length (renumber metadata de ms) = length ms" by (metis length_map)
  have "(s_offset (renumber metadata de ms ! i), s_length (renumber metadata de ms ! i)) = (s_offset (ms ! i), s_length (ms ! i))" if "i < length ms" for i
    using that arg_cong [OF k [of de], of "\<lambda>l. l ! i"] len by simp
  then have "s_offset (renumber metadata de ms ! i) = s_offset (ms ! i)" "s_length (renumber metadata de ms ! i) = s_length (ms ! i)" if "i < length ms" for i
    using that by auto
  then show "wf_segs ms \<Longrightarrow> wf_segs (renumber metadata de ms) \<and> length (renumber metadata de ms) = length ms"
    using len by (auto simp: wf_segs_def sorted_wrt_iff_nth_less seg_end_def all_set_conv_all_nth)
qed

lemma check_segments_map: "\<forall>s \<in> set v. f s = Inr (g s) \<Longrightarrow> check_segments f v = Inr (map g v)"
  by (induction v) auto

lemma renumber_fits:
  assumes ok: "\<forall>m \<in> set ms. warp_input_ok vs (length metadata div kAlignment) m"
    and de: "kSpace + length (concat (map (meta_bytes metadata) ms)) \<le> 2 ^ 63 - 1"
  shows "\<forall>s \<in> set (renumber metadata kSpace ms). seg_fits s \<and> s_offset s \<noteq> kInvalidOffset"
proof
  fix s assume s: "s \<in> set (renumber metadata kSpace ms)"
  let ?de = "kSpace + length (concat (map (meta_bytes metadata) ms))"
  have dv: "kAlignment dvd kSpace" by (simp add: kSpace_def kAlignment_def)
  obtain m where m: "m \<in> set ms" "s_offset s = s_offset m" "s_length s = s_length m" "s_tag s = s_tag m"
    "s_tag m \<noteq> 0 \<longrightarrow> s_moffset s = s_moffset m" "s_tag m = 0 \<longrightarrow> kSpace div kAlignment \<le> s_moffset s \<and> seg_mend s * kAlignment \<le> ?de"
    using renumber_set [OF s ok dv] by (elim bexE conjE) (rule that; assumption)
  have mo: "warp_input_ok vs (length metadata div kAlignment) m" using ok m(1) by blast
  have "s_moffset s \<le> kMaxMoffset"
  proof (cases "s_tag m = 0")
    case True
    have "s_moffset s * kAlignment \<le> seg_mend s * kAlignment" by (intro mult_le_mono1) (simp add: seg_mend_def)
    also have "\<dots> \<le> ?de" using m(6) True by blast
    also have "\<dots> \<le> 2 ^ 63 - 1" by (rule de)
    finally show ?thesis by (simp add: kAlignment_def kMaxMoffset_def)
  qed (use m(5) mo in \<open>simp add: warp_input_ok_def\<close>)
  then show "seg_fits s \<and> s_offset s \<noteq> kInvalidOffset"
    using m mo by (auto simp: seg_fits_def warp_input_ok_def kInvalidOffset_def)
qed

lemma renumber_tags: "map s_tag (renumber metadata de ms) = map s_tag ms"
  by (induction ms arbitrary: de) simp_all

lemma warp_segment_checks:
  fixes metadata virtual_size ms
  assumes ok: "\<forall>m \<in> set ms. warp_input_ok (virtual_size div kAlignment) (length metadata div kAlignment) m"
    and vs: "virtual_size mod kAlignment = 0" "virtual_size div kAlignment \<le> kMaxOffset"
    and tags: "(\<exists>m \<in> set ms. s_tag m = 1) \<longrightarrow> (\<exists>m \<in> set ms. s_tag m = 0)"
    and target: "\<forall>m \<in> set ms. s_tag m = 1 \<and> \<not> s_zeroed m \<longrightarrow> s_moffset m + s_length m \<le> tsize div kAlignment"
  defines "segs \<equiv> renumber metadata kSpace ms" and "de \<equiv> kSpace + length (concat (map (meta_bytes metadata) ms))"
  shows "check_segments (check_segment False (Some (tsize, base)) (min_tag segs) virtual_size (de div kAlignment)) segs = Inr (map (opened base) segs)"
proof (rule check_segments_map, rule ballI)
  fix s
  assume s: "s \<in> set segs"
  have "kAlignment dvd kSpace" by (simp add: kSpace_def kAlignment_def)
  note rs = renumber_set [OF s [unfolded segs_def] ok this, folded de_def]
  obtain m where m: "m \<in> set ms" "s_offset s = s_offset m" "s_length s = s_length m"
    "s_zeroed s = s_zeroed m" "s_tag s = s_tag m" "s_tag m \<noteq> 0 \<longrightarrow> s_moffset s = s_moffset m"
    "s_tag m = 0 \<longrightarrow> kSpace div kAlignment \<le> s_moffset s \<and> seg_mend s * kAlignment \<le> de"
    using rs by (elim bexE conjE) (rule that; assumption)
  have mo: "warp_input_ok (virtual_size div kAlignment) (length metadata div kAlignment) m" using ok m(1) by blast
  have tg: "set (map s_tag segs) = set (map s_tag ms)" unfolding segs_def using renumber_tags [of metadata kSpace ms] by simp
  have "\<exists>q \<in> set ms. s_tag q = 0" using tags mo m(1) by (cases "s_tag m = 0") (auto simp: warp_input_ok_def le_Suc_eq)
  then have "0 \<in> set (map s_tag segs)" unfolding tg by force
  then obtain q where "q \<in> set segs" "s_tag q = 0" by auto
  then have mt: "min_tag segs = 0" using min_tag_le [of q segs] by simp
  have ext: "logical_extent_ok virtual_size s" "seg_end s \<le> kMaxOffset" "s_tag s \<le> 1"
    using mo m(2-5) vs by (auto simp: logical_extent_ok_def warp_input_ok_def seg_end_def)
  have mok: "moffset_ok False (de div kAlignment) (s\<lparr>s_tag := 0\<rparr>)" if "s_tag m = 0" "\<not> s_zeroed m"
  proof -
    have k: "0 < kAlignment" by (simp add: kAlignment_def)
    have "seg_mend s \<le> de div kAlignment" using m(7) that k by (simp add: less_eq_div_iff_mult_less_eq)
    moreover have "seg_mend s = s_moffset s + s_length s" "0 < s_length s" using that m(3,4) mo by (auto simp: seg_mend_def warp_input_ok_def)
    ultimately show ?thesis using m(4,7) that by (auto simp: moffset_ok_def seg_mend_def kDataStartSector_def)
  qed
  have tok: "\<not> (s_moffset s > tsize div kAlignment \<or> s_length s > tsize div kAlignment - s_moffset s)" if "s_tag m = 1" "\<not> s_zeroed m"
  proof -
    have "s_moffset m + s_length m \<le> tsize div kAlignment" using target m(1) that by blast
    then show ?thesis using m(3,6) that by simp
  qed
  show "check_segment False (Some (tsize, base)) (min_tag segs) virtual_size (de div kAlignment) s = Inr (opened base s)"
    using ext mok tok m(4,5) by (auto simp: check_segment_def mt Let_def opened_def le_Suc_eq)
qed

lemma size_below_U64: "n mod kAlignment = 0 \<Longrightarrow> n div kAlignment \<le> kMaxOffset \<Longrightarrow> n < U64"
proof -
  assume n: "n mod kAlignment = 0" "n div kAlignment \<le> kMaxOffset"
  have "n = n div kAlignment * kAlignment" using n(1) by (simp add: mod_eq_0_iff_dvd)
  moreover have "n div kAlignment * kAlignment \<le> kMaxOffset * kAlignment" using n(2) by (rule mult_le_mono1)
  moreover have "kMaxOffset * kAlignment < U64" by (simp add: U64_def kMaxOffset_def kAlignment_def)
  ultimately show ?thesis by linarith
qed

text \<open>C9: Building a warp layer.  When \<open>write_lsmt_warp_layer\<close> returns, the file opens over any target that has the sectors the
  remote mappings name, and every sector of the opened layer shows what the given mappings describe: metadata sectors for tag 0,
  target sectors for tag 1, zeros for zeroed and unmapped ones.  The metadata input is never overwritten through an alias.\<close>

theorem write_warp_layer_correct:
  assumes run: "write_lsmt_warp_layer rd opts readable aliased metadata virtual_size mappings io = (Inr f, io')" and rd: "4 \<le> length rd"
    and strs: "cstr_ok (lw_uuid opts)" "cstr_ok (lw_parent_uuid opts)" "cstr_ok (lw_user_tag opts)"
    and fault: "\<And>n k. fault n k = None"
    and target: "\<forall>m \<in> set mappings. s_tag m = 1 \<and> \<not> s_zeroed m \<longrightarrow> s_moffset m + s_length m \<le> length t div kAlignment"
      "length t < 2 ^ 63 - kAlignment"
  shows "\<not> aliased \<and> (\<exists>l. layer_open_warp (Some (local_file f fault)) (Some (local_file t fault')) = Inr l \<and>
    unat (ht_virtual_size (l_ht l)) = virtual_size \<and>
    (\<forall>x. sector_bytes [f @ zeros (warp_base (length f) - length f) @ t] (lookup (l_segments l) x) = sector_bytes [metadata, t] (lookup mappings x)))"
proof -
  let ?D = "concat (map (meta_bytes metadata) mappings)" and ?segs = "renumber metadata kSpace mappings"
  let ?de = "kSpace + length ?D"
  let ?t = "writer_ht rd opts ?de (length ?segs) virtual_size"
  let ?h = "set_flag_bit kFlagShiftHeader ?t"
  note p = write_warp_parts [OF run]
  have ok: "\<forall>m \<in> set mappings. warp_input_ok (virtual_size div kAlignment) (length metadata div kAlignment) m" by (rule p(4))
  note hts = writer_ht_facts [OF rd strs, of ?de "length ?segs" virtual_size, unfolded clr_set_writer_ht, OF p(8,7)]
  note wf = renumber_wf [OF p(3), of metadata kSpace]
  have dv: "kAlignment dvd kSpace" by (simp add: kSpace_def kAlignment_def)
  have cap: "?de + length ?segs * kEncodedSize + kSpace \<le> 2 ^ 63 - 1" using p(6) by (simp add: max_file_def)
  have de: "?de \<le> 2 ^ 63 - 1" by (rule order_trans [OF _ cap]) simp
  have lim: "?de < U64" "length ?segs < U64" "virtual_size < U64" "length ?segs \<le> kMaxRoIndexSize"
    using de wf p(1) size_below_U64 [of virtual_size] by (auto simp: U64_def kMaxRoIndexSize_def)
  have T: "unat (ht_index_offset ?t) = ?de" "unat (ht_index_size ?t) = length ?segs" "unat (ht_virtual_size ?t) = virtual_size"
    unfolding hts using lim by (simp_all add: unat_of_u64 del: of_nat_add)
  have fits: "\<forall>s \<in> set ?segs. seg_fits s \<and> s_offset s \<noteq> kInvalidOffset" using renumber_fits [OF ok de] .
  have ord: "ordered ?segs" using wf by (simp add: ordered_sorted wf_segs_def)
  have f: "f = sealed_file ?h ?D ?segs [] ?t" by (rule p(9))
  have lf: "length f \<le> 2 ^ 63 - 1" using cap sealed_file_regions(4) [OF p(8,7), of ?D ?segs "[]"] unfolding f by simp
  define base where "base = warp_base (length f)"
  have base: "kAlignment dvd base" "length f \<le> base" "base \<le> length f + kAlignment"
    using warp_base_props [of "length f"] by (auto simp: base_def warp_base_def kAlignment_def)
  have lay: "warp_layout (length (sealed_file ?h ?D ?segs [] ?t)) (Some (local_file t fault')) (unat (ht_virtual_size ?t)) = Inr (Some (length t, base))"
    unfolding f [symmetric] T(3) using p(1) lf base(3) target(2)
    by (simp add: warp_layout_def base_def [symmetric] local_file_def U64_def kAlignment_def)
  have sel: "map (\<lambda>s. if Some (local_file t fault') \<noteq> None then s else s\<lparr>s_tag := 0\<rparr>) ?segs = ?segs" by simp
  note vs = p(1) [THEN conjunct2, THEN conjunct1] p(1) [THEN conjunct2, THEN conjunct2, THEN conjunct1]
  note chk = warp_segment_checks [OF ok vs p(5) target(1), of base]
  from open_sealed_file [where fault = fault, OF hts(1-9) T(1,2) lim(4) fits ord fault lay, unfolded sel T(3), OF chk]
  obtain l where l: "open_impl (Some (local_file f fault)) (Some (local_file t fault')) = Inr l" "l_segments l = map (opened base) ?segs"
    "ht_virtual_size (l_ht l) = ht_virtual_size ?t" unfolding f by auto
  let ?C = "f @ zeros (base - length f) @ t"
  have "?C = ht_fields ?h @ ?D @ (concat (map store_segment_le ?segs) @ ht_fields ?t @ zeros (base - length f) @ t)"
    by (simp add: f sealed_file_def)
  moreover have "drop base ?C = t" "base \<le> length ?C" using base(2) by simp_all
  ultimately have "sector_bytes [?C] (lookup (l_segments l) x) = sector_bytes [metadata, t] (lookup mappings x)" for x
    unfolding l(2) using opened_sector [OF _ length_ht_fields [OF p(8)] dv p(3) ok target(1) _ base(1)] by blast
  then show ?thesis using l(1,3) T(3) p(2) by (auto simp: layer_open_warp_def base_def)
qed

definition warp_mappings :: "segment_mapping list" where
  "warp_mappings = [\<lparr>s_offset = 0, s_length = 1, s_moffset = 0, s_zeroed = False, s_tag = 0\<rparr>,
     \<lparr>s_offset = 1, s_length = 1, s_moffset = 1, s_zeroed = False, s_tag = 1\<rparr>,
     \<lparr>s_offset = 2, s_length = 1, s_moffset = 0, s_zeroed = True, s_tag = 0\<rparr>]"

lemma warp_sample_writes:
  "\<exists>f. write_lsmt_warp_layer [1, 2, 3, 4] tail_options True False (replicate 512 7) 2048 warp_mappings [] = (Inr f, [])"
proof -
  let ?s = "[\<lparr>s_offset = 0, s_length = 1, s_moffset = 8, s_zeroed = False, s_tag = 0\<rparr>,
     \<lparr>s_offset = 1, s_length = 1, s_moffset = 1, s_zeroed = False, s_tag = 1\<rparr>,
     \<lparr>s_offset = 2, s_length = 1, s_moffset = 9, s_zeroed = True, s_tag = 0\<rparr>]"
  have c: "\<not> ((2048 :: nat) = 0 \<or> (2048 :: nat) mod kAlignment \<noteq> 0 \<or> 2048 div kAlignment > kMaxOffset \<or> length warp_mappings > kMaxRoIndexSize)"
    "(2048 :: nat) div kAlignment = 4" "length (replicate 512 (7 :: byte)) div kAlignment = 1"
    by (simp_all add: kAlignment_def kMaxOffset_def kMaxRoIndexSize_def warp_mappings_def)
  have wc: "warp_check 4 1 0 kSpace False False warp_mappings = Inr (?s, 4608, True, True)"
    by (simp add: warp_mappings_def kMaxLength_def kInvalidOffset_def kMaxOffset_def kMaxMoffset_def max_file_def kSpace_def kAlignment_def seg_end_def)
  have cp: "\<exists>o2. warp_copy (replicate 512 7) ?s warp_mappings out [] = (Inr o2, [])" for out
    by (simp add: warp_mappings_def copy_extent.simps kCopyBuffer_def kAlignment_def)
  have "length (generate_uuid [1, 2, 3, 4]) = 36" using generate_uuid_valid [of "[1, 2, 3, 4]"] valid_uuid_cstr by simp
  then have ok: "ht_strings_ok (writer_ht [1, 2, 3, 4] tail_options a b c)" "ht_strings_ok (set_flag_bit k (writer_ht [1, 2, 3, 4] tail_options a b c))" for a b c k
    by (simp_all add: ht_strings_ok_def writer_ht_def tail_options_def set_flag_bit_def)
  have out: "\<exists>f. write_warp_output h t ix ?s warp_mappings 4608 (replicate 512 7) [] = (Inr f, [])" for h t ix
  proof -
    obtain o2 where "warp_copy (replicate 512 7) ?s warp_mappings (file_write 0 h []) [] = (Inr o2, [])" using cp by blast
    then show ?thesis by (simp add: write_warp_output_def)
  qed
  show ?thesis
    unfolding write_lsmt_warp_layer_def if_not_P [OF c(1)] c(2,3) wc sum.case prod.case calls_ok option.case Let_def serialize_ht_ok [OF ok(1)] serialize_ht_ok [OF ok(2)]
    using out by (simp add: kEncodedSize_def kSpace_def max_file_def kAlignment_def kMaxOffset_def kMaxRoIndexSize_def warp_mappings_def)
qed

theorem write_warp_layer_correct_witness:
  "\<exists>f l. write_lsmt_warp_layer [1, 2, 3, 4] tail_options True False (replicate 512 7) 2048 warp_mappings [] = (Inr f, []) \<and>
     layer_open_warp (Some (local_file f (\<lambda>_ _. None))) (Some (local_file (replicate 1024 9) (\<lambda>_ _. None))) = Inr l \<and>
     sector_bytes [f @ zeros (warp_base (length f) - length f) @ replicate 1024 9] (lookup (l_segments l) 1) =
       sector_bytes [replicate 512 7, replicate 1024 9] (Some (1, Some 1))"
proof -
  obtain f where f: "write_lsmt_warp_layer [1, 2, 3, 4] tail_options True False (replicate 512 7) 2048 warp_mappings [] = (Inr f, [])"
    using warp_sample_writes by blast
  have strs: "cstr_ok (lw_uuid tail_options)" "cstr_ok (lw_parent_uuid tail_options)" "cstr_ok (lw_user_tag tail_options)"
    by (simp_all add: tail_options_def cstr_ok_def)
  have tgt: "\<forall>m \<in> set warp_mappings. s_tag m = 1 \<and> \<not> s_zeroed m \<longrightarrow> s_moffset m + s_length m \<le> length (replicate 1024 (9 :: byte)) div kAlignment"
    by (simp add: warp_mappings_def kAlignment_def)
  have lk: "lookup warp_mappings 1 = Some (1, Some 1)" by (simp add: warp_mappings_def covers_def seg_end_def place_def)
  have "length (replicate 1024 (9 :: byte)) < 2 ^ 63 - kAlignment" by (simp add: kAlignment_def)
  then obtain l where l: "layer_open_warp (Some (local_file f (\<lambda>_ _. None))) (Some (local_file (replicate 1024 9) (\<lambda>_ _. None))) = Inr l"
    "\<And>x. sector_bytes [f @ zeros (warp_base (length f) - length f) @ replicate 1024 9] (lookup (l_segments l) x) =
       sector_bytes [replicate 512 7, replicate 1024 9] (lookup warp_mappings x)"
    using write_warp_layer_correct [where fault = "\<lambda>_ _. None" and fault' = "\<lambda>_ _. None", OF f _ strs _ tgt] by auto
  show ?thesis using f l(1) l(2) [of 1] lk by metis
qed

end
