(* ===== verification/ZFileFormat.thy ===== *)
theory ZFileFormat
  imports LsmtFormat Crc32c
begin

text \<open>
  \<open>src/format/zfile_format.cpp\<close> and its header: the ZFile header and trailer region, its digest, and the jump
  table that maps a block number to a byte offset. Names that the LSMT format also uses carry a \<open>z_\<close>. Offsets are
  natural numbers: the sum of at most \<open>kMaxIndexSize\<close> 32-bit sizes stays below \<open>2 ^ 63\<close>.
\<close>

definition z_kSpace :: nat where "z_kSpace = 512"
definition z_kHeaderSize :: nat where "z_kHeaderSize = 96"
definition kMaxIndexSize :: nat where "kMaxIndexSize = 1000000000"
definition z_kMagic0 :: bytes where "z_kMagic0 = [0x5A, 0x46, 0x69, 0x6C, 0x65, 0x00, 0x01, 0x00]"
definition z_kMagic1 :: bytes where
  "z_kMagic1 = [0x74, 0x75, 0x6A, 0x69, 0x2E, 0x79, 0x79, 0x66, 0x40, 0x41, 0x6C, 0x69, 0x62, 0x61, 0x62, 0x61]"

definition z_kFlagShiftHeader :: nat where "z_kFlagShiftHeader = 0"
definition z_kFlagShiftType :: nat where "z_kFlagShiftType = 1"
definition z_kFlagShiftSealed :: nat where "z_kFlagShiftSealed = 2"
definition kFlagShiftHeaderOverwrite :: nat where "kFlagShiftHeaderOverwrite = 3"
definition kFlagShiftCalcDigest :: nat where "kFlagShiftCalcDigest = 4"
definition kFlagShiftIdxComp :: nat where "kFlagShiftIdxComp = 5"

definition kAlgoMiniLzo :: byte where "kAlgoMiniLzo = 0"
definition kAlgoLz4 :: byte where "kAlgoLz4 = 1"
definition kAlgoZstd :: byte where "kAlgoZstd = 2"

section \<open>Options and header\<close>

record CompressOptions =
  co_block_size :: "32 word"
  co_algo :: byte
  co_level :: byte
  co_use_dict :: byte
  co_reserved :: "32 word"
  co_dict_size :: "32 word"
  co_verify :: byte

definition default_options :: CompressOptions where
  "default_options = \<lparr>co_block_size = 4096, co_algo = kAlgoLz4, co_level = 0, co_use_dict = 0, co_reserved = 0,
     co_dict_size = 0, co_verify = 0\<rparr>"

definition parse_options :: "bytes \<Rightarrow> CompressOptions" where
  "parse_options b = \<lparr>co_block_size = load_u32_le b, co_algo = b ! 4, co_level = b ! 5, co_use_dict = b ! 6,
     co_reserved = load_u32_le (drop 8 b), co_dict_size = load_u32_le (drop 12 b), co_verify = b ! 16\<rparr>"

definition serialize_options :: "nat \<Rightarrow> CompressOptions \<Rightarrow> bytes \<Rightarrow> bytes" where
  "serialize_options p opt b =
     (let b = put_bytes p (store_u32_le (co_block_size opt)) b;
          b = put_bytes (p + 4) [co_algo opt] b;
          b = put_bytes (p + 5) [co_level opt] b;
          b = put_bytes (p + 6) [co_use_dict opt] b;
          b = put_bytes (p + 7) [0] b;
          b = put_bytes (p + 8) (store_u32_le (co_reserved opt)) b;
          b = put_bytes (p + 12) (store_u32_le (co_dict_size opt)) b;
          b = put_bytes (p + 16) [co_verify opt] b
      in put_bytes (p + 17) (zeros 7) b)"

record ZHeader =
  zh_size :: "32 word"
  zh_digest :: "32 word"
  zh_flags :: "64 word"
  zh_index_offset :: "64 word"
  zh_index_size :: "64 word"
  zh_original_file_size :: "64 word"
  zh_index_crc :: "32 word"
  zh_reserved_0 :: "32 word"
  zh_opt :: CompressOptions

definition default_zheader :: ZHeader where
  "default_zheader = \<lparr>zh_size = of_nat z_kHeaderSize, zh_digest = 0, zh_flags = 0, zh_index_offset = 0, zh_index_size = 0,
     zh_original_file_size = 0, zh_index_crc = 0, zh_reserved_0 = 0, zh_opt = default_options\<rparr>"

definition z_get_flag :: "ZHeader \<Rightarrow> nat \<Rightarrow> bool" where
  "z_get_flag ht shift \<longleftrightarrow> drop_bit shift (zh_flags ht) AND 1 = 1"

definition z_set_flag :: "nat \<Rightarrow> ZHeader \<Rightarrow> ZHeader" where
  "z_set_flag shift ht = ht\<lparr>zh_flags := zh_flags ht OR push_bit shift 1\<rparr>"

definition z_clr_flag :: "nat \<Rightarrow> ZHeader \<Rightarrow> ZHeader" where
  "z_clr_flag shift ht = ht\<lparr>zh_flags := zh_flags ht AND NOT (push_bit shift 1)\<rparr>"

definition z_parse :: "bytes \<Rightarrow> ZHeader result" where
  "z_parse b =
     (if get_bytes 0 8 b \<noteq> z_kMagic0 \<or> get_bytes 8 16 b \<noteq> z_kMagic1 then Inl EINVAL
      else if load_u32_le (drop 24 b) \<noteq> of_nat z_kHeaderSize then Inl EINVAL
      else Inr \<lparr>zh_size = load_u32_le (drop 24 b), zh_digest = load_u32_le (drop 28 b), zh_flags = load_u64_le (drop 32 b),
                zh_index_offset = load_u64_le (drop 40 b), zh_index_size = load_u64_le (drop 48 b),
                zh_original_file_size = load_u64_le (drop 56 b), zh_index_crc = load_u32_le (drop 64 b),
                zh_reserved_0 = load_u32_le (drop 68 b), zh_opt = parse_options (drop 72 b)\<rparr>)"

definition z_serialize :: "ZHeader \<Rightarrow> bytes" where
  "z_serialize ht =
     (let b = zeros z_kSpace;
          b = put_bytes 0 z_kMagic0 b;
          b = put_bytes 8 z_kMagic1 b;
          b = put_bytes 24 (store_u32_le (of_nat z_kHeaderSize)) b;
          b = put_bytes 28 (store_u32_le (zh_digest ht)) b;
          b = put_bytes 32 (store_u64_le (zh_flags ht)) b;
          b = put_bytes 40 (store_u64_le (zh_index_offset ht)) b;
          b = put_bytes 48 (store_u64_le (zh_index_size ht)) b;
          b = put_bytes 56 (store_u64_le (zh_original_file_size ht)) b;
          b = put_bytes 64 (store_u32_le (zh_index_crc ht)) b;
          b = put_bytes 68 (store_u32_le (zh_reserved_0 ht)) b
      in serialize_options 72 (zh_opt ht) b)"

definition crc_of :: "bytes \<Rightarrow> 32 word" where "crc_of b = crc32c False 0 b"

definition region_digest_ok :: "ZHeader \<Rightarrow> bytes \<Rightarrow> bool" where
  "region_digest_ok ht region \<longleftrightarrow>
     \<not> z_get_flag ht kFlagShiftCalcDigest \<or> crc_of (put_bytes 28 (store_u32_le 0) (take z_kSpace region)) = zh_digest ht"

definition set_region_digest :: "ZHeader \<Rightarrow> bytes \<Rightarrow> ZHeader \<times> bytes" where
  "set_region_digest ht region =
     (let b = put_bytes 28 (store_u32_le 0) region; d = crc_of (take z_kSpace b)
      in (ht\<lparr>zh_digest := d\<rparr>, put_bytes 28 (store_u32_le d) b))"

section \<open>The jump table\<close>

definition kUinttypeMax :: nat where "kUinttypeMax = 65535"

record JumpTable =
  jt_group_size :: nat
  jt_partial :: "nat list"
  jt_deltas :: "nat list"

text \<open>The loop of \<open>build\<close> from entry \<open>i\<close> on: the offsets and deltas it pushes.\<close>

fun jump_loop :: "nat \<Rightarrow> nat \<Rightarrow> nat \<Rightarrow> nat list \<Rightarrow> nat \<Rightarrow> nat \<Rightarrow> (nat list \<times> nat list) result" where
  "jump_loop gs min_blksize i [] raw delta = Inr ([], [])"
| "jump_loop gs min_blksize i (c # cs) raw delta =
     (if c \<le> min_blksize then Inl EIO
      else if i mod gs = 0 then
        bindR (jump_loop gs min_blksize (i + 1) cs (raw + c) 0) (\<lambda>(p, d). Inr ((raw + c) # p, 0 # d))
      else if delta + c \<ge> kUinttypeMax then Inl ERANGE
      else bindR (jump_loop gs min_blksize (i + 1) cs (raw + c) (delta + c)) (\<lambda>(p, d). Inr (p, (delta + c) # d)))"

definition block_size_ok :: "nat \<Rightarrow> bool" where
  "block_size_ok bs \<longleftrightarrow> \<not> (bs = 0 \<or> bs > 65536 \<or> bs AND (bs - 1) \<noteq> 0)"

definition jump_build :: "nat list \<Rightarrow> nat \<Rightarrow> nat \<Rightarrow> bool \<Rightarrow> JumpTable result" where
  "jump_build ibuf offset_begin block_size enable_crc =
     (if \<not> block_size_ok block_size then Inl EINVAL
      else
        let gs = (kUinttypeMax + 1) div block_size in
        bindR (jump_loop gs (if enable_crc then 4 else 0) 1 ibuf offset_begin 0)
          (\<lambda>(p, d). Inr \<lparr>jt_group_size = gs, jt_partial = offset_begin # p, jt_deltas = 0 # d\<rparr>))"

text \<open>\<open>operator[]\<close>; \<open>None\<close> is an access outside the tables.\<close>

definition jump_at :: "JumpTable \<Rightarrow> nat \<Rightarrow> nat option" where
  "jump_at jt idx =
     (let part_idx = idx div jt_group_size jt; inner_idx = idx AND (jt_group_size jt - 1) in
      if part_idx < length (jt_partial jt) then
        let part = jt_partial jt ! part_idx in
        if inner_idx \<noteq> 0 then (if idx < length (jt_deltas jt) then Some (part + jt_deltas jt ! idx) else None)
        else Some part
      else None)"

section \<open>Header round trip\<close>

definition z_fields :: "ZHeader \<Rightarrow> bytes" where
  "z_fields ht = z_kMagic0 @ z_kMagic1 @ store_u32_le (of_nat z_kHeaderSize) @ store_u32_le (zh_digest ht) @
     store_u64_le (zh_flags ht) @ store_u64_le (zh_index_offset ht) @ store_u64_le (zh_index_size ht) @
     store_u64_le (zh_original_file_size ht) @ store_u32_le (zh_index_crc ht) @ store_u32_le (zh_reserved_0 ht) @
     store_u32_le (co_block_size (zh_opt ht)) @ [co_algo (zh_opt ht), co_level (zh_opt ht), co_use_dict (zh_opt ht), 0] @
     store_u32_le (co_reserved (zh_opt ht)) @ store_u32_le (co_dict_size (zh_opt ht)) @ [co_verify (zh_opt ht)] @ zeros 423"

lemma length_z_magic [simp]: "length z_kMagic0 = 8" "length z_kMagic1 = 16"
  by (simp_all add: z_kMagic0_def z_kMagic1_def)

lemma z_serialize_eq: "z_serialize ht = z_fields ht"
proof -
  have z: "zeros z_kSpace = [] @ zeros 512" by (simp add: z_kSpace_def)
  show ?thesis
    unfolding z_serialize_def serialize_options_def Let_def z
    by (simp add: put_at_end z_fields_def del: append.simps append_assoc) simp
qed

lemma length_z_fields [simp]: "length (z_fields ht) = z_kSpace"
  by (simp add: z_fields_def z_kSpace_def)

lemma z_parse_fields: "zh_size ht = of_nat z_kHeaderSize \<Longrightarrow> z_parse (z_fields ht @ rest) = Inr ht"
  by (simp add: z_parse_def z_fields_def get_bytes_def parse_options_def z_kMagic0_def z_kMagic1_def nth_append)


section \<open>The jump table is the table of block offsets\<close>

lemma power_of_two_nat: "0 < n \<Longrightarrow> n AND (n - 1) = 0 \<Longrightarrow> \<exists>k. n = 2 ^ k" for n :: nat
proof (induction n rule: less_induct)
  case (less n)
  show ?case
  proof (cases "even n")
    case True
    then obtain m where m: "n = 2 * m" by blast
    then have pos: "0 < m" using less.prems(1) by simp
    have "n - 1 = 1 + 2 * (m - 1)" using m pos by simp
    then have "n AND (n - 1) = 2 * (m AND (m - 1))" using m by (simp add: and_nat_unfold [of "2 * m"])
    then obtain k where "m = 2 ^ k" using less.IH [of m] less.prems(2) m pos by auto
    then show ?thesis using m by (metis power_Suc)
  next
    case False
    then obtain m where m: "n = 2 * m + 1" using oddE by blast
    have "n AND (n - 1) = 2 * m" using m by (simp add: and_nat_unfold [of "Suc (2 * m)"])
    then show ?thesis using less.prems(2) m by (intro exI [of _ 0]) simp
  qed
qed

lemma block_size_groups:
  assumes "block_size_ok bs"
  obtains k where "k \<le> 16" "bs = 2 ^ k" "(kUinttypeMax + 1) div bs = 2 ^ (16 - k)"
proof -
  have pos: "0 < bs" "bs AND (bs - 1) = 0" "bs \<le> 65536" using assms by (auto simp: block_size_ok_def)
  obtain k where k: "bs = 2 ^ k" using power_of_two_nat [OF pos(1,2)] by blast
  have "(2 :: nat) ^ k \<le> 2 ^ 16" using pos(3) k by simp
  then have le: "k \<le> 16" by (rule power_le_imp_le_exp [rotated]) simp
  have "(65536 :: nat) = 2 ^ (16 - k) * 2 ^ k" using le by (simp flip: power_add)
  then have "(65536 :: nat) div 2 ^ k = 2 ^ (16 - k)" by (metis nonzero_mult_div_cancel_right power_not_zero zero_neq_numeral)
  then have "(kUinttypeMax + 1) div bs = 2 ^ (16 - k)" using k by (simp add: kUinttypeMax_def)
  then show thesis using that le k by blast
qed

lemma jump_loop_offsets:
  assumes "jump_loop gs m i cs raw delta = Inr (p, d)" "0 < gs" "0 < i" "length q = (i - 1) div gs + 1" "last q + delta = raw"
  shows "length d = length cs \<and> (\<forall>j < length cs. (i + j) div gs < length (q @ p) \<and>
    (q @ p) ! ((i + j) div gs) + d ! j = raw + sum_list (take (Suc j) cs) \<and> ((i + j) mod gs = 0 \<longrightarrow> d ! j = 0))"
  using assms
proof (induction cs arbitrary: i raw delta p d q)
  case (Cons c cs)
  have div_i: "(i - 1) div gs + (if i mod gs = 0 then 1 else 0) = i div gs"
    using Cons.prems(2,3) div_Suc [of "i - 1" gs] by simp
  show ?case
  proof (cases "i mod gs = 0")
    case True
    obtain p' d' where rest: "jump_loop gs m (i + 1) cs (raw + c) 0 = Inr (p', d')" "p = (raw + c) # p'" "d = 0 # d'"
      using Cons.prems(1) True by (auto split: if_splits)
    have "length (q @ [raw + c]) = (i + 1 - 1) div gs + 1" using Cons.prems(4) div_i True by simp
    note IH = Cons.IH [OF rest(1) Cons.prems(2) _ this]
    have q: "(q @ p) ! (i div gs) = raw + c" using Cons.prems(4) div_i True rest(2) by (simp add: nth_append)
    show ?thesis
    proof (intro conjI allI impI)
      show "length d = length (c # cs)" using IH rest by simp
      fix j assume j: "j < length (c # cs)"
      show "(i + j) div gs < length (q @ p)" "(q @ p) ! ((i + j) div gs) + d ! j = raw + sum_list (take (Suc j) (c # cs))"
        "(i + j) mod gs = 0 \<Longrightarrow> d ! j = 0"
        using IH j q rest Cons.prems(4) div_i True by (cases j; force)+
    qed
  next
    case False
    obtain d' where rest: "jump_loop gs m (i + 1) cs (raw + c) (delta + c) = Inr (p, d')" "d = (delta + c) # d'"
      using Cons.prems(1) False by (auto split: if_splits)
    have "length q = (i + 1 - 1) div gs + 1" using Cons.prems(4) div_i False by simp
    note IH = Cons.IH [OF rest(1) Cons.prems(2) _ this]
    have ne: "q \<noteq> []" using Cons.prems(4) by auto
    have q: "(q @ p) ! (i div gs) = last q" using Cons.prems(4) div_i False ne by (simp add: nth_append last_conv_nth)
    show ?thesis
    proof (intro conjI allI impI)
      show "length d = length (c # cs)" using IH rest Cons.prems(5) by simp
      fix j assume j: "j < length (c # cs)"
      show "(i + j) div gs < length (q @ p)" "(q @ p) ! ((i + j) div gs) + d ! j = raw + sum_list (take (Suc j) (c # cs))"
        "(i + j) mod gs = 0 \<Longrightarrow> d ! j = 0"
        using IH j q rest Cons.prems(4,5) div_i False by (cases j; force)+
    qed
  qed
qed simp

lemma jump_loop_positive: "jump_loop gs m i cs raw delta = Inr r \<Longrightarrow> \<forall>c \<in> set cs. m < c"
  by (induction cs arbitrary: i raw delta r) (fastforce split: if_splits)+

lemma jump_at_offset:
  assumes "jump_build sizes begin_at bs crc = Inr jt" "idx \<le> length sizes"
  shows "jump_at jt idx = Some (begin_at + sum_list (take idx sizes))"
proof -
  let ?gs = "(kUinttypeMax + 1) div bs"
  have ok: "block_size_ok bs" using assms(1) by (auto simp: jump_build_def split: if_splits)
  then obtain k where k: "k \<le> 16" "bs = 2 ^ k" "?gs = 2 ^ (16 - k)" by (rule block_size_groups)
  obtain p d where jl: "jump_loop ?gs (if crc then 4 else 0) 1 sizes begin_at 0 = Inr (p, d)"
    and jt: "jt = \<lparr>jt_group_size = ?gs, jt_partial = begin_at # p, jt_deltas = 0 # d\<rparr>"
    using assms(1) ok by (auto simp: jump_build_def Let_def)
  have gs: "0 < ?gs" using k(3) by simp
  note off = jump_loop_offsets [OF jl gs _, of "[begin_at]"]
  have msk: "idx AND (?gs - 1) = idx mod ?gs" unfolding k(3) by (simp add: take_bit_eq_mask mask_eq_exp_minus_1 flip: take_bit_eq_mod)
  show ?thesis
  proof (cases idx)
    case 0
    then show ?thesis using jt msk by (simp add: jump_at_def Let_def)
  next
    case (Suc j)
    have at: "idx div ?gs < Suc (length p)" "(begin_at # p) ! (idx div ?gs) + d ! j = begin_at + sum_list (take idx sizes)"
      "idx mod ?gs = 0 \<Longrightarrow> d ! j = 0" "length d = length sizes"
      using off Suc assms(2) by auto
    show ?thesis
    proof (cases "idx mod ?gs = 0")
      case True
      then show ?thesis using at jt msk by (simp add: jump_at_def Let_def)
    next
      case False
      then show ?thesis using at jt msk Suc assms(2) by (simp add: jump_at_def Let_def)
    qed
  qed
qed

lemma jump_loop_length: "jump_loop gs m i cs raw delta = Inr (p, d) \<Longrightarrow> length d = length cs"
  by (induction cs arbitrary: i raw delta p d) (auto split: if_splits)

lemma jump_at_beyond:
  assumes "jump_build sizes begin_at bs crc = Inr jt" "length sizes < idx" "idx mod ((kUinttypeMax + 1) div bs) \<noteq> 0"
  shows "jump_at jt idx = None"
proof -
  let ?gs = "(kUinttypeMax + 1) div bs"
  have ok: "block_size_ok bs" using assms(1) by (auto simp: jump_build_def split: if_splits)
  then obtain k where k: "?gs = 2 ^ (16 - k)" by (rule block_size_groups)
  have msk: "idx AND (?gs - 1) = idx mod ?gs" unfolding k by (simp add: take_bit_eq_mask mask_eq_exp_minus_1 flip: take_bit_eq_mod)
  show ?thesis using assms ok msk by (auto simp: jump_build_def jump_at_def Let_def dest: jump_loop_length)
qed

text \<open>C11: The jump table.  When \<open>build\<close> accepts the compressed block sizes, \<open>operator[]\<close> returns for every index up to the
  number of blocks the byte offset of that block: the offset of block 0 plus the sizes of all blocks before it.  The two-level
  representation with 16-bit deltas loses nothing.\<close>

theorem jump_table_offsets:
  assumes "jump_build sizes begin_at bs crc = Inr jt" "idx \<le> length sizes"
  shows "jump_at jt idx = Some (begin_at + sum_list (take idx sizes)) \<and> (\<forall>d \<in> set (jt_deltas jt). d < kUinttypeMax)"
proof -
  have "\<forall>x \<in> set d. x < kUinttypeMax" if "jump_loop gs m i cs raw delta = Inr (p, d)" for gs m i cs raw delta p d
    using that by (induction cs arbitrary: i raw delta p d) (auto simp: kUinttypeMax_def split: if_splits)
  then show ?thesis using jump_at_offset [OF assms] assms(1)
    by (auto simp: jump_build_def Let_def kUinttypeMax_def split: if_splits)
qed

theorem jump_table_offsets_witness:
  "\<exists>jt. jump_build [100, 200, 300] 512 32768 True = Inr jt \<and> jump_at jt 3 = Some 1112 \<and> jump_at jt 2 = Some 812"
proof -
  have "block_size_ok 32768" by (simp add: block_size_ok_def)
  then obtain jt where jt: "jump_build [100, 200, 300] 512 32768 True = Inr jt"
    by (simp add: jump_build_def kUinttypeMax_def)
  show ?thesis using jump_table_offsets [OF jt, of 3] jump_table_offsets [OF jt, of 2] jt by (simp add: numeral_2_eq_2 numeral_3_eq_3)
qed

end
