(* ===== verification/BlockCodec.thy ===== *)
theory BlockCodec
  imports ZFileFormat
begin

text \<open>
  \<open>src/format/block_codec.cpp\<close>: the block codecs behind ZFile. LZ4 and ZSTD are external; the record \<open>CodecLib\<close> holds
  the calls the source makes and \<open>lib_ok\<close> says what their documentation promises. The contract of the \<open>BlockCodec\<close>
  interface is the locale \<open>block_codec\<close>, interpreted on both implementations.
\<close>

record BlockCodec =
  bc_decompress :: "bytes \<Rightarrow> nat \<Rightarrow> nat \<Rightarrow> bytes result"
  bc_compress :: "bytes \<Rightarrow> nat \<Rightarrow> bytes result"
  bc_bound :: "nat \<Rightarrow> nat"

text \<open>The compression libraries: \<open>None\<close> is a negative or error return value.\<close>

record CodecLib =
  LZ4_decompress_safe :: "bytes \<Rightarrow> nat \<Rightarrow> bytes option"
  LZ4_compress_default :: "bytes \<Rightarrow> nat \<Rightarrow> bytes option"
  LZ4_compressBound :: "nat \<Rightarrow> nat"
  LZ4_MAX_INPUT_SIZE :: nat
  have_zstd :: bool
  ZSTD_decompress :: "nat \<Rightarrow> bytes \<Rightarrow> bytes option"
  ZSTD_compress :: "nat \<Rightarrow> bytes \<Rightarrow> nat \<Rightarrow> bytes option"
  ZSTD_compressBound :: "nat \<Rightarrow> nat"

definition lz4_decompress :: "CodecLib \<Rightarrow> bytes \<Rightarrow> nat \<Rightarrow> nat \<Rightarrow> bytes result" where
  "lz4_decompress lib src dst_capacity expected =
     (if dst_capacity < expected then Inl EOVERFLOW
      else case LZ4_decompress_safe lib src dst_capacity of
        None \<Rightarrow> Inl EIO
      | Some out \<Rightarrow> if length out \<noteq> expected then Inl EINVAL else Inr out)"

definition lz4_compress :: "CodecLib \<Rightarrow> bytes \<Rightarrow> nat \<Rightarrow> bytes result" where
  "lz4_compress lib src dst_capacity =
     (if length src > LZ4_MAX_INPUT_SIZE lib then Inl (Errno 7)
      else if dst_capacity < LZ4_compressBound lib (length src) then Inl EOVERFLOW
      else case LZ4_compress_default lib src dst_capacity of
        None \<Rightarrow> Inl EIO
      | Some out \<Rightarrow> if out = [] then Inl EIO else Inr out)"

definition lz4_codec :: "CodecLib \<Rightarrow> BlockCodec" where
  "lz4_codec lib = \<lparr>bc_decompress = lz4_decompress lib, bc_compress = lz4_compress lib, bc_bound = LZ4_compressBound lib\<rparr>"

definition zstd_decompress :: "CodecLib \<Rightarrow> bytes \<Rightarrow> nat \<Rightarrow> nat \<Rightarrow> bytes result" where
  "zstd_decompress lib src dst_capacity expected =
     (if dst_capacity < expected then Inl EOVERFLOW
      else case ZSTD_decompress lib expected src of
        None \<Rightarrow> Inl EIO
      | Some out \<Rightarrow> if length out \<noteq> expected then Inl EINVAL else Inr out)"

definition zstd_compress :: "CodecLib \<Rightarrow> nat \<Rightarrow> bytes \<Rightarrow> nat \<Rightarrow> bytes result" where
  "zstd_compress lib level src dst_capacity =
     (if dst_capacity < ZSTD_compressBound lib (length src) then Inl EOVERFLOW
      else case ZSTD_compress lib dst_capacity src level of None \<Rightarrow> Inl EIO | Some out \<Rightarrow> Inr out)"

definition zstd_codec :: "CodecLib \<Rightarrow> byte \<Rightarrow> BlockCodec" where
  "zstd_codec lib level =
     \<lparr>bc_decompress = zstd_decompress lib, bc_compress = zstd_compress lib (if level \<noteq> 0 then unat level else 3),
      bc_bound = ZSTD_compressBound lib\<rparr>"

definition create_block_codec :: "CodecLib \<Rightarrow> byte \<Rightarrow> byte \<Rightarrow> BlockCodec option" where
  "create_block_codec lib algo level =
     (if algo = kAlgoLz4 then Some (lz4_codec lib)
      else if algo = kAlgoZstd \<and> have_zstd lib then Some (zstd_codec lib level)
      else None)"

definition block_codec_available :: "CodecLib \<Rightarrow> byte \<Rightarrow> bool" where
  "block_codec_available lib algo =
     (if algo = kAlgoLz4 then True else if algo = kAlgoZstd \<and> have_zstd lib then True else False)"

text \<open>What the documentation of the libraries promises: decompression inverts compression into any buffer that is
  large enough, compressed output is not empty and no longer than the bound.\<close>

definition lib_ok :: "CodecLib \<Rightarrow> bool" where
  "lib_ok lib \<longleftrightarrow>
     (\<forall>src cap out. LZ4_compress_default lib src cap = Some out \<longrightarrow> length out \<le> LZ4_compressBound lib (length src) \<and>
        (\<forall>n. length src \<le> n \<longrightarrow> LZ4_decompress_safe lib out n = Some src)) \<and>
     (\<forall>src cap level out. ZSTD_compress lib cap src level = Some out \<longrightarrow> out \<noteq> [] \<and>
        length out \<le> ZSTD_compressBound lib (length src) \<and>
        (\<forall>n. length src \<le> n \<longrightarrow> ZSTD_decompress lib n out = Some src))"

text \<open>The contract of \<open>BlockCodec\<close>, its client lemmas, and that every codec the factory returns keeps it.\<close>

locale block_codec =
  fixes codec :: BlockCodec and trusted :: bool
  assumes decompress_exact: "bc_decompress codec src cap n = Inr out \<Longrightarrow> length out = n \<and> n \<le> cap"
    and compress_decompress: "trusted \<Longrightarrow> bc_compress codec src cap = Inr out \<Longrightarrow>
      length src \<le> cap' \<Longrightarrow> bc_decompress codec out cap' (length src) = Inr src"
    and compress_size: "trusted \<Longrightarrow> bc_compress codec src cap = Inr out \<Longrightarrow> out \<noteq> [] \<and> length out \<le> bc_bound codec (length src)"

interpretation lz4: block_codec "lz4_codec lib" "lib_ok lib" for lib
  by unfold_locales
    (auto simp: lz4_codec_def lz4_decompress_def lz4_compress_def lib_ok_def split: if_splits option.splits)

interpretation zstd: block_codec "zstd_codec lib level" "lib_ok lib" for lib level
  by unfold_locales
    (auto simp: zstd_codec_def zstd_decompress_def zstd_compress_def lib_ok_def split: if_splits option.splits)

lemma create_block_codec_ok:
  assumes "create_block_codec lib algo level = Some codec"
  shows "block_codec codec (lib_ok lib)"
  using assms lz4.block_codec_axioms zstd.block_codec_axioms
  by (auto simp: create_block_codec_def split: if_splits)

lemma block_codec_available_iff: "block_codec_available lib algo \<longleftrightarrow> create_block_codec lib algo level \<noteq> None"
  by (auto simp: block_codec_available_def create_block_codec_def)

end
