(* ===== verification/ZFileRead.thy ===== *)
theory ZFileRead
  imports BlockCodec LsmtLayer
begin

text \<open>
  \<open>src/format/zfile.cpp\<close>: the read-only decompression view over a ZFile. Opening reads header, trailer and index and
  builds the jump table; a read fetches batches of compressed blocks, checks and decompresses them, and keeps
  recently repeated partial blocks in a small cache. An access outside the jump table is \<open>None\<close>.

  For a file whose index covers the declared size, reads always return, and what they return is the part of the
  uncompressed image that was asked for, whatever the cache held.
\<close>

section \<open>Opening\<close>

definition is_zfile :: "BlobSource \<Rightarrow> bool" where
  "is_zfile src =
     (if src_size src < z_kSpace * 2 then False
      else case read_exact src z_kSpace 0 of
        Inl _ \<Rightarrow> False
      | Inr region \<Rightarrow>
          if get_bytes 0 8 region \<noteq> z_kMagic0 \<or> get_bytes 8 16 region \<noteq> z_kMagic1 then False
          else (case z_parse region of Inl _ \<Rightarrow> False | Inr ht \<Rightarrow> region_digest_ok ht region))"

record ZFile =
  z_src :: BlobSource
  z_ht :: ZHeader
  z_jump :: JumpTable
  z_codec :: BlockCodec
  z_verify :: bool
  z_block_size :: nat

definition load_sizes :: "nat \<Rightarrow> bytes \<Rightarrow> nat list" where
  "load_sizes n raw = map (\<lambda>i. unat (load_u32_le (drop (i * 4) raw))) [0..<n]"

text \<open>The trailer is authoritative unless the header was overwritten; the subtraction is on 64 bits.\<close>

definition effective_header :: "BlobSource \<Rightarrow> ZHeader \<Rightarrow> ZHeader result" where
  "effective_header src ht =
     (if z_get_flag ht kFlagShiftHeaderOverwrite then Inr ht
      else if \<not> z_get_flag ht z_kFlagShiftType then Inl EINVAL
      else bindR (read_exact src z_kSpace (src_size src - z_kSpace)) (\<lambda>tregion.
        bindR (z_parse tregion) (\<lambda>tht.
          if z_get_flag tht z_kFlagShiftHeader \<or> \<not> z_get_flag tht z_kFlagShiftType \<or> \<not> z_get_flag tht z_kFlagShiftSealed
          then Inl EINVAL else Inr tht)))"

definition load_zfile :: "CodecLib \<Rightarrow> BlobSource \<Rightarrow> bool \<Rightarrow> ZHeader \<Rightarrow> ZHeader \<Rightarrow> ZFile result" where
  "load_zfile lib src verify ht eff =
     (let index_size = unat (zh_index_size eff);
          index_bytes = index_size * 4;
          index_offset = unat (zh_index_offset eff);
          trailer_offset = (if z_get_flag ht kFlagShiftHeaderOverwrite then 0 else src_size src - z_kSpace);
          opt = zh_opt eff
      in if index_size > kMaxIndexSize then Inl EINVAL
         else if \<not> z_get_flag ht kFlagShiftHeaderOverwrite \<and>
                 index_bytes > (trailer_offset + U64 - index_offset) mod U64 then Inl EINVAL
         else if co_use_dict opt \<noteq> 0 \<or> co_dict_size opt \<noteq> 0 then Inl EINVAL
         else if \<not> block_codec_available lib (co_algo opt) then Inl EINVAL
         else bindR (if index_bytes > 0 then read_exact src index_bytes index_offset else Inr []) (\<lambda>raw_index.
           if z_get_flag eff kFlagShiftCalcDigest \<and> crc_of raw_index \<noteq> zh_index_crc eff then Inl EINVAL
           else bindR (jump_build (load_sizes index_size raw_index) (z_kSpace + unat (co_dict_size opt))
                         (unat (co_block_size opt)) (co_verify opt \<noteq> 0)) (\<lambda>jump.
             case create_block_codec lib (co_algo opt) (co_level opt) of
               None \<Rightarrow> Inl EINVAL
             | Some codec \<Rightarrow>
                 Inr \<lparr>z_src = src, z_ht = eff, z_jump = jump, z_codec = codec, z_verify = (co_verify opt \<noteq> 0 \<and> verify),
                      z_block_size = unat (co_block_size opt)\<rparr>)))"

definition zfile_open :: "CodecLib \<Rightarrow> BlobSource option \<Rightarrow> bool \<Rightarrow> ZFile result" where
  "zfile_open lib src verify = (case src of
     None \<Rightarrow> Inl EINVAL
   | Some src \<Rightarrow>
       if src_size src < z_kSpace * 2 then Inl EINVAL
       else bindR (read_exact src z_kSpace 0) (\<lambda>region.
         bindR (z_parse region) (\<lambda>ht.
           if \<not> z_get_flag ht z_kFlagShiftHeader then Inl EINVAL
           else if \<not> region_digest_ok ht region then Inl EINVAL
           else bindR (effective_header src ht) (load_zfile lib src verify ht))))"

section \<open>The decoded-block cache\<close>

record DecodedCache =
  dc_decoded :: "(nat \<times> bytes) option list"
  dc_replacement :: nat
  dc_seen :: "nat list"
  dc_seen_count :: nat
  dc_seen_next :: nat

definition empty_cache :: DecodedCache where
  "empty_cache = \<lparr>dc_decoded = replicate 8 None, dc_replacement = 0, dc_seen = replicate 16 0, dc_seen_count = 0, dc_seen_next = 0\<rparr>"

text \<open>The hit, whether the block is to be admitted, and the cache after recording a first miss.\<close>

definition decoded_get :: "nat \<Rightarrow> DecodedCache \<Rightarrow> bytes option \<times> bool \<times> DecodedCache" where
  "decoded_get index c =
     (case List.find (\<lambda>e. case e of None \<Rightarrow> False | Some (i, _) \<Rightarrow> i = index) (dc_decoded c) of
        Some (Some (_, b)) \<Rightarrow> (Some b, False, c)
      | _ \<Rightarrow>
          if index \<in> set (take (dc_seen_count c) (dc_seen c)) then (None, True, c)
          else (None, False, c\<lparr>dc_seen := (dc_seen c)[dc_seen_next c := index],
                               dc_seen_next := (dc_seen_next c + 1) mod length (dc_seen c),
                               dc_seen_count := min (dc_seen_count c + 1) (length (dc_seen c))\<rparr>))"

definition decoded_put :: "nat \<Rightarrow> bytes \<Rightarrow> DecodedCache \<Rightarrow> DecodedCache" where
  "decoded_put index data c =
     (if List.find (\<lambda>e. case e of None \<Rightarrow> False | Some (i, _) \<Rightarrow> i = index) (dc_decoded c) \<noteq> None then c
      else c\<lparr>dc_decoded := (dc_decoded c)[dc_replacement c := Some (index, data)],
             dc_replacement := (dc_replacement c + 1) mod length (dc_decoded c)\<rparr>)"

section \<open>Reads\<close>

definition kReadWindow :: nat where "kReadWindow = 512 * 1024"

definition z_size :: "ZFile \<Rightarrow> nat" where
  "z_size z = unat (zh_original_file_size (z_ht z))"

text \<open>The end of the batch of blocks that fits the read window.\<close>

function batch_end :: "JumpTable \<Rightarrow> nat \<Rightarrow> nat \<Rightarrow> nat \<Rightarrow> nat option" where
  "batch_end jump base last_idx end_idx =
     (if end_idx \<le> last_idx then
        (case jump_at jump end_idx of
           None \<Rightarrow> None
         | Some off \<Rightarrow> if off - base \<le> kReadWindow then batch_end jump base last_idx (end_idx + 1) else Some end_idx)
      else Some end_idx)"
  by pat_completeness auto
termination
  by (relation "measure (\<lambda>(jump, base, last_idx, end_idx). Suc last_idx - end_idx)") auto

declare batch_end.simps [simp del]

text \<open>One block of the window: its checksum, its decompression, and the part of it the caller needs
  (start and length inside the block).\<close>

definition decode_block :: "ZFile \<Rightarrow> bytes \<Rightarrow> nat \<Rightarrow> nat \<Rightarrow> nat \<Rightarrow> nat \<Rightarrow> (bytes \<times> nat \<times> nat) result option" where
  "decode_block z window base pos fin i =
     (case (jump_at (z_jump z) i, jump_at (z_jump z) (i + 1)) of
        (Some a, Some b) \<Rightarrow>
          let blk_len = b - a;
              comp_len = (if z_verify z then blk_len - 4 else blk_len);
              comp = get_bytes (a - base) comp_len window;
              blk_start = i * z_block_size z;
              blk_uncomp = min (z_block_size z) (z_size z - blk_start);
              abs_from = max pos blk_start;
              abs_to = min fin (blk_start + blk_uncomp);
              in_start = abs_from - blk_start;
              in_len = abs_to - abs_from;
              dcapacity = (if in_start = 0 \<and> in_len = blk_uncomp then in_len else z_block_size z)
          in Some (if z_verify z \<and> load_u32_le (drop (a - base + comp_len) window) \<noteq> crc32c_salt False 0 comp then Inl EIO
                   else bindR (bc_decompress (z_codec z) comp dcapacity blk_uncomp) (\<lambda>out. Inr (out, in_start, in_len)))
      | _ \<Rightarrow> None)"

fun read_blocks :: "ZFile \<Rightarrow> bytes \<Rightarrow> nat \<Rightarrow> nat \<Rightarrow> nat \<Rightarrow> bool \<Rightarrow> nat list \<Rightarrow> DecodedCache
    \<Rightarrow> (bytes result \<times> DecodedCache) option" where
  "read_blocks z window base pos fin admit [] c = Some (Inr [], c)"
| "read_blocks z window base pos fin admit (i # is) c =
     (case decode_block z window base pos fin i of
        None \<Rightarrow> None
      | Some (Inl e) \<Rightarrow> Some (Inl e, c)
      | Some (Inr (out, in_start, in_len)) \<Rightarrow>
          (case read_blocks z window base pos fin admit is (if admit then decoded_put i out c else c) of
             None \<Rightarrow> None
           | Some (r, c) \<Rightarrow> Some (bindR r (\<lambda>rest. Inr (get_bytes in_start in_len out @ rest)), c)))"

text \<open>\<open>None\<close> is an access outside the jump table or a loop that does not end.\<close>

partial_function (option) read_loop :: "ZFile \<Rightarrow> nat \<Rightarrow> nat \<Rightarrow> bool \<Rightarrow> nat \<Rightarrow> DecodedCache \<Rightarrow> (bytes result \<times> DecodedCache) option" where
  "read_loop z offset count admit pos c =
     (if pos \<ge> count then Some (Inr [], c)
      else
        let at = offset + pos;
            begin_idx = at div z_block_size z;
            last_idx = (offset + count - 1) div z_block_size z
        in Option.bind (jump_at (z_jump z) begin_idx) (\<lambda>base.
           Option.bind (batch_end (z_jump z) base last_idx (begin_idx + 1)) (\<lambda>end_idx.
           Option.bind (jump_at (z_jump z) end_idx) (\<lambda>top.
             case src_pread (z_src z) (top - base) base of
               Inl e \<Rightarrow> Some (Inl e, c)
             | Inr window \<Rightarrow>
                 if length window \<noteq> top - base then Some (Inl EIO, c)
                 else Option.bind (read_blocks z window base at (offset + count) admit [begin_idx..<end_idx] c) (\<lambda>(r, c).
                   case r of
                     Inl e \<Rightarrow> Some (Inl e, c)
                   | Inr out \<Rightarrow>
                       Option.bind (read_loop z offset count admit (pos + length out) c) (\<lambda>(r, c).
                         Some (bindR r (\<lambda>rest. Inr (out @ rest)), c)))))))"

definition zfile_pread :: "ZFile \<Rightarrow> nat \<Rightarrow> nat \<Rightarrow> DecodedCache \<Rightarrow> (bytes result \<times> DecodedCache) option" where
  "zfile_pread z count offset c =
     (let fsize = z_size z in
      if offset \<ge> fsize then Some (Inr [], c)
      else let count = (if count > fsize - offset then fsize - offset else count) in
        if count = 0 then Some (Inr [], c)
        else
          let cache_index = offset div z_block_size z;
              cache_offset = offset mod z_block_size z;
              decoded_size = min (z_block_size z) (fsize - cache_index * z_block_size z);
              cacheable = (count < decoded_size \<and> count \<le> decoded_size - cache_offset);
              (hit, admit, c) = (if cacheable then decoded_get cache_index c else (None, False, c))
          in case hit of
            Some b \<Rightarrow> Some (Inr (get_bytes cache_offset count b), c)
          | None \<Rightarrow> read_loop z offset count admit 0 c)"


section \<open>Reads return the uncompressed image\<close>

text \<open>Offset and payload of a block in the file, and what it decodes to.\<close>

definition block_at :: "nat list \<Rightarrow> nat \<Rightarrow> nat \<Rightarrow> nat" where
  "block_at sizes b0 i = b0 + sum_list (take i sizes)"

definition block_payload :: "ZFile \<Rightarrow> nat list \<Rightarrow> nat \<Rightarrow> bytes \<Rightarrow> nat \<Rightarrow> bytes" where
  "block_payload z sizes b0 content i =
     get_bytes (block_at sizes b0 i) (if z_verify z then sizes ! i - 4 else sizes ! i) content"

definition block_length :: "ZFile \<Rightarrow> nat \<Rightarrow> nat" where
  "block_length z i = min (z_block_size z) (z_size z - i * z_block_size z)"

text \<open>The file behind \<open>z\<close> holds \<open>img\<close>: its index covers it, and a block that decodes, decodes to its part of it.\<close>

definition holds_image :: "ZFile \<Rightarrow> nat list \<Rightarrow> nat \<Rightarrow> bytes \<Rightarrow> bytes \<Rightarrow> bool" where
  "holds_image z sizes b0 content img \<longleftrightarrow>
     (\<exists>crc. jump_build sizes b0 (z_block_size z) crc = Inr (z_jump z)) \<and> blob_source (z_src z) content \<and>
     length img = z_size z \<and> z_size z \<le> length sizes * z_block_size z \<and>
     (\<forall>i cap out. i * z_block_size z < z_size z \<longrightarrow>
        bc_decompress (z_codec z) (block_payload z sizes b0 content i) cap (block_length z i) = Inr out \<longrightarrow>
        out = get_bytes (i * z_block_size z) (z_block_size z) img)"

text \<open>Every block is intact and every read of the source succeeds.\<close>

definition intact :: "ZFile \<Rightarrow> nat list \<Rightarrow> nat \<Rightarrow> bytes \<Rightarrow> bool" where
  "intact z sizes b0 content \<longleftrightarrow>
     (\<forall>n off. \<exists>bs. src_pread (z_src z) n off = Inr bs) \<and> block_at sizes b0 (length sizes) \<le> length content \<and>
     (\<forall>i. i * z_block_size z < z_size z \<longrightarrow>
        (z_verify z \<longrightarrow> 4 \<le> sizes ! i \<and> load_u32_le (get_bytes (block_at sizes b0 i + (sizes ! i - 4)) 4 content) =
           crc32c_salt False 0 (block_payload z sizes b0 content i)) \<and>
        (\<forall>cap \<ge> block_length z i. \<exists>out. bc_decompress (z_codec z) (block_payload z sizes b0 content i) cap (block_length z i) = Inr out))"

definition cache_ok :: "ZFile \<Rightarrow> bytes \<Rightarrow> DecodedCache \<Rightarrow> bool" where
  "cache_ok z img c \<longleftrightarrow> (\<forall>i b. Some (i, b) \<in> set (dc_decoded c) \<longrightarrow>
     i * z_block_size z < z_size z \<and> b = get_bytes (i * z_block_size z) (z_block_size z) img)"

lemma block_at_mono: "i \<le> j \<Longrightarrow> block_at sizes b0 i \<le> block_at sizes b0 j"
proof -
  assume "i \<le> j"
  then have "take j sizes = take i sizes @ take (j - i) (drop i sizes)" by (metis le_add_diff_inverse take_add)
  then show ?thesis by (simp add: block_at_def)
qed

lemma block_at_Suc: "i < length sizes \<Longrightarrow> block_at sizes b0 (Suc i) = block_at sizes b0 i + sizes ! i"
  by (simp add: block_at_def take_Suc_conv_app_nth)

lemma empty_cache_ok: "cache_ok z img empty_cache"
  by (simp add: cache_ok_def empty_cache_def)

lemma decoded_put_ok:
  "cache_ok z img c \<Longrightarrow> i * z_block_size z < z_size z \<Longrightarrow> b = get_bytes (i * z_block_size z) (z_block_size z) img \<Longrightarrow>
   cache_ok z img (decoded_put i b c)"
  by (auto simp: cache_ok_def decoded_put_def dest: set_update_subsetI [THEN subsetD, rotated] set_update_subset_insert [THEN subsetD])

lemma find_SomeD: "List.find P xs = Some x \<Longrightarrow> P x \<and> x \<in> set xs"
  by (induction xs) (auto split: if_splits)

lemma decoded_get_ok:
  assumes "cache_ok z img c" "decoded_get i c = (hit, admit, c')"
  shows "cache_ok z img c'" "hit = Some b \<Longrightarrow> b = get_bytes (i * z_block_size z) (z_block_size z) img"
proof -
  let ?f = "List.find (\<lambda>e. case e of None \<Rightarrow> False | Some (k, _) \<Rightarrow> k = i) (dc_decoded c)"
  show "cache_ok z img c'"
    using assms by (auto simp: decoded_get_def cache_ok_def split: option.splits if_splits)
  assume hit: "hit = Some b"
  then obtain k where "?f = Some (Some (k, b))" using assms(2)
    by (auto simp: decoded_get_def split: option.splits if_splits prod.splits)
  then have "Some (k, b) \<in> set (dc_decoded c)" "k = i" by (auto dest: find_SomeD)
  then show "b = get_bytes (i * z_block_size z) (z_block_size z) img" using assms(1) by (auto simp: cache_ok_def)
qed

lemma batch_end_range:
  assumes "\<forall>i \<le> last_idx. jump_at jump i \<noteq> None" "e \<le> last_idx + 1"
  shows "\<exists>r. batch_end jump base last_idx e = Some r \<and> e \<le> r \<and> r \<le> last_idx + 1"
  using assms(2)
proof (induction "last_idx + 1 - e" arbitrary: e rule: less_induct)
  case less
  show ?case
  proof (cases "e \<le> last_idx")
    case True
    then obtain off where "jump_at jump e = Some off" using assms(1) by auto
    moreover have "\<exists>r. batch_end jump base last_idx (e + 1) = Some r \<and> e + 1 \<le> r \<and> r \<le> last_idx + 1"
      using less.hyps [of "e + 1"] True by simp
    ultimately show ?thesis using True by (auto simp: batch_end.simps [of jump base last_idx e] intro: Suc_leD)
  qed (use less.prems in \<open>simp add: batch_end.simps\<close>)
qed

lemma decode_block_ok:
  assumes h: "holds_image z sizes b0 content img" and i: "i * z_block_size z < fin" and fin: "fin \<le> z_size z"
    and b: "b \<le> i" "i < e" "e \<le> length sizes" and pos: "pos < (i + 1) * z_block_size z"
    and window: "window = get_bytes (block_at sizes b0 b) (block_at sizes b0 e - block_at sizes b0 b) content"
    and len: "length window = block_at sizes b0 e - block_at sizes b0 b"
  shows "\<exists>r. decode_block z window (block_at sizes b0 b) pos fin i = Some r \<and>
    (\<forall>out s n. r = Inr (out, s, n) \<longrightarrow> out = get_bytes (i * z_block_size z) (z_block_size z) img \<and>
       get_bytes s n out = get_bytes (max pos (i * z_block_size z)) (min fin ((i + 1) * z_block_size z) - max pos (i * z_block_size z)) img) \<and>
    (intact z sizes b0 content \<longrightarrow> (\<exists>x. r = Inr x))"
proof -
  let ?bs = "z_block_size z" and ?O = "block_at sizes b0"
  obtain crc where jb: "jump_build sizes b0 ?bs crc = Inr (z_jump z)" using h by (auto simp: holds_image_def)
  have J: "jump_at (z_jump z) i = Some (?O i)" "jump_at (z_jump z) (i + 1) = Some (?O (Suc i))"
    using jump_at_offset [OF jb] b by (simp_all add: block_at_def)
  have size: "?O (Suc i) - ?O i = sizes ! i" using block_at_Suc b by simp
  have ord: "?O b \<le> ?O i" "?O (Suc i) \<le> ?O e" using b by (auto intro: block_at_mono)
  have inside: "?O i - ?O b + sizes ! i \<le> ?O e - ?O b" using ord size block_at_Suc [of i sizes b0] b by simp
  define cl where "cl = (if z_verify z then sizes ! i - 4 else sizes ! i)"
  have comp: "get_bytes (?O i - ?O b) cl window = block_payload z sizes b0 content i"
    unfolding window block_payload_def cl_def [symmetric] using ord(1) inside
    by (subst get_get_bytes) (auto simp: cl_def)
  have crcw: "load_u32_le (drop (?O i - ?O b + cl) window) = load_u32_le (get_bytes (?O i + (sizes ! i - 4)) 4 content)"
    if "4 \<le> sizes ! i" "z_verify z"
  proof -
    have "load_u32_le (drop (?O i - ?O b + cl) window) = load_u32_le (get_bytes (?O i - ?O b + cl) 4 window)"
      using that inside len by (intro load_u32_get) (simp add: cl_def)
    also have "get_bytes (?O i - ?O b + cl) 4 window = get_bytes (?O i + cl) 4 content"
      unfolding window using that inside ord(1) by (subst get_get_bytes) (auto simp: cl_def)
    finally show ?thesis using that by (simp add: cl_def)
  qed
  define u where "u = block_length z i"
  have u: "u = min ?bs (z_size z - i * ?bs)" by (simp add: u_def block_length_def)
  define start where "start = max pos (i * ?bs)"
  define to where "to = min fin (i * ?bs + u)"
  have to: "to = min fin ((i + 1) * ?bs)" using fin i by (auto simp: to_def u min_def)
  have in_block: "start - i * ?bs + (to - start) \<le> ?bs" "i * ?bs + (start - i * ?bs) = start"
    using pos by (auto simp: start_def to min_def)
  define cap where "cap = (if start - i * ?bs = 0 \<and> to - start = u then to - start else ?bs)"
  have cap: "u \<le> cap" by (simp add: cap_def u)
  let ?P = "block_payload z sizes b0 content i"
  let ?r = "if z_verify z \<and> load_u32_le (drop (?O i - ?O b + cl) window) \<noteq> crc32c_salt False 0 ?P then Inl EIO
    else bindR (bc_decompress (z_codec z) ?P cap u) (\<lambda>out. Inr (out, start - i * ?bs, to - start))"
  have run: "decode_block z window (?O b) pos fin i = Some ?r"
    unfolding decode_block_def J prod.case option.case Let_def size cl_def [symmetric] comp u [symmetric]
      start_def [symmetric] to_def [symmetric] cap_def [symmetric] by (rule refl)
  have out: "out = get_bytes (i * ?bs) ?bs img" if "bc_decompress (z_codec z) ?P cap u = Inr out" for out
    using h i fin that by (auto simp: holds_image_def u_def)
  have sub: "get_bytes (start - i * ?bs) (to - start) (get_bytes (i * ?bs) ?bs img) = get_bytes start (to - start) img"
    using get_get_bytes [OF in_block(1), of "i * ?bs" img] in_block(2) by simp
  show ?thesis
  proof (intro exI [of _ ?r] conjI allI impI)
    show "decode_block z window (?O b) pos fin i = Some ?r" by (rule run)
    fix o' s n
    assume r: "?r = Inr (o', s, n)"
    then have d: "bc_decompress (z_codec z) ?P cap u = Inr o'" "s = start - i * ?bs" "n = to - start" by (auto split: if_splits)
    show "o' = get_bytes (i * ?bs) ?bs img" using out d(1) by blast
    then show "get_bytes s n o' = get_bytes (max pos (i * ?bs)) (min fin ((i + 1) * ?bs) - max pos (i * ?bs)) img"
      using sub d(2,3) to by (simp add: start_def)
  next
    assume "intact z sizes b0 content"
    moreover have "i * ?bs < z_size z" using i fin by simp
    ultimately have g: "z_verify z \<longrightarrow> 4 \<le> sizes ! i \<and> load_u32_le (get_bytes (?O i + (sizes ! i - 4)) 4 content) = crc32c_salt False 0 ?P"
      "\<exists>out. bc_decompress (z_codec z) ?P cap u = Inr out"
      using cap unfolding intact_def u_def by blast+
    then show "\<exists>x. ?r = Inr x" using crcw by auto
  qed
qed

lemma read_blocks_ok:
  assumes h: "holds_image z sizes b0 content img" and fin: "fin \<le> z_size z" and c: "cache_ok z img c"
    and b: "b \<le> i" "i \<le> e" "e \<le> length sizes" and pos: "pos < (i + 1) * z_block_size z" and last: "i < e \<Longrightarrow> (e - 1) * z_block_size z < fin"
    and window: "window = get_bytes (block_at sizes b0 b) (block_at sizes b0 e - block_at sizes b0 b) content"
    and len: "length window = block_at sizes b0 e - block_at sizes b0 b"
  shows "\<exists>r c'. read_blocks z window (block_at sizes b0 b) pos fin admit [i..<e] c = Some (r, c') \<and> cache_ok z img c' \<and>
    (\<forall>out. r = Inr out \<longrightarrow>
       out = get_bytes (max pos (i * z_block_size z)) (min fin (e * z_block_size z) - max pos (i * z_block_size z)) img) \<and>
    (intact z sizes b0 content \<longrightarrow> (\<exists>out. r = Inr out))"
  using c b pos last
proof (induction "e - i" arbitrary: i c rule: less_induct)
  case less
  let ?bs = "z_block_size z"
  show ?case
  proof (cases "i < e")
    case False
    then show ?thesis using less.prems by simp
  next
    case True
    have i: "i * ?bs < fin" using less.prems(6) True mult_le_mono1 [of i "e - 1" ?bs] by linarith
    obtain r where dec: "decode_block z window (block_at sizes b0 b) pos fin i = Some r"
      and ok: "\<And>out s n. r = Inr (out, s, n) \<Longrightarrow> out = get_bytes (i * ?bs) ?bs img \<and>
        get_bytes s n out = get_bytes (max pos (i * ?bs)) (min fin ((i + 1) * ?bs) - max pos (i * ?bs)) img"
      and good: "intact z sizes b0 content \<Longrightarrow> \<exists>x. r = Inr x"
      using decode_block_ok [OF h i fin less.prems(2) True less.prems(4,5) window len] by blast
    have upt: "[i..<e] = i # [i + 1..<e]" using True by (simp add: upt_conv_Cons)
    show ?thesis
    proof (cases r)
      case (Inl err)
      then show ?thesis using dec upt good less.prems(1) by auto
    next
      case (Inr x)
      obtain out s n where x: "r = Inr (out, s, n)" using Inr by (cases x) auto
      let ?c = "if admit then decoded_put i out c else c"
      have ck: "cache_ok z img ?c" using decoded_put_ok [OF less.prems(1), of i out] ok [OF x] i fin less.prems(1) by simp
      have ps: "pos < (i + 1 + 1) * ?bs" using less.prems(5) by simp
      have lt: "e - (i + 1) < e - i" "b \<le> i + 1" "i + 1 \<le> e" using True less.prems(2) by auto
      have la: "(e - 1) * ?bs < fin" using less.prems(6) True by simp
      from less.hyps [OF lt(1) ck lt(2,3) less.prems(4) ps la]
      obtain r' c' where rest: "read_blocks z window (block_at sizes b0 b) pos fin admit [i + 1..<e] ?c = Some (r', c')"
          "cache_ok z img c'"
          "\<forall>out. r' = Inr out \<longrightarrow> out = get_bytes (max pos ((i + 1) * ?bs)) (min fin (e * ?bs) - max pos ((i + 1) * ?bs)) img"
          "intact z sizes b0 content \<longrightarrow> (\<exists>out. r' = Inr out)" by blast
      have run: "read_blocks z window (block_at sizes b0 b) pos fin admit [i..<e] c =
          Some (bindR r' (\<lambda>rest. Inr (get_bytes s n out @ rest)), c')"
        using dec x rest(1) by (simp add: upt)
      have "get_bytes (max pos (i * ?bs)) (min fin ((i + 1) * ?bs) - max pos (i * ?bs)) img @
          get_bytes (max pos ((i + 1) * ?bs)) (min fin (e * ?bs) - max pos ((i + 1) * ?bs)) img =
          get_bytes (max pos (i * ?bs)) (min fin (e * ?bs) - max pos (i * ?bs)) img"
      proof (cases "fin \<le> (i + 1) * ?bs")
        case True
        moreover have "fin \<le> e * ?bs" using True mult_le_mono1 [of "i + 1" e ?bs] \<open>i < e\<close> by linarith
        ultimately show ?thesis by (simp add: min_def)
      next
        case False
        let ?m = "(i + 1) * ?bs"
        have m: "max pos ?m = ?m" "max pos (i * ?bs) \<le> ?m" "?m \<le> min fin (e * ?bs)"
          using less.prems(5) False mult_le_mono1 [of "i + 1" e ?bs] \<open>i < e\<close> by auto
        have "min fin (e * ?bs) - max pos (i * ?bs) = (?m - max pos (i * ?bs)) + (min fin (e * ?bs) - ?m)" using m by simp
        then show ?thesis
          using get_bytes_append [of "max pos (i * ?bs)" "?m - max pos (i * ?bs)" "min fin (e * ?bs) - ?m" img] m False by simp
      qed
      then have "r' = Inr rest \<Longrightarrow> get_bytes s n out @ rest =
          get_bytes (max pos (i * ?bs)) (min fin (e * ?bs) - max pos (i * ?bs)) img" for rest
        using rest(3) ok [OF x, THEN conjunct2] by simp
      then show ?thesis unfolding run using rest(2,4) by (cases r') simp_all
    qed
  qed
qed


lemma read_loop_ok:
  assumes h: "holds_image z sizes b0 content img" and fin: "offset + count \<le> z_size z" and c: "cache_ok z img c" and pos: "pos \<le> count"
  shows "\<exists>r c'. read_loop z offset count admit pos c = Some (r, c') \<and> cache_ok z img c' \<and>
    (\<forall>out. r = Inr out \<longrightarrow> out = get_bytes (offset + pos) (count - pos) img) \<and>
    (intact z sizes b0 content \<longrightarrow> (\<exists>out. r = Inr out))"
  using c pos
proof (induction "count - pos" arbitrary: pos c rule: less_induct)
  case less
  let ?bs = "z_block_size z" and ?O = "block_at sizes b0" and ?at = "offset + pos"
  show ?case
  proof (cases "pos \<ge> count")
    case True
    then show ?thesis using less.prems by (simp add: read_loop.simps)
  next
    case False
    obtain crc where jb: "jump_build sizes b0 ?bs crc = Inr (z_jump z)" and src: "blob_source (z_src z) content"
      and cover: "z_size z \<le> length sizes * ?bs" and ilen: "length img = z_size z" using h by (auto simp: holds_image_def)
    have bs: "0 < ?bs" using jb by (auto simp: jump_build_def block_size_ok_def split: if_splits)
    let ?b = "?at div ?bs" and ?l = "(offset + count - 1) div ?bs"
    have bl: "?b \<le> ?l" using False by (intro div_le_mono) simp
    have "?l * ?bs \<le> offset + count - 1" by (rule div_times_less_eq_dividend)
    then have lb: "?l * ?bs < offset + count" using False by linarith
    have ln: "?l + 1 \<le> length sizes"
    proof -
      have "?l * ?bs < length sizes * ?bs" using lb fin cover by linarith
      then show ?thesis using bs by simp
    qed
    have J: "i \<le> length sizes \<Longrightarrow> jump_at (z_jump z) i = Some (?O i)" for i using jump_at_offset [OF jb] by (simp add: block_at_def)
    obtain e where e: "batch_end (z_jump z) (?O ?b) ?l (?b + 1) = Some e" "?b + 1 \<le> e" "e \<le> ?l + 1"
      using batch_end_range [of ?l "z_jump z" "?b + 1" "?O ?b"] J ln bl by fastforce
    note loop = read_loop.simps [of z offset count admit pos c, unfolded Let_def if_not_P [OF False]]
    have Jb: "jump_at (z_jump z) ?b = Some (?O ?b)" and Je: "jump_at (z_jump z) e = Some (?O e)" using J ln bl e by auto
    note loop = loop [unfolded Jb Option.bind.simps(2) e(1) Je]
    show ?thesis
    proof (cases "src_pread (z_src z) (?O e - ?O ?b) (?O ?b)")
      case (Inl err)
      moreover have "\<not> intact z sizes b0 content" using Inl by (auto simp: intact_def) (metis Inl_Inr_False)
      ultimately show ?thesis using loop less.prems(1) by auto
    next
      case (Inr window)
      have w: "window = get_bytes (?O ?b) (?O e - ?O ?b) content" using blob_source.pread_content [OF src Inr] .
      show ?thesis
      proof (cases "length window = ?O e - ?O ?b")
        case short: False
        have "\<not> intact z sizes b0 content"
        proof
          assume "intact z sizes b0 content"
          then have "?O e \<le> length content" using block_at_mono [of e "length sizes" sizes b0] e(3) ln by (auto simp: intact_def)
          then show False using short w block_at_mono [of ?b e sizes b0] e(2) by (simp add: length_get_bytes)
        qed
        then show ?thesis using loop Inr short less.prems(1) by auto
      next
        case full: True
        have "?at < (?b + 1) * ?bs" using bs by (simp add: dividend_less_div_times)
        moreover have "(e - 1) * ?bs < offset + count" using lb e(3) mult_le_mono1 [of "e - 1" ?l ?bs] by linarith
        ultimately obtain r c' where rb: "read_blocks z window (?O ?b) ?at (offset + count) admit [?b..<e] c = Some (r, c')" "cache_ok z img c'"
            "\<forall>out. r = Inr out \<longrightarrow> out = get_bytes (max ?at (?b * ?bs)) (min (offset + count) (e * ?bs) - max ?at (?b * ?bs)) img"
            "intact z sizes b0 content \<longrightarrow> (\<exists>out. r = Inr out)"
          using read_blocks_ok [OF h fin less.prems(1), of ?b ?b e ?at window admit] e ln w full by auto
        have at: "max ?at (?b * ?bs) = ?at" by (rule max_absorb1) (rule div_times_less_eq_dividend)
        show ?thesis
        proof (cases r)
          case (Inl err)
          then show ?thesis using loop Inr full rb by auto
        next
          case out: (Inr out)
          let ?n = "min (offset + count) (e * ?bs) - ?at"
          have o: "out = get_bytes ?at ?n img" using rb(3) out at by simp
          have "?at < e * ?bs"
            using \<open>?at < (?b + 1) * ?bs\<close> mult_le_mono1 [OF e(2), of ?bs] by linarith
          then have n: "0 < ?n" "?n \<le> count - pos" using False by auto
          have ol: "length out = ?n" unfolding o using n fin ilen False by (intro length_get_bytes) simp
          have lt: "count - (pos + ?n) < count - pos" "pos + ?n \<le> count" using n by auto
          from less.hyps [OF lt(1) rb(2) lt(2)]
          obtain r2 c2 where rest: "read_loop z offset count admit (pos + length out) c' = Some (r2, c2)" "cache_ok z img c2"
              "\<forall>out'. r2 = Inr out' \<longrightarrow> out' = get_bytes (offset + (pos + ?n)) (count - (pos + ?n)) img"
              "intact z sizes b0 content \<longrightarrow> (\<exists>out. r2 = Inr out)"
            unfolding ol by blast
          have "get_bytes ?at (count - pos) img = out @ get_bytes (offset + (pos + ?n)) (count - (pos + ?n)) img"
            unfolding o using get_bytes_append [of ?at ?n "count - (pos + ?n)" img] n by (simp add: add.assoc)
          moreover have "read_loop z offset count admit pos c = Some (bindR r2 (\<lambda>rest. Inr (out @ rest)), c2)"
            using loop Inr full rb(1) out rest(1) by simp
          ultimately show ?thesis using rest by auto
        qed
      qed
    qed
  qed
qed

lemma zfile_pread_spec:
  assumes h: "holds_image z sizes b0 content img" and c: "cache_ok z img c"
  shows "\<exists>r c'. zfile_pread z count offset c = Some (r, c') \<and> cache_ok z img c' \<and>
    (\<forall>out. r = Inr out \<longrightarrow> out = get_bytes offset count img) \<and>
    (intact z sizes b0 content \<longrightarrow> r = Inr (get_bytes offset count img))"
proof (cases "offset \<ge> z_size z \<or> count = 0")
  case True
  then have "zfile_pread z count offset c = Some (Inr [], c)" by (auto simp: zfile_pread_def Let_def)
  moreover have "get_bytes offset count img = []" using True h by (auto simp: holds_image_def get_bytes_def)
  ultimately show ?thesis using c by auto
next
  case False
  define n where "n = (if count > z_size z - offset then z_size z - offset else count)"
  let ?bs = "z_block_size z"
  let ?i = "offset div ?bs" and ?o = "offset mod ?bs"
  define can where "can = (n < min ?bs (z_size z - ?i * ?bs) \<and> n \<le> min ?bs (z_size z - ?i * ?bs) - ?o)"
  have n: "n \<noteq> 0" "offset + n \<le> z_size z" using False by (auto simp: n_def)
  have gb: "get_bytes offset n img = get_bytes offset count img"
    using h by (auto simp: n_def holds_image_def get_bytes_def)
  obtain hit admit c1 where get: "(if can then decoded_get ?i c else (None, False, c)) = (hit, admit, c1)"
    by (cases "if can then decoded_get ?i c else (None, False, c)")
  have run: "zfile_pread z count offset c = (case hit of Some b \<Rightarrow> Some (Inr (get_bytes ?o n b), c1)
      | None \<Rightarrow> read_loop z offset n admit 0 c1)"
    using False n(1) get unfolding zfile_pread_def Let_def n_def [symmetric] can_def [symmetric] by simp
  have c1: "cache_ok z img c1" using get decoded_get_ok(1) [OF c] c by (auto split: if_splits)
  show ?thesis
  proof (cases hit)
    case None
    then show ?thesis using run read_loop_ok [OF h n(2) c1, of 0 admit] gb by auto
  next
    case (Some b)
    then have can: can and b: "b = get_bytes (?i * ?bs) ?bs img"
      using get decoded_get_ok(2) [OF c] by (auto split: if_splits)
    have "?o + n \<le> ?bs" using can n(1) by (auto simp: can_def)
    then have "get_bytes ?o n b = get_bytes offset n img"
      unfolding b using get_get_bytes [of ?o n ?bs "?i * ?bs" img] by simp
    then show ?thesis using run Some c1 gb by auto
  qed
qed

end
