(* ===== verification/ZFileWrite.thy ===== *)
theory ZFileWrite
  imports ZFileRead FileIo
begin

text \<open>
  \<open>src/format/writer.cpp\<close>, the ZFile half: compress a file block by block, write index, header and trailer.

  The file it writes opens with the reader of \<open>ZFileRead\<close>, and reads return the input; under faults of the source
  reads return an error or the input, and always end.
\<close>

record ZFileWriteOptions =
  zw_block_size :: "32 word"
  zw_algo :: byte
  zw_level :: byte
  zw_verify :: bool
  zw_calc_digest :: bool

definition block_entry :: "bool \<Rightarrow> bytes \<Rightarrow> bytes" where
  "block_entry verify c = c @ (if verify then store_u32_le (crc32c_salt False 0 c) else [])"

text \<open>The loop over the blocks of the input: the output file grows and the index collects the entry sizes.\<close>

function write_blocks :: "BlockCodec \<Rightarrow> nat \<Rightarrow> bool \<Rightarrow> bytes \<Rightarrow> nat \<Rightarrow> nat \<Rightarrow> bytes \<Rightarrow> nat \<Rightarrow> nat list \<Rightarrow> script
    \<Rightarrow> (bytes \<times> nat \<times> nat list) result \<times> script" where
  "write_blocks codec bs verify input in_size pos out out_pos index io =
     (if pos \<ge> in_size \<or> bs = 0 then (Inr (out, out_pos, index), io)
      else
        let chunk = min bs (in_size - pos) in
        case read_all chunk pos input io of
          (Inl e, io) \<Rightarrow> (Inl e, io)
        | (Inr in_buf, io) \<Rightarrow>
            (case bc_compress codec in_buf (bc_bound codec bs + 8) of
               Inl _ \<Rightarrow> (Inl EIO, io)
             | Inr cbuf \<Rightarrow>
                 if cbuf = [] then (Inl EIO, io)
                 else
                   (case write_all cbuf out_pos out io of
                      (Some e, _, io) \<Rightarrow> (Inl e, io)
                    | (None, out, io) \<Rightarrow>
                        let out_pos = out_pos + length cbuf in
                        if verify then
                          (case write_all (store_u32_le (crc32c_salt False 0 cbuf)) out_pos out io of
                             (Some e, _, io) \<Rightarrow> (Inl e, io)
                           | (None, out, io) \<Rightarrow>
                               write_blocks codec bs verify input in_size (pos + chunk) out (out_pos + 4)
                                 (index @ [(length cbuf + 4) mod 2 ^ 32]) io)
                        else
                          write_blocks codec bs verify input in_size (pos + chunk) out out_pos
                            (index @ [length cbuf mod 2 ^ 32]) io)))"
  by pat_completeness auto
termination
  by (relation "measure (\<lambda>(codec, bs, verify, input, in_size, pos, out, out_pos, index, io). in_size - pos)") auto

declare write_blocks.simps [simp del]

definition seal_region :: "bool \<Rightarrow> ZHeader \<Rightarrow> ZHeader \<times> bytes" where
  "seal_region calc_digest ht = (if calc_digest then set_region_digest ht (z_serialize ht) else (ht, z_serialize ht))"

definition zfile_header :: "ZFileWriteOptions \<Rightarrow> nat \<Rightarrow> nat \<Rightarrow> nat list \<Rightarrow> bytes \<Rightarrow> ZHeader" where
  "zfile_header opts in_size index_offset index raw_index =
     (let ht = z_set_flag z_kFlagShiftSealed (z_set_flag z_kFlagShiftType default_zheader);
          ht = (if zw_calc_digest opts then z_set_flag kFlagShiftCalcDigest ht else ht)
      in ht\<lparr>zh_index_offset := of_nat index_offset, zh_index_size := of_nat (length index),
            zh_original_file_size := of_nat in_size, zh_index_crc := crc_of raw_index,
            zh_opt := default_options\<lparr>co_block_size := zw_block_size opts, co_algo := zw_algo opts, co_level := zw_level opts,
              co_use_dict := 0, co_dict_size := 0, co_verify := (if zw_verify opts then 1 else 0)\<rparr>\<rparr>)"

definition finish_zfile :: "ZFileWriteOptions \<Rightarrow> nat \<Rightarrow> bytes \<Rightarrow> nat \<Rightarrow> nat list \<Rightarrow> script \<Rightarrow> bytes result \<times> script" where
  "finish_zfile opts in_size out index_offset index io =
     (let raw_index = concat (map (\<lambda>n. store_u32_le (of_nat n)) index) in
      case (if length raw_index > 0 then write_all raw_index index_offset out io else (None, out, io)) of
        (Some e, _, io) \<Rightarrow> (Inl e, io)
      | (None, out, io) \<Rightarrow>
          (case seal_region (zw_calc_digest opts) (z_set_flag z_kFlagShiftHeader (zfile_header opts in_size index_offset index raw_index)) of
             (ht, region) \<Rightarrow>
               (case write_all region 0 out io of
                  (Some e, _, io) \<Rightarrow> (Inl e, io)
                | (None, out, io) \<Rightarrow>
                    (case seal_region (zw_calc_digest opts) ((z_clr_flag z_kFlagShiftHeader ht)\<lparr>zh_digest := 0\<rparr>) of
                       (ht, region) \<Rightarrow>
                         let trailer_offset = index_offset + length raw_index in
                         (case write_all region trailer_offset out io of
                            (Some e, _, io) \<Rightarrow> (Inl e, io)
                          | (None, out, io) \<Rightarrow>
                              (case sys_call io of
                                 (Some e, io) \<Rightarrow> (Inl e, io)
                               | (None, io) \<Rightarrow> (Inr (take (trailer_offset + z_kSpace) out), io)))))))"

definition write_zfile :: "CodecLib \<Rightarrow> ZFileWriteOptions \<Rightarrow> bytes \<Rightarrow> nat \<Rightarrow> script \<Rightarrow> bytes result \<times> script" where
  "write_zfile lib opts input in_size io =
     (let bs = unat (zw_block_size opts) in
      if \<not> block_size_ok bs then (Inl EINVAL, io)
      else case create_block_codec lib (zw_algo opts) (zw_level opts) of
        None \<Rightarrow> (Inl EINVAL, io)
      | Some codec \<Rightarrow>
          (case sys_call io of (Some e, io) \<Rightarrow> (Inl e, io) | (None, io) \<Rightarrow>
            (case write_all (zeros z_kSpace) 0 [] io of (Some e, _, io) \<Rightarrow> (Inl e, io) | (None, out, io) \<Rightarrow>
              (case write_blocks codec bs (zw_verify opts) input in_size 0 out z_kSpace [] io of
                 (Inl e, io) \<Rightarrow> (Inl e, io)
               | (Inr (out, out_pos, index), io) \<Rightarrow> finish_zfile opts in_size out out_pos index io))))"

text \<open>A sequence of reads, each with the cache the one before left.\<close>

fun zfile_reads :: "ZFile \<Rightarrow> (nat \<times> nat) list \<Rightarrow> DecodedCache \<Rightarrow> bytes result list option" where
  "zfile_reads z [] c = Some []"
| "zfile_reads z ((count, offset) # reqs) c =
     (case zfile_pread z count offset c of
        None \<Rightarrow> None
      | Some (r, c) \<Rightarrow> map_option ((#) r) (zfile_reads z reqs c))"

section \<open>What the block loop writes\<close>

lemma write_blocks_ok:
  assumes "write_blocks codec bs verify input in_size pos out out_pos index io = (Inr (out', out_pos', index'), io')"
    "0 < bs" "out_pos = length out" "pos = k * bs \<or> in_size \<le> pos"
  shows "\<exists>cs. out' = out @ concat (map (block_entry verify) cs) \<and> out_pos' = length out' \<and>
    index' = index @ map (\<lambda>c. length (block_entry verify c) mod 2 ^ 32) cs \<and>
    (\<forall>j < length cs. bc_compress codec (get_bytes ((k + j) * bs) (min bs (in_size - (k + j) * bs)) input) (bc_bound codec bs + 8) = Inr (cs ! j) \<and>
       (k + j) * bs < in_size \<and> (k + j) * bs + min bs (in_size - (k + j) * bs) \<le> length input) \<and>
    (pos < in_size \<longrightarrow> in_size \<le> (k + length cs) * bs)"
  using assms
proof (induction "in_size - pos" arbitrary: pos k out out_pos index io rule: less_induct)
  case less
  show ?case
  proof (cases "pos \<ge> in_size \<or> bs = 0")
    case True
    then show ?thesis using less.prems by (intro exI [of _ "[]"]) (auto simp: write_blocks.simps)
  next
    case False
    then have pos: "pos = k * bs" "pos < in_size" using less.prems(4) by auto
    let ?n = "min bs (in_size - pos)"
    obtain r io1 where rd: "read_all ?n pos input io = (r, io1)" by (cases "read_all ?n pos input io")
    note run = less.prems(1) [unfolded write_blocks.simps [of codec bs verify input in_size pos] if_not_P [OF False] Let_def rd prod.case]
    obtain buf where r: "r = Inr buf" using run by (cases r) auto
    have buf: "buf = get_bytes pos ?n input" "pos + ?n \<le> length input" using read_all_Inr rd r by blast+
    note run = run [unfolded r sum.case]
    obtain c where c: "bc_compress codec buf (bc_bound codec bs + 8) = Inr c" "c \<noteq> []"
      using run by (cases "bc_compress codec buf (bc_bound codec bs + 8)") (auto split: if_splits)
    have none: "write_all b o' f i = (None, f', i') \<Longrightarrow> f' = file_write o' b f" for b o' f i f' i'
      by (auto simp: write_all_def split: outcome.splits)
    obtain out2 io2 where run2: "write_blocks codec bs verify input in_size (pos + ?n) out2 (length out2)
        (index @ [length (block_entry verify c) mod 2 ^ 32]) io2 = (Inr (out', out_pos', index'), io')"
      and out2: "out2 = out @ block_entry verify c"
    proof -
      obtain w o1 io1' where w: "write_all c out_pos out io1 = (w, o1, io1')" by (cases "write_all c out_pos out io1")
      note run = run [unfolded c(1) sum.case if_not_P [OF c(2)] w prod.case]
      have w': "w = None" using run by (cases w) auto
      have o1: "o1 = out @ c" using none [OF w [unfolded w']] less.prems(3) by (simp add: file_write_end)
      note run = run [unfolded w' option.case]
      show thesis
      proof (cases verify)
        case False
        then show thesis using run o1 less.prems(3) by (intro that [of o1 io1']) (simp_all add: block_entry_def)
      next
        case True
        let ?crc = "store_u32_le (crc32c_salt False 0 c)"
        obtain w2 o2 io3 where w2: "write_all ?crc (out_pos + length c) o1 io1' = (w2, o2, io3)"
          by (cases "write_all ?crc (out_pos + length c) o1 io1'")
        note run = run [unfolded if_P [OF True] w2 prod.case]
        have w2': "w2 = None" using run by (cases w2) auto
        have "o2 = file_write (length o1) ?crc o1" using none [OF w2 [unfolded w2']] o1 less.prems(3) by simp
        then have "o2 = o1 @ ?crc" by (simp add: file_write_end)
        then show thesis using run True w2' o1 less.prems(3) by (intro that [of o2 io3]) (simp_all add: block_entry_def add.assoc)
      qed
    qed
    have lt: "in_size - (pos + ?n) < in_size - pos" using False by auto
    have nxt: "pos + ?n = (k + 1) * bs \<or> in_size \<le> pos + ?n" using pos by auto
    from less.hyps [OF lt run2 less.prems(2) refl nxt] obtain cs where cs:
      "out' = out2 @ concat (map (block_entry verify) cs)" "out_pos' = length out'"
      "index' = (index @ [length (block_entry verify c) mod 2 ^ 32]) @ map (\<lambda>c. length (block_entry verify c) mod 2 ^ 32) cs"
      "\<forall>j < length cs. bc_compress codec (get_bytes ((k + 1 + j) * bs) (min bs (in_size - (k + 1 + j) * bs)) input) (bc_bound codec bs + 8) = Inr (cs ! j) \<and>
         (k + 1 + j) * bs < in_size \<and> (k + 1 + j) * bs + min bs (in_size - (k + 1 + j) * bs) \<le> length input"
      "pos + ?n < in_size \<longrightarrow> in_size \<le> (k + 1 + length cs) * bs" by blast
    show ?thesis
    proof (intro exI [of _ "c # cs"] conjI allI impI)
      show "out' = out @ concat (map (block_entry verify) (c # cs))" "out_pos' = length out'"
        "index' = index @ map (\<lambda>c. length (block_entry verify c) mod 2 ^ 32) (c # cs)" using cs out2 by simp_all
      show "in_size \<le> (k + length (c # cs)) * bs" using cs(5) pos by (cases "pos + ?n < in_size") (auto simp: add_mult_distrib)
      fix j assume j: "j < length (c # cs)"
      show "bc_compress codec (get_bytes ((k + j) * bs) (min bs (in_size - (k + j) * bs)) input) (bc_bound codec bs + 8) = Inr ((c # cs) ! j)"
        "(k + j) * bs < in_size" "(k + j) * bs + min bs (in_size - (k + j) * bs) \<le> length input"
        using j cs(4) c(1) buf pos by (cases j; force simp: add.assoc)+
    qed
  qed
qed


section \<open>Regions and flags\<close>

lemma put_bytes_middle: "length old = length bs \<Longrightarrow> put_bytes (length a) bs (a @ old @ b) = a @ bs @ b"
  by (simp add: put_bytes_def)

lemma z_fields_digest: "put_bytes 28 (store_u32_le x) (z_fields ht) = z_fields (ht\<lparr>zh_digest := x\<rparr>)"
proof -
  let ?a = "z_kMagic0 @ z_kMagic1 @ store_u32_le (of_nat z_kHeaderSize)"
  obtain b where b: "\<And>d. z_fields (ht\<lparr>zh_digest := d\<rparr>) = ?a @ store_u32_le d @ b"
    by (simp add: z_fields_def)
  have "z_fields ht = ?a @ store_u32_le (zh_digest ht) @ b" using b [of "zh_digest ht"] by simp
  moreover have "length ?a = 28" by simp
  ultimately show ?thesis using put_bytes_middle [of "store_u32_le (zh_digest ht)" "store_u32_le x" ?a b] b by simp
qed

lemma z_get_flag_iff: "z_get_flag ht k \<longleftrightarrow> bit (zh_flags ht) k"
proof -
  have "drop_bit k (zh_flags ht) AND 1 = of_bool (bit (zh_flags ht) k)"
    by (rule bit_word_eqI) (auto simp: bit_simps)
  then show ?thesis by (simp add: z_get_flag_def)
qed

lemma z_flag_simps [simp]:
  "s < 64 \<Longrightarrow> z_get_flag (z_set_flag s ht) k \<longleftrightarrow> k = s \<or> z_get_flag ht k"
  "z_get_flag (z_clr_flag s ht) k \<longleftrightarrow> k \<noteq> s \<and> z_get_flag ht k"
  "z_get_flag (ht\<lparr>zh_digest := d\<rparr>) k \<longleftrightarrow> z_get_flag ht k"
  "\<not> z_get_flag default_zheader k"
  by (auto simp: z_get_flag_iff z_set_flag_def z_clr_flag_def default_zheader_def bit_simps dest: bit_imp_le_length)

lemma seal_region_ok:
  assumes "seal_region calc ht = (ht', region)" "z_get_flag ht kFlagShiftCalcDigest \<longrightarrow> calc"
  shows "region = z_fields ht'" "\<exists>d. ht' = ht\<lparr>zh_digest := d\<rparr>" "region_digest_ok ht' region"
proof -
  have len: "take z_kSpace (z_fields h) = z_fields h" for h by simp
  have "(region = z_fields ht' \<and> (\<exists>d. ht' = ht\<lparr>zh_digest := d\<rparr>)) \<and> region_digest_ok ht' region"
  proof (cases calc)
    case False
    then show ?thesis using assms
      by (auto simp: seal_region_def z_serialize_eq region_digest_ok_def intro: exI [of _ "zh_digest ht"])
  next
    case True
    then have "ht' = ht\<lparr>zh_digest := crc_of (z_fields (ht\<lparr>zh_digest := 0\<rparr>))\<rparr>" "region = z_fields ht'"
      using assms(1) by (auto simp: seal_region_def set_region_digest_def z_serialize_eq Let_def z_fields_digest len)
    then show ?thesis by (auto simp: region_digest_ok_def len z_fields_digest)
  qed
  then show "region = z_fields ht'" "\<exists>d. ht' = ht\<lparr>zh_digest := d\<rparr>" "region_digest_ok ht' region" by auto
qed

lemma load_sizes_store:
  assumes "\<forall>n \<in> set index. n < 2 ^ 32"
  shows "load_sizes (length index) (concat (map (\<lambda>n. store_u32_le (of_nat n)) index)) = index"
proof (rule nth_equalityI)
  show "length (load_sizes (length index) (concat (map (\<lambda>n. store_u32_le (of_nat n)) index))) = length index"
    by (simp add: load_sizes_def)
  fix i assume "i < length (load_sizes (length index) (concat (map (\<lambda>n. store_u32_le (of_nat n)) index)))"
  then have i: "i < length index" by (simp add: load_sizes_def)
  have "drop (i * 4) (concat (map (\<lambda>n. store_u32_le (of_nat n)) index)) = concat (map (\<lambda>n. store_u32_le (of_nat n)) (drop i index))"
    using i
  proof (induction index arbitrary: i)
    case (Cons n index)
    then show ?case by (cases i) simp_all
  qed simp
  moreover have "drop i index = index ! i # drop (Suc i) index" using i by (simp add: Cons_nth_drop_Suc)
  ultimately have "load_u32_le (drop (i * 4) (concat (map (\<lambda>n. store_u32_le (of_nat n)) index))) = of_nat (index ! i)" by simp
  moreover have "unat (of_nat (index ! i) :: 32 word) = index ! i"
    using assms i by (simp add: unsigned_of_nat take_bit_nat_eq_self)
  ultimately show "load_sizes (length index) (concat (map (\<lambda>n. store_u32_le (of_nat n)) index)) ! i = index ! i"
    using i by (simp add: load_sizes_def)
qed

lemma jump_loop_succeeds:
  assumes "\<forall>c \<in> set cs. m < c \<and> c \<le> M" "0 < gs" "(gs - 1) * M < kUinttypeMax" "0 < i" "delta \<le> ((i - 1) mod gs) * M"
  shows "\<exists>r. jump_loop gs m i cs raw delta = Inr r"
  using assms
proof (induction cs arbitrary: i raw delta)
  case (Cons c cs)
  show ?case
  proof (cases "i mod gs = 0")
    case True
    then obtain r where "jump_loop gs m (i + 1) cs (raw + c) 0 = Inr r" using Cons.IH [of "i + 1" 0 "raw + c"] Cons.prems by auto
    then show ?thesis using True Cons.prems(1) by (cases r) simp
  next
    case False
    have "i mod gs = Suc ((i - 1) mod gs)" using False Cons.prems(4) mod_Suc [of "i - 1" gs] by (auto split: if_splits)
    then have d: "delta + c \<le> (i mod gs) * M" using Cons.prems(1,5) by simp
    also have "\<dots> \<le> (gs - 1) * M" using Cons.prems(2) mod_less_divisor [of gs i] by (intro mult_le_mono1) linarith
    finally have "delta + c < kUinttypeMax" using Cons.prems(3) by linarith
    moreover obtain r where "jump_loop gs m (i + 1) cs (raw + c) (delta + c) = Inr r"
      using Cons.IH [of "i + 1" "delta + c" "raw + c"] Cons.prems d by auto
    ultimately show ?thesis using False Cons.prems(1) by (cases r) simp
  qed
qed simp


section \<open>The written file\<close>

text \<open>The layout: header, block entries, index, trailer.\<close>

lemma finish_zfile_ok:
  fixes opts in_size index_offset index
  assumes run: "finish_zfile opts in_size (zeros z_kSpace @ blocks) index_offset index io = (Inr f, io')"
    and off: "index_offset = z_kSpace + length blocks"
  defines "raw \<equiv> concat (map (\<lambda>n. store_u32_le (of_nat n)) index)"
  defines "ht \<equiv> zfile_header opts in_size index_offset index raw"
  shows "\<exists>d1 d2. f = z_fields (z_set_flag z_kFlagShiftHeader ht\<lparr>zh_digest := d1\<rparr>) @ blocks @ raw @
      z_fields (z_clr_flag z_kFlagShiftHeader (z_set_flag z_kFlagShiftHeader ht)\<lparr>zh_digest := d2\<rparr>) \<and>
    region_digest_ok (z_set_flag z_kFlagShiftHeader ht\<lparr>zh_digest := d1\<rparr>) (z_fields (z_set_flag z_kFlagShiftHeader ht\<lparr>zh_digest := d1\<rparr>))"
proof -
  have none: "write_all b o' f i = (None, f', i') \<Longrightarrow> f' = file_write o' b f" for b o' f i f' i'
    by (auto simp: write_all_def split: outcome.splits)
  have flag: "z_get_flag ht kFlagShiftCalcDigest \<longrightarrow> zw_calc_digest opts" "z_get_flag (z_set_flag z_kFlagShiftHeader ht) kFlagShiftCalcDigest \<longrightarrow> zw_calc_digest opts"
    by (auto simp: ht_def zfile_header_def Let_def z_get_flag_iff z_set_flag_def default_zheader_def bit_simps kFlagShiftCalcDigest_def
      z_kFlagShiftSealed_def z_kFlagShiftType_def z_kFlagShiftHeader_def)
  obtain w o1 io1 where w: "(if length raw > 0 then write_all raw index_offset (zeros z_kSpace @ blocks) io else (None, zeros z_kSpace @ blocks, io)) = (w, o1, io1)"
    by (cases "if length raw > 0 then write_all raw index_offset (zeros z_kSpace @ blocks) io else (None, zeros z_kSpace @ blocks, io)")
  note r = run [unfolded finish_zfile_def Let_def raw_def [symmetric] ht_def [symmetric] w prod.case]
  have w': "w = None" using r by (cases w) auto
  have o1: "o1 = zeros z_kSpace @ blocks @ raw"
    using w w' off by (auto dest!: none simp: file_write_def split: if_splits)
  obtain h1 reg1 where s1: "seal_region (zw_calc_digest opts) (z_set_flag z_kFlagShiftHeader ht) = (h1, reg1)"
    by (cases "seal_region (zw_calc_digest opts) (z_set_flag z_kFlagShiftHeader ht)")
  note sr1 = seal_region_ok [OF s1 flag(2)]
  obtain d1 where d1: "h1 = z_set_flag z_kFlagShiftHeader ht\<lparr>zh_digest := d1\<rparr>" using sr1(2) by blast
  obtain w2 o2 io2 where w2: "write_all reg1 0 o1 io1 = (w2, o2, io2)" by (cases "write_all reg1 0 o1 io1")
  note r = r [unfolded w' option.case s1 prod.case w2]
  have w2': "w2 = None" using r by (cases w2) auto
  have o2: "o2 = reg1 @ blocks @ raw" using none [OF w2 [unfolded w2']] o1 sr1(1) by (auto simp: file_write_def z_kSpace_def z_fields_def)
  let ?t = "z_clr_flag z_kFlagShiftHeader h1\<lparr>zh_digest := 0\<rparr>"
  obtain h2 reg2 where s2: "seal_region (zw_calc_digest opts) ?t = (h2, reg2)" by (cases "seal_region (zw_calc_digest opts) ?t")
  have "z_get_flag ?t kFlagShiftCalcDigest \<longrightarrow> zw_calc_digest opts" using flag(2) d1 by simp
  note sr2 = seal_region_ok [OF s2 this]
  obtain d2 where d2: "h2 = ?t\<lparr>zh_digest := d2\<rparr>" using sr2(2) by blast
  obtain w3 o3 io3 where w3: "write_all reg2 (index_offset + length raw) o2 io2 = (w3, o3, io3)"
    by (cases "write_all reg2 (index_offset + length raw) o2 io2")
  note r = r [unfolded w2' option.case s2 prod.case w3]
  have w3': "w3 = None" using r by (cases w3) auto
  have o3: "o3 = o2 @ reg2" using none [OF w3 [unfolded w3']] o2 off sr1(1) sr2(1) by (auto simp: file_write_def)
  have "f = take (index_offset + length raw + z_kSpace) o3"
    using r w3' by (cases "sys_call io3") (auto split: option.splits)
  then have "f = reg1 @ blocks @ raw @ reg2" using o3 o2 off sr1(1) sr2(1) by simp
  moreover have "h2 = z_clr_flag z_kFlagShiftHeader (z_set_flag z_kFlagShiftHeader ht)\<lparr>zh_digest := d2\<rparr>"
    by (simp add: d2 d1 z_clr_flag_def)
  ultimately show ?thesis using sr1 sr2(1) d1 by blast
qed

lemma write_zfile_layout:
  assumes run: "write_zfile lib opts input in_size io = (Inr f, io')" and codec: "create_block_codec lib (zw_algo opts) (zw_level opts) = Some codec"
  defines "bs \<equiv> unat (zw_block_size opts)" and "v \<equiv> zw_verify opts"
  shows "block_size_ok bs \<and> (\<exists>cs d1 d2 raw ht.
    raw = concat (map (\<lambda>n. store_u32_le (of_nat n)) (map (\<lambda>c. length (block_entry v c) mod 2 ^ 32) cs)) \<and>
    ht = zfile_header opts in_size (z_kSpace + length (concat (map (block_entry v) cs))) (map (\<lambda>c. length (block_entry v c) mod 2 ^ 32) cs) raw \<and>
    f = z_fields (z_set_flag z_kFlagShiftHeader ht\<lparr>zh_digest := d1\<rparr>) @ concat (map (block_entry v) cs) @ raw @
      z_fields (z_clr_flag z_kFlagShiftHeader (z_set_flag z_kFlagShiftHeader ht)\<lparr>zh_digest := d2\<rparr>) \<and>
    region_digest_ok (z_set_flag z_kFlagShiftHeader ht\<lparr>zh_digest := d1\<rparr>) (z_fields (z_set_flag z_kFlagShiftHeader ht\<lparr>zh_digest := d1\<rparr>)) \<and>
    (\<forall>j < length cs. bc_compress codec (get_bytes (j * bs) (min bs (in_size - j * bs)) input) (bc_bound codec bs + 8) = Inr (cs ! j) \<and>
       j * bs < in_size \<and> j * bs + min bs (in_size - j * bs) \<le> length input) \<and>
    in_size \<le> length cs * bs)"
proof -
  have none: "write_all b o' f i = (None, f', i') \<Longrightarrow> f' = file_write o' b f" for b o' f i f' i'
    by (auto simp: write_all_def split: outcome.splits)
  have ok: "block_size_ok bs" using run by (auto simp: write_zfile_def bs_def Let_def split: if_splits)
  note r = run [unfolded write_zfile_def Let_def bs_def [symmetric] v_def [symmetric] eqTrueI [OF ok] not_True_eq_False if_False codec option.case]
  obtain a io1 where a: "sys_call io = (a, io1)" by (cases "sys_call io")
  note r = r [unfolded a prod.case]
  have a': "a = None" using r by (cases a) auto
  obtain w o1 io2 where w: "write_all (zeros z_kSpace) 0 [] io1 = (w, o1, io2)" by (cases "write_all (zeros z_kSpace) 0 [] io1")
  note r = r [unfolded a' option.case w prod.case]
  have w': "w = None" using r by (cases w) auto
  have o1: "o1 = zeros z_kSpace" using none [OF w [unfolded w']] by (auto simp: file_write_def)
  obtain b io3 where b: "write_blocks codec bs v input in_size 0 o1 z_kSpace [] io2 = (b, io3)"
    by (cases "write_blocks codec bs v input in_size 0 o1 z_kSpace [] io2")
  note r = r [unfolded w' option.case b prod.case]
  obtain o2 p2 index where b': "b = Inr (o2, p2, index)" using r by (cases b) auto
  have bs: "0 < bs" using ok by (simp add: block_size_ok_def)
  from write_blocks_ok [OF b [unfolded b'] bs _, of 0] o1 obtain cs where cs:
    "o2 = zeros z_kSpace @ concat (map (block_entry v) cs)" "p2 = length o2" "index = map (\<lambda>c. length (block_entry v c) mod 2 ^ 32) cs"
    "\<forall>j < length cs. bc_compress codec (get_bytes (j * bs) (min bs (in_size - j * bs)) input) (bc_bound codec bs + 8) = Inr (cs ! j) \<and>
       j * bs < in_size \<and> j * bs + min bs (in_size - j * bs) \<le> length input"
    "0 < in_size \<longrightarrow> in_size \<le> length cs * bs" by auto
  have fin: "finish_zfile opts in_size (zeros z_kSpace @ concat (map (block_entry v) cs)) (z_kSpace + length (concat (map (block_entry v) cs)))
      (map (\<lambda>c. length (block_entry v c) mod 2 ^ 32) cs) io3 = (Inr f, io')"
    using r [unfolded b' sum.case prod.case] cs(1-3) by simp
  have "in_size \<le> length cs * bs" using cs(5) by (cases "in_size = 0") auto
  then show ?thesis using finish_zfile_ok [OF fin refl] cs(4) ok by blast
qed


text \<open>Opening it again.\<close>

lemma zfile_header_simps:
  "zh_size (zfile_header opts n off index raw) = of_nat z_kHeaderSize"
  "zh_index_offset (zfile_header opts n off index raw) = of_nat off"
  "zh_index_size (zfile_header opts n off index raw) = of_nat (length index)"
  "zh_original_file_size (zfile_header opts n off index raw) = of_nat n"
  "zh_index_crc (zfile_header opts n off index raw) = crc_of raw"
  "co_block_size (zh_opt (zfile_header opts n off index raw)) = zw_block_size opts"
  "co_algo (zh_opt (zfile_header opts n off index raw)) = zw_algo opts"
  "co_level (zh_opt (zfile_header opts n off index raw)) = zw_level opts"
  "co_use_dict (zh_opt (zfile_header opts n off index raw)) = 0"
  "co_dict_size (zh_opt (zfile_header opts n off index raw)) = 0"
  "co_verify (zh_opt (zfile_header opts n off index raw)) \<noteq> 0 \<longleftrightarrow> zw_verify opts"
  "z_get_flag (zfile_header opts n off index raw) k \<longleftrightarrow>
     k = z_kFlagShiftSealed \<or> k = z_kFlagShiftType \<or> (zw_calc_digest opts \<and> k = kFlagShiftCalcDigest)"
proof -
  have upd: "z_get_flag (h\<lparr>zh_index_offset := a, zh_index_size := b, zh_original_file_size := c, zh_index_crc := d, zh_opt := e\<rparr>) k = z_get_flag h k"
    for h a b c d e by (simp add: z_get_flag_def)
  show "z_get_flag (zfile_header opts n off index raw) k \<longleftrightarrow>
     k = z_kFlagShiftSealed \<or> k = z_kFlagShiftType \<or> (zw_calc_digest opts \<and> k = kFlagShiftCalcDigest)"
    unfolding zfile_header_def Let_def upd by (auto simp: z_kFlagShiftSealed_def z_kFlagShiftType_def kFlagShiftCalcDigest_def)
qed (simp_all add: zfile_header_def Let_def default_zheader_def z_set_flag_def)

lemma z_flag_fields [simp]:
  "zh_size (z_set_flag s h) = zh_size h" "zh_size (z_clr_flag s h) = zh_size h"
  "zh_index_offset (z_set_flag s h) = zh_index_offset h" "zh_index_offset (z_clr_flag s h) = zh_index_offset h"
  "zh_index_size (z_set_flag s h) = zh_index_size h" "zh_index_size (z_clr_flag s h) = zh_index_size h"
  "zh_original_file_size (z_set_flag s h) = zh_original_file_size h" "zh_original_file_size (z_clr_flag s h) = zh_original_file_size h"
  "zh_index_crc (z_set_flag s h) = zh_index_crc h" "zh_index_crc (z_clr_flag s h) = zh_index_crc h"
  "zh_opt (z_set_flag s h) = zh_opt h" "zh_opt (z_clr_flag s h) = zh_opt h"
  by (simp_all add: z_set_flag_def z_clr_flag_def)

lemma open_written:
  assumes f: "f = z_fields h @ blocks @ raw @ z_fields t" and nofault: "\<And>n k. fault n k = None"
    and sizes: "zh_size h = of_nat z_kHeaderSize" "zh_size t = of_nat z_kHeaderSize"
    and hflags: "z_get_flag h z_kFlagShiftHeader" "z_get_flag h z_kFlagShiftType" "\<not> z_get_flag h kFlagShiftHeaderOverwrite"
    and tflags: "\<not> z_get_flag t z_kFlagShiftHeader" "z_get_flag t z_kFlagShiftType" "z_get_flag t z_kFlagShiftSealed"
    and dig: "region_digest_ok h (z_fields h)"
    and ix: "unat (zh_index_size t) = length index" "length index \<le> kMaxIndexSize" "raw = concat (map (\<lambda>n. store_u32_le (of_nat n)) index)"
      "\<forall>n \<in> set index. n < 2 ^ 32" "unat (zh_index_offset t) = z_kSpace + length blocks" "zh_index_crc t = crc_of raw"
    and len: "length f < U64"
    and opt: "co_use_dict (zh_opt t) = 0" "co_dict_size (zh_opt t) = 0"
    and codec: "create_block_codec lib (co_algo (zh_opt t)) (co_level (zh_opt t)) = Some codec"
    and jump: "jump_build index z_kSpace (unat (co_block_size (zh_opt t))) (co_verify (zh_opt t) \<noteq> 0) = Inr jump"
  shows "zfile_open lib (Some (local_file f fault)) v =
    Inr \<lparr>z_src = local_file f fault, z_ht = t, z_jump = jump, z_codec = codec, z_verify = (co_verify (zh_opt t) \<noteq> 0 \<and> v),
      z_block_size = unat (co_block_size (zh_opt t))\<rparr>"
proof -
  let ?src = "local_file f fault"
  have raw: "length raw = length index * 4" unfolding ix(3) by (induction index) simp_all
  have size: "src_size ?src = z_kSpace + length blocks + length raw + z_kSpace" by (simp add: local_file_def f)
  have r1: "read_exact ?src z_kSpace 0 = Inr (z_fields h)"
    using read_exact_ok [where fault = fault, OF nofault, of 0 z_kSpace f] by (simp add: f get_bytes_def)
  have r2: "read_exact ?src z_kSpace (src_size ?src - z_kSpace) = Inr (z_fields t)"
    unfolding size using read_exact_ok [where fault = fault, OF nofault, of "z_kSpace + length blocks + length raw" z_kSpace f]
    by (simp add: f get_bytes_def)
  have r3: "read_exact ?src (length index * 4) (z_kSpace + length blocks) = Inr raw"
    using read_exact_ok [where fault = fault, OF nofault, of "z_kSpace + length blocks" "length raw" f] raw by (simp add: f get_bytes_def)
  have eff: "effective_header ?src h = Inr t"
    using hflags tflags r2 z_parse_fields [OF sizes(2), of "[]"] by (simp add: effective_header_def)
  have sub: "\<not> length index * 4 > (src_size ?src - z_kSpace + U64 - (z_kSpace + length blocks)) mod U64"
  proof -
    have "src_size ?src - z_kSpace + U64 - (z_kSpace + length blocks) = length raw + U64" by (simp add: size)
    moreover have "length raw < U64" using len f by simp
    ultimately show ?thesis using raw by (simp only: mod_add_self2 mod_less)
  qed
  have av: "block_codec_available lib (co_algo (zh_opt t))" using codec block_codec_available_iff by fastforce
  have ls: "load_sizes (length index) raw = index" unfolding ix(3) using load_sizes_store ix(4) by blast
  have ld: "load_zfile lib ?src v h t = Inr \<lparr>z_src = local_file f fault, z_ht = t, z_jump = jump, z_codec = codec,
      z_verify = (co_verify (zh_opt t) \<noteq> 0 \<and> v), z_block_size = unat (co_block_size (zh_opt t))\<rparr>"
  proof -
    have if_raw: "(if length index * 4 > 0 then read_exact ?src (length index * 4) (z_kSpace + length blocks) else Inr []) = Inr raw"
      using r3 raw by auto
    show ?thesis
      unfolding load_zfile_def Let_def ix(1,5) if_raw using hflags(3) sub av ix(2,6) opt ls jump codec by simp
  qed
  show ?thesis
    using r1 z_parse_fields [OF sizes(1), of "[]"] hflags dig eff ld size by (simp add: zfile_open_def)
qed

lemma zfile_reads_ok:
  assumes h: "holds_image z sizes b0 content img" and i: "intact z sizes b0 content" and c: "cache_ok z img c"
  shows "zfile_reads z reqs c = Some (map (\<lambda>(n, off). Inr (get_bytes off n img)) reqs)"
  using c
proof (induction reqs arbitrary: c)
  case (Cons q reqs)
  obtain n off where q: "q = (n, off)" by (cases q)
  obtain c' where "zfile_pread z n off c = Some (Inr (get_bytes off n img), c')" "cache_ok z img c'"
    using zfile_pread_spec [OF h Cons.prems, of n off] i by blast
  then show ?case using Cons.IH q by simp
qed simp


lemma get_concat_part:
  assumes "i < length es" "es ! i = p @ m @ q"
  shows "get_bytes (length a + sum_list (map length (take i es)) + length p) (length m) (a @ concat es @ b) = m"
proof -
  have "es = take i es @ (p @ m @ q) # drop (Suc i) es" using assms by (metis id_take_nth_drop)
  then have "concat es = concat (take i es) @ p @ m @ q @ concat (drop (Suc i) es)" by (metis append_assoc concat.simps(2) concat_append)
  then have "a @ concat es @ b = (a @ concat (take i es) @ p) @ m @ q @ concat (drop (Suc i) es) @ b" by simp
  moreover have "length (a @ concat (take i es) @ p) = length a + sum_list (map length (take i es)) + length p"
    by (simp add: length_concat)
  ultimately show ?thesis by (metis append_eq_conv_conj get_bytes_def)
qed

lemma get_bytes_min_take: "get_bytes k n (take m xs) = get_bytes k (min n (m - k)) xs"
  by (simp add: get_bytes_def drop_take)

text \<open>A file made of the compressed blocks holds the input and is intact.\<close>

lemma entries_hold_image:
  assumes codec: "block_codec (z_codec z) True" and src: "z_src z = local_file f fault" and nofault: "\<And>n k. fault n k = None"
    and f: "f = head @ concat (map (block_entry (z_verify z)) cs) @ rest"
    and jump: "jump_build (map (\<lambda>c. length (block_entry (z_verify z) c)) cs) (length head) (z_block_size z) crc = Inr (z_jump z)"
    and cs: "\<forall>j < length cs. bc_compress (z_codec z) (get_bytes (j * z_block_size z) (min (z_block_size z) (z_size z - j * z_block_size z)) input)
       cap = Inr (cs ! j) \<and> j * z_block_size z + min (z_block_size z) (z_size z - j * z_block_size z) \<le> length input"
    and all: "z_size z \<le> length cs * z_block_size z" and size: "z_size z \<le> length input"
  defines "sizes \<equiv> map (\<lambda>c. length (block_entry (z_verify z) c)) cs"
  shows "holds_image z sizes (length head) f (take (z_size z) input)" "intact z sizes (length head) f"
proof -
  note dx = block_codec.decompress_exact [OF codec] and cd = block_codec.compress_decompress [OF codec TrueI]
  let ?bs = "z_block_size z" and ?es = "map (block_entry (z_verify z)) cs"
  have at: "block_at sizes (length head) i = length head + sum_list (map length (take i ?es))" for i
    by (simp add: block_at_def sizes_def take_map comp_def)
  have idx: "i < length cs" if "i * ?bs < z_size z" for i using that all mult_less_cancel2 [of i ?bs "length cs"] by linarith
  have parts: "block_payload z sizes (length head) f i = cs ! i"
    "z_verify z \<Longrightarrow> get_bytes (block_at sizes (length head) i + (sizes ! i - 4)) 4 f = store_u32_le (crc32c_salt False 0 (cs ! i))"
    "z_verify z \<Longrightarrow> 4 \<le> sizes ! i" if i: "i < length cs" for i
  proof -
    let ?crc = "store_u32_le (crc32c_salt False 0 (cs ! i))"
    have sz: "sizes ! i = length (cs ! i) + (if z_verify z then 4 else 0)" using i by (simp add: sizes_def block_entry_def)
    then show "z_verify z \<Longrightarrow> 4 \<le> sizes ! i" by simp
    show "block_payload z sizes (length head) f i = cs ! i"
      using get_concat_part [of i ?es "[]" "cs ! i" "if z_verify z then ?crc else []" head rest] i
      unfolding block_payload_def at f sz by (simp add: block_entry_def cong: if_cong)
    show "get_bytes (block_at sizes (length head) i + (sizes ! i - 4)) 4 f = ?crc" if "z_verify z"
      using get_concat_part [of i ?es "cs ! i" ?crc "[]" head rest] i that unfolding at f sz by (simp add: block_entry_def)
  qed
  have dec: "bc_decompress (z_codec z) (cs ! i) c (block_length z i) = Inr (get_bytes (i * ?bs) ?bs (take (z_size z) input))"
    if i: "i < length cs" and c: "block_length z i \<le> c" for i c
  proof -
    let ?d = "get_bytes (i * ?bs) (min ?bs (z_size z - i * ?bs)) input"
    have "length ?d = block_length z i" using cs i by (simp add: block_length_def length_get_bytes)
    then show ?thesis using cd [of ?d cap "cs ! i" c] cs i c by (simp add: get_bytes_min_take)
  qed
  show "holds_image z sizes (length head) f (take (z_size z) input)"
    unfolding holds_image_def
  proof (intro conjI allI impI)
    show "\<exists>crc. jump_build sizes (length head) ?bs crc = Inr (z_jump z)" using jump by (auto simp: sizes_def)
    show "blob_source (z_src z) f" unfolding src by (rule lf.blob_source_axioms)
    show "length (take (z_size z) input) = z_size z" "z_size z \<le> length sizes * ?bs" using size all by (simp_all add: sizes_def)
    fix i c out
    assume "i * ?bs < z_size z" and d: "bc_decompress (z_codec z) (block_payload z sizes (length head) f i) c (block_length z i) = Inr out"
    then show "out = get_bytes (i * ?bs) ?bs (take (z_size z) input)"
      using parts(1) idx dec [of i c] dx [OF d] by simp
  qed
  show "intact z sizes (length head) f"
    unfolding intact_def
  proof (intro conjI allI impI)
    show "\<exists>bs. src_pread (z_src z) n off = Inr bs" for n off
      unfolding src using local_pread_succeeds [where fault = fault, OF nofault] by blast
    show "block_at sizes (length head) (length sizes) \<le> length f" unfolding at by (simp add: f sizes_def length_concat)
    fix i
    assume "i * ?bs < z_size z"
    then have i: "i < length cs" by (rule idx)
    show "z_verify z \<Longrightarrow> 4 \<le> sizes ! i" using parts(3) i by blast
    show "load_u32_le (get_bytes (block_at sizes (length head) i + (sizes ! i - 4)) 4 f) = crc32c_salt False 0 (block_payload z sizes (length head) f i)"
      if "z_verify z" using parts(1,2) [OF i] that by simp
    show "\<exists>out. bc_decompress (z_codec z) (block_payload z sizes (length head) f i) c (block_length z i) = Inr out"
      if "block_length z i \<le> c" for c using dec [OF i that] parts(1) [OF i] by simp
  qed
qed


lemma write_zfile_opens:
  assumes lib: "lib_ok lib" and run: "write_zfile lib opts input in_size io = (Inr f, io')"
    and codec: "create_block_codec lib (zw_algo opts) (zw_level opts) = Some codec"
    and M: "\<forall>n \<le> unat (zw_block_size opts). bc_bound codec n + (if zw_verify opts then 4 else 0) \<le> M"
      "((kUinttypeMax + 1) div unat (zw_block_size opts) - 1) * M < kUinttypeMax" "M < 2 ^ 32"
    and count: "(in_size + unat (zw_block_size opts) - 1) div unat (zw_block_size opts) \<le> kMaxIndexSize"
    and len: "length f < U64" "in_size < U64" and nofault: "\<And>n k. fault n k = None" and v: "zw_verify opts \<longrightarrow> v"
  shows "\<exists>z sizes. zfile_open lib (Some (local_file f fault)) v = Inr z \<and> z_size z = in_size \<and> in_size \<le> length input \<and>
    holds_image z sizes z_kSpace f (take in_size input) \<and> intact z sizes z_kSpace f"
proof -
  let ?bs = "unat (zw_block_size opts)" and ?v = "zw_verify opts"
  let ?e = "block_entry ?v"
  obtain cs d1 d2 raw ht where ok: "block_size_ok ?bs"
    and raw: "raw = concat (map (\<lambda>n. store_u32_le (of_nat n)) (map (\<lambda>c. length (?e c) mod 2 ^ 32) cs))"
    and ht: "ht = zfile_header opts in_size (z_kSpace + length (concat (map ?e cs))) (map (\<lambda>c. length (?e c) mod 2 ^ 32) cs) raw"
    and f: "f = z_fields (z_set_flag z_kFlagShiftHeader ht\<lparr>zh_digest := d1\<rparr>) @ concat (map ?e cs) @ raw @
      z_fields (z_clr_flag z_kFlagShiftHeader (z_set_flag z_kFlagShiftHeader ht)\<lparr>zh_digest := d2\<rparr>)"
    and dig: "region_digest_ok (z_set_flag z_kFlagShiftHeader ht\<lparr>zh_digest := d1\<rparr>) (z_fields (z_set_flag z_kFlagShiftHeader ht\<lparr>zh_digest := d1\<rparr>))"
    and cs: "\<forall>j < length cs. bc_compress codec (get_bytes (j * ?bs) (min ?bs (in_size - j * ?bs)) input) (bc_bound codec ?bs + 8) = Inr (cs ! j) \<and>
       j * ?bs < in_size \<and> j * ?bs + min ?bs (in_size - j * ?bs) \<le> length input"
    and all: "in_size \<le> length cs * ?bs"
    using write_zfile_layout [OF run codec] by (elim conjE exE) (rule that; assumption)
  have bs: "0 < ?bs" using ok by (simp add: block_size_ok_def)
  have bc: "block_codec codec True" using create_block_codec_ok [OF codec] lib by simp
  have bounds: "0 < length c \<and> length (?e c) \<le> M" if c: "c \<in> set cs" for c
  proof -
    obtain j where j: "j < length cs" "c = cs ! j" using c by (auto simp: in_set_conv_nth)
    let ?d = "get_bytes (j * ?bs) (min ?bs (in_size - j * ?bs)) input"
    have "bc_compress codec ?d (bc_bound codec ?bs + 8) = Inr c" using cs j by blast
    then have "c \<noteq> []" "length c \<le> bc_bound codec (length ?d)" using block_codec.compress_size [OF bc TrueI] by blast+
    moreover have "length ?d \<le> ?bs" by (simp add: get_bytes_def)
    then have "bc_bound codec (length ?d) + (if ?v then 4 else 0) \<le> M" using M(1) by blast
    ultimately show ?thesis by (auto simp: block_entry_def)
  qed
  define sizes where "sizes = map (\<lambda>c. length (?e c)) cs"
  have sizes: "map (\<lambda>c. length (?e c) mod 2 ^ 32) cs = sizes" 
    unfolding sizes_def by (rule map_cong [OF refl]) (use bounds M(3) in \<open>fastforce intro: mod_less\<close>)
  have small: "\<forall>n \<in> set sizes. (if ?v then 4 else 0) < n \<and> n \<le> M"
    using bounds by (auto simp: sizes_def block_entry_def)
  obtain k where "(kUinttypeMax + 1) div ?bs = 2 ^ (16 - k)" using block_size_groups [OF ok] by blast
  then have gs: "0 < (kUinttypeMax + 1) div ?bs" by simp
  obtain r where "jump_loop ((kUinttypeMax + 1) div ?bs) (if ?v then 4 else 0) 1 sizes z_kSpace 0 = Inr r"
    using jump_loop_succeeds [OF small gs M(2), of 1 0 z_kSpace] by auto
  then obtain jump where jump: "jump_build sizes z_kSpace ?bs ?v = Inr jump"
    using ok by (cases r) (simp add: jump_build_def Let_def)
  have count': "length cs \<le> kMaxIndexSize"
  proof (cases cs)
    case (Cons c cs')
    then have "length cs' * ?bs < in_size" using cs by auto
    then have "length cs * ?bs \<le> in_size + ?bs - 1" using Cons by simp
    then have "length cs \<le> (in_size + ?bs - 1) div ?bs" using bs by (simp add: less_eq_div_iff_mult_less_eq)
    then show ?thesis using count by linarith
  qed simp
  have small_in: "in_size \<le> length input"
  proof (cases "in_size = 0")
    case False
    then have "0 < length cs" using all by (cases cs) auto
    then have "length cs - 1 < length cs" by simp
    then have "(length cs - 1) * ?bs + min ?bs (in_size - (length cs - 1) * ?bs) \<le> length input" using cs by blast
    moreover have "length cs * ?bs = (length cs - 1) * ?bs + ?bs" using \<open>0 < length cs\<close> by (simp add: mult_eq_if)
    ultimately show ?thesis using all by linarith
  qed simp
  let ?h = "z_set_flag z_kFlagShiftHeader ht\<lparr>zh_digest := d1\<rparr>" and ?t = "z_clr_flag z_kFlagShiftHeader (z_set_flag z_kFlagShiftHeader ht)\<lparr>zh_digest := d2\<rparr>"
  let ?z = "\<lparr>z_src = local_file f fault, z_ht = ?t, z_jump = jump, z_codec = codec, z_verify = ?v, z_block_size = ?bs\<rparr>"
  have len32: "length sizes < U64" "z_kSpace + length (concat (map ?e cs)) < U64"
    using count' len(1) f by (simp_all add: sizes_def kMaxIndexSize_def U64_def)
  note raw' = raw [unfolded sizes] and ht' = ht [unfolded sizes]
  have F: "zh_size ?h = of_nat z_kHeaderSize" "zh_size ?t = of_nat z_kHeaderSize"
    "z_get_flag ?h z_kFlagShiftHeader" "z_get_flag ?h z_kFlagShiftType" "\<not> z_get_flag ?h kFlagShiftHeaderOverwrite"
    "\<not> z_get_flag ?t z_kFlagShiftHeader" "z_get_flag ?t z_kFlagShiftType" "z_get_flag ?t z_kFlagShiftSealed"
    by (simp_all add: ht' zfile_header_simps z_kFlagShiftHeader_def z_kFlagShiftType_def z_kFlagShiftSealed_def
      kFlagShiftHeaderOverwrite_def kFlagShiftCalcDigest_def)
  have T: "unat (zh_index_size ?t) = length sizes" "unat (zh_index_offset ?t) = z_kSpace + length (concat (map ?e cs))"
    "zh_index_crc ?t = crc_of raw" "co_use_dict (zh_opt ?t) = 0" "co_dict_size (zh_opt ?t) = 0" "co_algo (zh_opt ?t) = zw_algo opts"
    "co_level (zh_opt ?t) = zw_level opts" "co_block_size (zh_opt ?t) = zw_block_size opts" "(co_verify (zh_opt ?t) \<noteq> 0) = ?v"
    using len32 by (simp_all add: ht' zfile_header_simps unat_of_u64 del: of_nat_add length_concat)
  have small': "\<forall>n \<in> set sizes. n < 2 ^ 32" using small M(3) by fastforce
  have "length sizes \<le> kMaxIndexSize" using count' by (simp add: sizes_def)
  note opened = open_written [where fault = fault and t = ?t and h = ?h, OF f nofault F dig T(1) this raw' small' T(2,3) len(1) T(4,5)]
  have op: "zfile_open lib (Some (local_file f fault)) v = Inr ?z"
    using opened [of lib codec jump v, unfolded T(6-9), OF codec jump] v by (cases ?v) simp_all
  have zs: "z_size ?z = in_size" using len(2) by (simp add: z_size_def ht zfile_header_simps unat_of_u64)
  define z where "z = ?z"
  have sel: "z_codec z = codec" "z_src z = local_file f fault" "z_verify z = ?v" "z_block_size z = ?bs" "z_jump z = jump" "z_size z = in_size"
    using zs by (simp_all add: z_def)
  have prem: "block_codec (z_codec z) True" "f = z_fields ?h @ concat (map (block_entry (z_verify z)) cs) @ raw @ z_fields ?t"
    "jump_build (map (\<lambda>c. length (block_entry (z_verify z) c)) cs) (length (z_fields ?h)) (z_block_size z) ?v = Inr (z_jump z)"
    "\<forall>j < length cs. bc_compress (z_codec z) (get_bytes (j * z_block_size z) (min (z_block_size z) (z_size z - j * z_block_size z)) input)
       (bc_bound codec ?bs + 8) = Inr (cs ! j) \<and> j * z_block_size z + min (z_block_size z) (z_size z - j * z_block_size z) \<le> length input"
    "z_size z \<le> length cs * z_block_size z" "z_size z \<le> length input"
    unfolding sel using bc f jump cs all small_in by (simp_all add: sizes_def)
  note held = entries_hold_image [OF prem(1) sel(2) nofault prem(2-6)]
  have "zfile_open lib (Some (local_file f fault)) v = Inr z" using op by (simp add: z_def)
  then show ?thesis using held [unfolded sel(6) length_z_fields] sel(6) small_in by blast
qed

lemma faulty_image:
  assumes "holds_image z sizes b0 f img" shows "holds_image (z\<lparr>z_src := local_file f fault\<rparr>) sizes b0 f img"
  using assms lf.blob_source_axioms [of f fault] by (simp add: holds_image_def block_payload_def block_length_def z_size_def)

lemma zfile_reads_safe:
  assumes h: "holds_image z sizes b0 content img" and c: "cache_ok z img c"
  shows "\<exists>rs. zfile_reads z reqs c = Some rs \<and> list_all2 (\<lambda>(n, off) r. \<forall>out. r = Inr out \<longrightarrow> out = get_bytes off n img) reqs rs"
  using c
proof (induction reqs arbitrary: c)
  case (Cons q reqs)
  obtain n off where q: "q = (n, off)" by (cases q)
  obtain r c' where "zfile_pread z n off c = Some (r, c')" "cache_ok z img c'" "\<forall>out. r = Inr out \<longrightarrow> out = get_bytes off n img"
    using zfile_pread_spec [OF h Cons.prems, of n off] by blast
  then show ?case using Cons.IH [of c'] q by auto
qed simp

text \<open>With the documented \<open>LZ4_compressBound\<close> and checksums, every block size from 2048 bytes on meets the bound on the entry
  size in the properties below; at 1024 bytes and less it does not.\<close>

lemma lz4_block_sizes:
  "\<forall>bs \<in> {2048, 4096, 8192, 16384, 32768, 65536}.
     ((kUinttypeMax + 1) div bs - 1) * (bs + bs div 255 + 16 + 4) < kUinttypeMax"
  by (simp add: kUinttypeMax_def)

text \<open>C7: Compression round trip.  Let the codec's bound on a compressed entry, checksum included, keep the sizes of one group of
  the jump table within its 16-bit deltas, let the number of blocks be within the index limit, let the source of the reader
  not fail, and let the reader verify when the file carries checksums.  Then a ZFile that \<open>write_zfile\<close> completed opens, and
  any sequence of reads from it, at any offsets and lengths and with whatever the decoded-block cache holds in between,
  returns exactly the input's bytes, clamped to its end.  For block sizes below the bound the writer can produce a
  file that does not open, and a reader that does not verify passes the checksum of a block to the decompressor.\<close>

theorem write_zfile_roundtrip:
  assumes lib: "lib_ok lib" and run: "write_zfile lib opts input in_size io = (Inr f, io')"
    and codec: "create_block_codec lib (zw_algo opts) (zw_level opts) = Some codec"
    and M: "\<forall>n \<le> unat (zw_block_size opts). bc_bound codec n + (if zw_verify opts then 4 else 0) \<le> M"
      "((kUinttypeMax + 1) div unat (zw_block_size opts) - 1) * M < kUinttypeMax" "M < 2 ^ 32"
    and count: "(in_size + unat (zw_block_size opts) - 1) div unat (zw_block_size opts) \<le> kMaxIndexSize"
    and len: "length f < U64" "in_size < U64" and nofault: "\<And>n k. fault n k = None" and v: "zw_verify opts \<longrightarrow> v"
  shows "\<exists>z. zfile_open lib (Some (local_file f fault)) v = Inr z \<and> z_size z = in_size \<and> in_size \<le> length input \<and>
    (\<forall>reqs. zfile_reads z reqs empty_cache = Some (map (\<lambda>(n, off). Inr (get_bytes off n (take in_size input))) reqs))"
  using write_zfile_opens [where fault = fault, OF assms] zfile_reads_ok empty_cache_ok by blast

text \<open>C10: Reads end and never return wrong data.  When the source fails, at any point and in any way the system reports, every
  read of a written ZFile still returns: the loop over block batches ends, no access leaves the jump table, and what is
  returned is an error or exactly the requested bytes.  Blocks cached before a failure stay correct.\<close>

theorem zfile_reads_under_faults:
  assumes lib: "lib_ok lib" and run: "write_zfile lib opts input in_size io = (Inr f, io')"
    and codec: "create_block_codec lib (zw_algo opts) (zw_level opts) = Some codec"
    and M: "\<forall>n \<le> unat (zw_block_size opts). bc_bound codec n + (if zw_verify opts then 4 else 0) \<le> M"
      "((kUinttypeMax + 1) div unat (zw_block_size opts) - 1) * M < kUinttypeMax" "M < 2 ^ 32"
    and count: "(in_size + unat (zw_block_size opts) - 1) div unat (zw_block_size opts) \<le> kMaxIndexSize"
    and len: "length f < U64" "in_size < U64" and nofault: "\<And>n k. fault n k = None" and v: "zw_verify opts \<longrightarrow> v"
  shows "\<exists>z. zfile_open lib (Some (local_file f fault)) v = Inr z \<and>
    (\<forall>fault' reqs. \<exists>rs. zfile_reads (z\<lparr>z_src := local_file f fault'\<rparr>) reqs empty_cache = Some rs \<and>
       list_all2 (\<lambda>(n, off) r. \<forall>out. r = Inr out \<longrightarrow> out = get_bytes off n (take in_size input)) reqs rs)"
  using write_zfile_opens [where fault = fault, OF assms] zfile_reads_safe [OF faulty_image empty_cache_ok] by blast

text \<open>A library that stores blocks with a marker byte, for the concrete instances below.\<close>

definition stored_lib :: CodecLib where
  "stored_lib = \<lparr>LZ4_decompress_safe = (\<lambda>out n. if length out \<le> n + 1 then Some (tl out) else None),
     LZ4_compress_default = (\<lambda>src cap. if length src < cap then Some (0 # src) else None), LZ4_compressBound = Suc,
     LZ4_MAX_INPUT_SIZE = 2113929216, have_zstd = False, ZSTD_decompress = (\<lambda>n out. None), ZSTD_compress = (\<lambda>cap src level. None),
     ZSTD_compressBound = (\<lambda>n. n)\<rparr>"

definition plain_options :: ZFileWriteOptions where
  "plain_options = \<lparr>zw_block_size = 4096, zw_algo = kAlgoLz4, zw_level = 0, zw_verify = True, zw_calc_digest = True\<rparr>"

lemma stored_lib_ok: "lib_ok stored_lib"
  by (auto simp: lib_ok_def stored_lib_def split: if_splits)

lemma plain_codec: "create_block_codec stored_lib (zw_algo plain_options) (zw_level plain_options) = Some (lz4_codec stored_lib)"
  by (simp add: create_block_codec_def plain_options_def)

lemma plain_bs: "unat (zw_block_size plain_options) = 4096"
  by (simp add: plain_options_def)

lemma plain_bound: "\<forall>n \<le> 4096. bc_bound (lz4_codec stored_lib) n + (if zw_verify plain_options then 4 else 0) \<le> 4101"
  by (simp add: lz4_codec_def stored_lib_def)

lemma plain_writes: "\<exists>f. write_zfile stored_lib plain_options [1, 2, 3] 3 [] = (Inr f, []) \<and> length f < U64"
proof -
  have ok: "block_size_ok 4096" by (simp add: block_size_ok_def)
  have codec: "create_block_codec stored_lib kAlgoLz4 0 = Some (lz4_codec stored_lib)" by (simp add: create_block_codec_def)
  have c: "lz4_compress stored_lib [1, 2, 3] 4105 = Inr [0, 1, 2, 3]" by (simp add: lz4_compress_def stored_lib_def)
  have blocks: "write_blocks (lz4_codec stored_lib) 4096 True [1, 2, 3] 3 0 (zeros z_kSpace) z_kSpace [] [] =
      (Inr (zeros z_kSpace @ [0, 1, 2, 3] @ store_u32_le (crc32c_salt False 0 [0, 1, 2, 3]), z_kSpace + 8, [8]), [])"
    using c
    by (simp add: write_blocks.simps lz4_codec_def stored_lib_def file_write_def get_bytes_def
      read_all_def write_all_def next_outcome_def z_kSpace_def)
  have fin: "\<exists>f. finish_zfile plain_options 3 out off index [] = (Inr f, []) \<and> length f \<le> off + 4 * length index + z_kSpace" for out off index
  proof -
    have "length (concat (map (\<lambda>n. store_u32_le (word_of_nat n)) index)) = 4 * length index" by (induction index) simp_all
    then show ?thesis
      by (simp add: finish_zfile_def Let_def write_all_def next_outcome_def sys_call_def split: prod.splits)
  qed
  have "write_zfile stored_lib plain_options [1, 2, 3] 3 [] = finish_zfile plain_options 3
      (zeros z_kSpace @ [0, 1, 2, 3] @ store_u32_le (crc32c_salt False 0 [0, 1, 2, 3])) (z_kSpace + 8) [8] []"
    using ok codec blocks file_write_end [of "[]" "zeros z_kSpace"]
    by (simp add: write_zfile_def plain_options_def sys_call_def write_all_def next_outcome_def)
  moreover obtain f where "finish_zfile plain_options 3
      (zeros z_kSpace @ [0, 1, 2, 3] @ store_u32_le (crc32c_salt False 0 [0, 1, 2, 3])) (z_kSpace + 8) [8] [] = (Inr f, [])"
    "length f \<le> z_kSpace + 8 + 4 * length [8 :: nat] + z_kSpace" using fin by blast
  ultimately show ?thesis by (auto simp: z_kSpace_def U64_def)
qed

theorem write_zfile_roundtrip_witness:
  "\<exists>f z. write_zfile stored_lib plain_options [1, 2, 3] 3 [] = (Inr f, []) \<and>
     zfile_open stored_lib (Some (local_file f (\<lambda>_ _. None))) True = Inr z \<and>
     zfile_reads z [(2, 1), (9, 0), (2, 1)] empty_cache = Some [Inr [2, 3], Inr [1, 2, 3], Inr [2, 3]]"
proof -
  obtain f where f: "write_zfile stored_lib plain_options [1, 2, 3] 3 [] = (Inr f, [])" "length f < U64"
    using plain_writes by blast
  obtain z where z: "zfile_open stored_lib (Some (local_file f (\<lambda>_ _. None))) True = Inr z"
    "\<And>reqs. zfile_reads z reqs empty_cache = Some (map (\<lambda>(n, off). Inr (get_bytes off n (take 3 [1, 2, 3]))) reqs)"
    using write_zfile_roundtrip [OF stored_lib_ok f(1) plain_codec, unfolded plain_bs, OF plain_bound _ _ _ f(2), of "\<lambda>_ _. None" True]
    by (auto simp: kUinttypeMax_def kMaxIndexSize_def U64_def)
  have "zfile_reads z [(2, 1), (9, 0), (2, 1)] empty_cache = Some [Inr [2, 3], Inr [1, 2, 3], Inr [2, 3]]"
    unfolding z(2) by (simp add: get_bytes_def)
  then show ?thesis using f(1) z(1) by blast
qed

theorem zfile_reads_under_faults_witness:
  "\<exists>f z. write_zfile stored_lib plain_options [1, 2, 3] 3 [] = (Inr f, []) \<and>
     zfile_open stored_lib (Some (local_file f (\<lambda>_ _. None))) True = Inr z \<and>
     (\<exists>r. zfile_reads (z\<lparr>z_src := local_file f (\<lambda>n off. if 8 \<le> n then Some EIO else None)\<rparr>) [(2, 1)] empty_cache = Some [r] \<and>
        (\<forall>out. r = Inr out \<longrightarrow> out = [2, 3]))"
proof -
  obtain f where f: "write_zfile stored_lib plain_options [1, 2, 3] 3 [] = (Inr f, [])" "length f < U64"
    using plain_writes by blast
  obtain z where z: "zfile_open stored_lib (Some (local_file f (\<lambda>_ _. None))) True = Inr z"
    "\<exists>rs. zfile_reads (z\<lparr>z_src := local_file f (\<lambda>n off. if 8 \<le> n then Some EIO else None)\<rparr>) [(2, 1)] empty_cache = Some rs \<and>
       list_all2 (\<lambda>(n, off) r. \<forall>out. r = Inr out \<longrightarrow> out = get_bytes off n (take 3 [1, 2, 3])) [(2, 1)] rs"
    using zfile_reads_under_faults [OF stored_lib_ok f(1) plain_codec, unfolded plain_bs, OF plain_bound _ _ _ f(2), of "\<lambda>_ _. None" True]
    by (auto simp: kUinttypeMax_def kMaxIndexSize_def U64_def simp del: zfile_reads.simps)
  then show ?thesis using f(1) by (auto simp: list_all2_Cons1 get_bytes_def simp del: zfile_reads.simps)
qed

end
