(* ===== verification/TagEngine.thy ===== *)
theory TagEngine
  imports FileIo
begin

text \<open>
  \<open>src/ublk/tag_engine.cpp\<close> and \<open>tag_engine.hpp\<close>, with \<open>IoRequest\<close> of \<open>queue.hpp\<close>: the reusable tag handlers of
  one queue and the mailbox through which a handler that dies on a foreign worker still answers its request.

  The engine is a record of the fields of \<open>Impl\<close>, the calls of its sink and, per tag, the point its coroutine has
  reached. \<open>engine_step\<close> interleaves the calls of the owner with the handlers and, access by access, with the guard
  \<open>HandlerGuard\<close>, which may run on another worker. The event of a tag is its flag: \<open>set\<close> and \<open>reset\<close> write it and a
  waiting handler goes on once it is set. What the source returns, whether the sink throws, whether setting the event or
  spawning a handler finds memory are arbitrary at every step. The owner repeats a signal that found no memory before
  its next call, as \<open>admit\<close> asks; \<open>eg_retry\<close> is that obligation. The dispatch of a request to the source, the part of
  \<open>run_tag\<close> between \<open>Serving\<close> and \<open>Returned\<close>, is left out: a handler returns an arbitrary result or throws.
\<close>

unbundle bit_operations_syntax

section \<open>The mailbox of foreign results\<close>

definition kStateBits :: nat where "kStateBits = 2"
definition kArmed :: "64 word" where "kArmed = 1"
definition kWriting :: "64 word" where "kWriting = 2"
definition kReady :: "64 word" where "kReady = 3"
definition kMaxGeneration :: "64 word" where "kMaxGeneration = drop_bit kStateBits (NOT 0)"

definition mailbox_state :: "64 word \<Rightarrow> 64 word \<Rightarrow> 64 word" where
  "mailbox_state gen st = push_bit kStateBits gen OR st"

record MailSlot =
  ms_state :: "64 word"
  ms_result :: int

record OwnerResult =
  or_tag :: nat
  or_generation :: "64 word"
  or_result :: int

definition mailbox_new :: "nat \<Rightarrow> MailSlot list result" where
  "mailbox_new depth = (if depth = 0 then Inl EINVAL else Inr (replicate depth \<lparr>ms_state = 0, ms_result = 0\<rparr>))"

definition mail_valid :: "MailSlot list \<Rightarrow> nat \<Rightarrow> 64 word \<Rightarrow> bool" where
  "mail_valid mb tag gen \<longleftrightarrow> \<not> (tag \<ge> length mb \<or> gen = 0 \<or> gen > kMaxGeneration)"

definition mail_cas :: "nat \<Rightarrow> 64 word \<Rightarrow> 64 word \<Rightarrow> MailSlot list \<Rightarrow> bool \<times> MailSlot list" where
  "mail_cas tag expected desired mb =
     (if ms_state (mb ! tag) = expected then (True, mb[tag := (mb ! tag)\<lparr>ms_state := desired\<rparr>]) else (False, mb))"

definition mail_arm :: "nat \<Rightarrow> 64 word \<Rightarrow> MailSlot list \<Rightarrow> bool \<times> MailSlot list" where
  "mail_arm tag gen mb = (if \<not> mail_valid mb tag gen then (False, mb) else mail_cas tag 0 (mailbox_state gen kArmed) mb)"

definition mail_retire :: "nat \<Rightarrow> 64 word \<Rightarrow> MailSlot list \<Rightarrow> bool \<times> MailSlot list" where
  "mail_retire tag gen mb = (if \<not> mail_valid mb tag gen then (False, mb) else mail_cas tag (mailbox_state gen kArmed) 0 mb)"

text \<open>\<open>publish\<close> is three atomic accesses: claim the slot, store the result, release it.\<close>

definition publish_claim :: "nat \<Rightarrow> 64 word \<Rightarrow> MailSlot list \<Rightarrow> bool \<times> MailSlot list" where
  "publish_claim tag gen mb =
     (if \<not> mail_valid mb tag gen then (False, mb) else mail_cas tag (mailbox_state gen kArmed) (mailbox_state gen kWriting) mb)"

definition publish_store :: "nat \<Rightarrow> int \<Rightarrow> MailSlot list \<Rightarrow> MailSlot list" where
  "publish_store tag r mb = mb[tag := (mb ! tag)\<lparr>ms_result := r\<rparr>]"

definition publish_release :: "nat \<Rightarrow> 64 word \<Rightarrow> MailSlot list \<Rightarrow> MailSlot list" where
  "publish_release tag gen mb = mb[tag := (mb ! tag)\<lparr>ms_state := mailbox_state gen kReady\<rparr>]"

definition mail_publish :: "OwnerResult \<Rightarrow> MailSlot list \<Rightarrow> bool \<times> MailSlot list" where
  "mail_publish r mb = (case publish_claim (or_tag r) (or_generation r) mb of
     (False, mb) \<Rightarrow> (False, mb)
   | (True, mb) \<Rightarrow> (True, publish_release (or_tag r) (or_generation r) (publish_store (or_tag r) (or_result r) mb)))"

definition mail_take :: "nat \<Rightarrow> 64 word \<Rightarrow> MailSlot list \<Rightarrow> OwnerResult option \<times> MailSlot list" where
  "mail_take tag gen mb =
     (if \<not> mail_valid mb tag gen then (None, mb)
      else let ready = mailbox_state gen kReady in
        if ms_state (mb ! tag) \<noteq> ready then (None, mb)
        else let value = ms_result (mb ! tag) in
          case mail_cas tag ready 0 mb of
            (False, mb) \<Rightarrow> (None, mb)
          | (True, mb) \<Rightarrow> (Some \<lparr>or_tag = tag, or_generation = gen, or_result = value\<rparr>, mb))"

section \<open>The engine\<close>

record IoRequest =
  rq_tag :: nat
  rq_op :: "8 word"
  rq_flags :: "32 word"
  rq_start_sector :: "64 word"
  rq_nr_sectors :: "32 word"

definition byte_offset :: "IoRequest \<Rightarrow> nat" where "byte_offset rq = unat (rq_start_sector rq * 512)"
definition byte_len :: "IoRequest \<Rightarrow> nat" where "byte_len rq = unat (rq_nr_sectors rq * 512)"

text \<open>
  Where the handler of a tag is: not spawned; on its way to the first loop turn; suspended on its event; woken; inside the
  source; back with a result; and the accesses of \<open>HandlerGuard::mark_failed\<close> up to the failure flag. The waits for the owner
  worker are part of \<open>Start\<close>, \<open>Woken\<close> and \<open>Returned\<close>.
\<close>

datatype Phase =
    Absent | Start | Waiting | Woken | Serving IoRequest "64 word" | Returned "64 word" int
  | GuardLoad | GuardClaim "64 word" | GuardStore "64 word" | GuardRelease "64 word" | GuardFlag | Gone

record TagState =
  ts_request :: "IoRequest option"
  ts_ready :: bool
  ts_generation :: "64 word"
  ts_next_generation :: "64 word"
  ts_busy :: bool
  ts_started :: bool
  ts_closing :: bool
  ts_active_generation :: "64 word"
  ts_handler_failed :: bool
  ts_phase :: Phase

definition tag_new :: TagState where
  "tag_new = \<lparr>ts_request = None, ts_ready = False, ts_generation = 0, ts_next_generation = 1, ts_busy = False, ts_started = False,
     ts_closing = False, ts_active_generation = 0, ts_handler_failed = False, ts_phase = Absent\<rparr>"

text \<open>\<open>eg_published\<close> and \<open>eg_failures\<close> are the calls of the sink, \<open>eg_wakes\<close> counts guards between their flag and their wake,
  \<open>eg_retry\<close> is the tag whose signal the owner still has to repeat, \<open>eg_sweep\<close> the tag the loop of
  \<open>collect_foreign_results\<close> comes to next while the owner is inside it.\<close>

record Engine =
  eg_tags :: "TagState list"
  eg_mailbox :: "MailSlot list"
  eg_foreign_pending :: bool
  eg_closed :: bool
  eg_published :: "OwnerResult list"
  eg_failures :: "errno list"
  eg_wakes :: nat
  eg_retry :: "nat option"
  eg_sweep :: "nat option"

definition EPROTO :: errno where "EPROTO = Errno 71"
definition ESHUTDOWN :: errno where "ESHUTDOWN = Errno 108"

definition engine_new :: "nat \<Rightarrow> Engine result" where
  "engine_new depth = bindR (mailbox_new depth) (\<lambda>mb. Inr
     \<lparr>eg_tags = replicate depth tag_new, eg_mailbox = mb, eg_foreign_pending = False, eg_closed = False, eg_published = [],
      eg_failures = [], eg_wakes = 0, eg_retry = None, eg_sweep = None\<rparr>)"

definition upd_tag :: "nat \<Rightarrow> (TagState \<Rightarrow> TagState) \<Rightarrow> Engine \<Rightarrow> Engine" where
  "upd_tag t f e = e\<lparr>eg_tags := (eg_tags e)[t := f (eg_tags e ! t)]\<rparr>"

definition sink_fail :: "errno \<Rightarrow> Engine \<Rightarrow> Engine" where
  "sink_fail err e = e\<lparr>eg_failures := eg_failures e @ [err]\<rparr>"

definition sink_publish :: "OwnerResult \<Rightarrow> Engine \<Rightarrow> Engine" where
  "sink_publish r e = e\<lparr>eg_published := eg_published e @ [r]\<rparr>"

text \<open>The loop body of \<open>collect_foreign_results\<close>; \<open>throws\<close> says whether the sink throws.\<close>

definition collect_tag :: "(nat \<Rightarrow> bool) \<Rightarrow> nat \<Rightarrow> Engine \<Rightarrow> Engine" where
  "collect_tag throws t e =
     (let slot = eg_tags e ! t in
      if \<not> ts_handler_failed slot then e
      else
        let (taken, mb) = (if ts_generation slot \<noteq> 0 then mail_take t (ts_generation slot) (eg_mailbox e) else (None, eg_mailbox e));
            e = upd_tag t (\<lambda>s. s\<lparr>ts_handler_failed := False\<rparr>) (e\<lparr>eg_mailbox := mb\<rparr>);
            e = (if ts_busy slot \<noteq> (taken \<noteq> None) then sink_fail EPROTO e else e);
            e = upd_tag t (\<lambda>s. s\<lparr>ts_active_generation := 0, ts_started := False, ts_busy := False, ts_ready := False\<rparr>) e
        in case taken of None \<Rightarrow> e | Some r \<Rightarrow> if throws t then sink_fail EIO e else sink_publish r e)"

definition collect_foreign_results :: "(nat \<Rightarrow> bool) \<Rightarrow> Engine \<Rightarrow> Engine" where
  "collect_foreign_results throws e =
     (if \<not> eg_foreign_pending e then e
      else fold (collect_tag throws) [0..<length (eg_tags e)] (e\<lparr>eg_foreign_pending := False\<rparr>))"

text \<open>\<open>signal\<close>: \<open>ok\<close> says whether setting the event finds memory.\<close>

definition signal :: "bool \<Rightarrow> nat \<Rightarrow> Engine \<Rightarrow> bool \<times> Engine" where
  "signal ok t e = (if ok then (True, upd_tag t (\<lambda>s. s\<lparr>ts_ready := True\<rparr>) e) else (False, e))"

text \<open>
  \<open>admit\<close> behind its call of \<open>collect_foreign_results\<close>. When \<open>spawned\<close> is false \<open>handlers.spawn\<close> throws: the guard of the
  rejected handler runs and the exception leaves \<open>admit\<close> before the signal.
\<close>

definition admit_request :: "bool \<Rightarrow> bool \<Rightarrow> IoRequest \<Rightarrow> Engine \<Rightarrow> bool result \<times> Engine" where
  "admit_request spawned ok rq e =
     (let t = rq_tag rq in
      if t \<ge> length (eg_tags e) \<or> ts_busy (eg_tags e ! t) then (Inl EIO, sink_fail EIO e)
      else
        let next = ts_next_generation (eg_tags e ! t) in
        if next = 0 \<or> next > kMaxGeneration then (Inl EOVERFLOW, sink_fail EOVERFLOW e)
        else
          let e = upd_tag t (\<lambda>s. s\<lparr>ts_next_generation := next + 1\<rparr>) e in
          case mail_arm t next (eg_mailbox e) of
            (False, _) \<Rightarrow> (Inl EPROTO, sink_fail EPROTO e)
          | (True, mb) \<Rightarrow>
              let e = upd_tag t (\<lambda>s. s\<lparr>ts_request := Some rq, ts_generation := next, ts_busy := True, ts_active_generation := next\<rparr>)
                        (e\<lparr>eg_mailbox := mb\<rparr>);
                  started = ts_started (eg_tags e ! t);
                  e = (if started then e
                       else upd_tag t (\<lambda>s. s\<lparr>ts_started := True, ts_phase := (if spawned then Start else GuardLoad)\<rparr>) e)
              in if \<not> started \<and> \<not> spawned then (Inl ENOMEM, e)
                 else let (signaled, e) = signal ok t e in (Inr signaled, e\<lparr>eg_retry := (if signaled then None else Some t)\<rparr>))"

definition admit :: "(nat \<Rightarrow> bool) \<Rightarrow> bool \<Rightarrow> bool \<Rightarrow> IoRequest \<Rightarrow> Engine \<Rightarrow> bool result \<times> Engine" where
  "admit throws spawned ok rq e =
     (if eg_closed e then (Inl ESHUTDOWN, sink_fail ESHUTDOWN e)
      else admit_request spawned ok rq (collect_foreign_results throws e))"

definition retry_signal :: "bool \<Rightarrow> nat \<Rightarrow> Engine \<Rightarrow> bool result \<times> Engine" where
  "retry_signal ok t e =
     (if t \<ge> length (eg_tags e) then (Inl EIO, sink_fail EIO e)
      else let (signaled, e) = signal ok t e in (Inr signaled, if signaled then e\<lparr>eg_retry := None\<rparr> else e))"

definition begin_close :: "Engine \<Rightarrow> Engine" where
  "begin_close e =
     (if eg_closed e then e
      else e\<lparr>eg_closed := True, eg_retry := None, eg_tags := map (\<lambda>s. s\<lparr>ts_closing := True\<rparr>) (eg_tags e)\<rparr>)"

definition retry_close_signal :: "bool \<Rightarrow> nat \<Rightarrow> Engine \<Rightarrow> bool result \<times> Engine" where
  "retry_close_signal ok t e =
     (if t \<ge> length (eg_tags e) then (Inl EIO, sink_fail EIO e)
      else if \<not> ts_started (eg_tags e ! t) then (Inr True, e)
      else let (signaled, e) = signal ok t e in (Inr signaled, e))"

section \<open>The handler of a tag\<close>

definition loop_top :: "nat \<Rightarrow> Engine \<Rightarrow> Engine" where
  "loop_top t e = upd_tag t (\<lambda>s. s\<lparr>ts_phase := (if ts_closing s \<and> \<not> ts_busy s then Gone else Waiting)\<rparr>) e"

text \<open>Behind \<open>ready.wait()\<close>, back on the owner.\<close>

definition run_woken :: "nat \<Rightarrow> Engine \<Rightarrow> Engine" where
  "run_woken t e =
     (let e = upd_tag t (\<lambda>s. s\<lparr>ts_ready := False\<rparr>) e; s = eg_tags e ! t in
      if \<not> ts_busy s then (if ts_closing s then upd_tag t (\<lambda>s. s\<lparr>ts_phase := Gone\<rparr>) e else loop_top t e)
      else case ts_request s of
        None \<Rightarrow> e
      | Some rq \<Rightarrow> upd_tag t (\<lambda>s. s\<lparr>ts_phase := Serving rq (ts_generation s)\<rparr>) e)"

definition run_returned :: "nat \<Rightarrow> 64 word \<Rightarrow> int \<Rightarrow> Engine \<Rightarrow> Engine" where
  "run_returned t gen r e =
     (let e = sink_publish \<lparr>or_tag = t, or_generation = gen, or_result = r\<rparr> e;
          (ok, mb) = mail_retire t gen (eg_mailbox e);
          e = e\<lparr>eg_mailbox := mb\<rparr>;
          e = (if ok then e else sink_fail EPROTO e)
      in loop_top t (upd_tag t (\<lambda>s. s\<lparr>ts_active_generation := 0, ts_busy := False\<rparr>) e))"

definition set_phase :: "nat \<Rightarrow> Phase \<Rightarrow> Engine \<Rightarrow> Engine" where
  "set_phase t p e = upd_tag t (\<lambda>s. s\<lparr>ts_phase := p\<rparr>) e"

definition guard_load :: "nat \<Rightarrow> Engine \<Rightarrow> Engine" where
  "guard_load t e = (let gen = ts_active_generation (eg_tags e ! t) in set_phase t (if gen \<noteq> 0 then GuardClaim gen else GuardFlag) e)"

definition guard_claim :: "nat \<Rightarrow> 64 word \<Rightarrow> Engine \<Rightarrow> Engine" where
  "guard_claim t gen e = (case publish_claim t gen (eg_mailbox e) of
     (True, mb) \<Rightarrow> set_phase t (GuardStore gen) (e\<lparr>eg_mailbox := mb\<rparr>)
   | (False, _) \<Rightarrow> set_phase t GuardFlag (sink_fail EPROTO e))"

definition guard_store :: "nat \<Rightarrow> 64 word \<Rightarrow> Engine \<Rightarrow> Engine" where
  "guard_store t gen e = set_phase t (GuardRelease gen) (e\<lparr>eg_mailbox := publish_store t (- 5) (eg_mailbox e)\<rparr>)"

definition guard_release :: "nat \<Rightarrow> 64 word \<Rightarrow> Engine \<Rightarrow> Engine" where
  "guard_release t gen e = set_phase t GuardFlag (e\<lparr>eg_mailbox := publish_release t gen (eg_mailbox e)\<rparr>)"

definition guard_flag :: "nat \<Rightarrow> Engine \<Rightarrow> Engine" where
  "guard_flag t e = (upd_tag t (\<lambda>s. s\<lparr>ts_handler_failed := True, ts_phase := Gone\<rparr>) e)\<lparr>eg_wakes := eg_wakes e + 1\<rparr>"

definition guard_wake :: "Engine \<Rightarrow> Engine" where
  "guard_wake e = e\<lparr>eg_foreign_pending := True, eg_wakes := eg_wakes e - 1\<rparr>"

text \<open>
  The steps. The owner runs one of its own steps at a time: the sweep of \<open>collect_foreign_results\<close>, which starts when
  \<open>foreign_pending\<close> is set and visits the tags in order, and outside a sweep its other calls and the handlers that run on the
  owner. The source call, the guard of a failing handler and its wake interleave with them access by access. \<open>throws\<close>, \<open>ok\<close> and the result of the source are arbitrary. A frame can fail
  wherever it runs code that allocates or is scheduled, but not while it is parked on its event.
\<close>

abbreviation phase_of :: "Engine \<Rightarrow> nat \<Rightarrow> Phase" where "phase_of e t \<equiv> ts_phase (eg_tags e ! t)"

inductive engine_step :: "Engine \<Rightarrow> Engine \<Rightarrow> bool" where
  sweep: "eg_sweep e = None \<Longrightarrow> eg_retry e = None \<Longrightarrow> eg_foreign_pending e \<Longrightarrow>
    engine_step e (e\<lparr>eg_foreign_pending := False, eg_sweep := Some 0\<rparr>)"
| collect: "eg_sweep e = Some t \<Longrightarrow> t < length (eg_tags e) \<Longrightarrow> engine_step e ((collect_tag throws t e)\<lparr>eg_sweep := Some (t + 1)\<rparr>)"
| swept: "eg_sweep e = Some t \<Longrightarrow> length (eg_tags e) \<le> t \<Longrightarrow> engine_step e (e\<lparr>eg_sweep := None\<rparr>)"
| admit: "eg_sweep e = None \<Longrightarrow> \<not> eg_closed e \<Longrightarrow> eg_retry e = None \<Longrightarrow> engine_step e (snd (admit_request spawned ok rq e))"
| admit_closed: "eg_sweep e = None \<Longrightarrow> eg_closed e \<Longrightarrow> engine_step e (sink_fail ESHUTDOWN e)"
| retry: "eg_sweep e = None \<Longrightarrow> eg_retry e = Some t \<Longrightarrow> engine_step e (snd (retry_signal ok t e))"
| close: "eg_sweep e = None \<Longrightarrow> engine_step e (begin_close e)"
| close_signal: "eg_sweep e = None \<Longrightarrow> eg_closed e \<Longrightarrow> t < length (eg_tags e) \<Longrightarrow> engine_step e (snd (retry_close_signal ok t e))"
| start: "eg_sweep e = None \<Longrightarrow> t < length (eg_tags e) \<Longrightarrow> phase_of e t = Start \<Longrightarrow> engine_step e (loop_top t e)"
| wake: "t < length (eg_tags e) \<Longrightarrow> phase_of e t = Waiting \<Longrightarrow> ts_ready (eg_tags e ! t) \<Longrightarrow> engine_step e (set_phase t Woken e)"
| woken: "eg_sweep e = None \<Longrightarrow> t < length (eg_tags e) \<Longrightarrow> phase_of e t = Woken \<Longrightarrow> engine_step e (run_woken t e)"
| served: "t < length (eg_tags e) \<Longrightarrow> phase_of e t = Serving rq gen \<Longrightarrow> engine_step e (set_phase t (Returned gen r) e)"
| returned: "eg_sweep e = None \<Longrightarrow> t < length (eg_tags e) \<Longrightarrow> phase_of e t = Returned gen r \<Longrightarrow> engine_step e (run_returned t gen r e)"
| fail: "t < length (eg_tags e) \<Longrightarrow> phase_of e t = Start \<or> phase_of e t = Woken \<or> (\<exists>rq gen. phase_of e t = Serving rq gen) \<or>
    (\<exists>gen r. phase_of e t = Returned gen r) \<Longrightarrow> engine_step e (set_phase t GuardLoad e)"
| load: "t < length (eg_tags e) \<Longrightarrow> phase_of e t = GuardLoad \<Longrightarrow> engine_step e (guard_load t e)"
| claim: "t < length (eg_tags e) \<Longrightarrow> phase_of e t = GuardClaim gen \<Longrightarrow> engine_step e (guard_claim t gen e)"
| store: "t < length (eg_tags e) \<Longrightarrow> phase_of e t = GuardStore gen \<Longrightarrow> engine_step e (guard_store t gen e)"
| release: "t < length (eg_tags e) \<Longrightarrow> phase_of e t = GuardRelease gen \<Longrightarrow> engine_step e (guard_release t gen e)"
| flag: "t < length (eg_tags e) \<Longrightarrow> phase_of e t = GuardFlag \<Longrightarrow> engine_step e (guard_flag t e)"
| notify: "0 < eg_wakes e \<Longrightarrow> engine_step e (guard_wake e)"

definition engine_reachable :: "Engine \<Rightarrow> bool" where
  "engine_reachable e \<longleftrightarrow> (\<exists>depth e0. engine_new depth = Inr e0 \<and> engine_step\<^sup>*\<^sup>* e0 e)"

section \<open>Slot states do not collide\<close>

lemma gen_bits: "gen \<le> kMaxGeneration \<longleftrightarrow> unat gen < 2 ^ 62"
proof -
  have "unat kMaxGeneration = 2 ^ 62 - 1" by (simp add: kMaxGeneration_def kStateBits_def mask_eq_exp_minus_1)
  then show ?thesis by (auto simp: word_le_nat_alt)
qed

lemma word_bit_bound: "unat (w :: 64 word) < 2 ^ k \<Longrightarrow> bit w n \<Longrightarrow> n < k"
proof -
  assume w: "unat w < 2 ^ k" and b: "bit w n"
  have "bit (unat w) n" using b by (simp add: bit_unsigned_iff)
  then have "odd (unat w div 2 ^ n)" by (simp add: bit_iff_odd)
  then have "2 ^ n \<le> unat w" by (metis div_less even_zero not_less)
  then have "(2 :: nat) ^ n < 2 ^ k" using w by linarith
  then show "n < k" by simp
qed

lemma unat_plus_one_u64: "unat (w :: 64 word) < 2 ^ 62 \<Longrightarrow> unat (w + 1) = unat w + 1"
  by (simp add: unat_word_ariths)

lemma mailbox_state_parts:
  assumes "gen \<le> kMaxGeneration" "st < 4"
  shows "drop_bit 2 (mailbox_state gen st) = gen" "take_bit 2 (mailbox_state gen st) = st"
proof -
  have g: "bit gen n \<Longrightarrow> n < 62" for n using word_bit_bound [of gen 62] assms(1) gen_bits by blast
  have s: "bit st n \<Longrightarrow> n < 2" for n using word_bit_bound [of st 2] assms(2) by (simp add: word_less_nat_alt)
  show "drop_bit 2 (mailbox_state gen st) = gen"
    by (rule bit_word_eqI) (auto simp: mailbox_state_def kStateBits_def bit_simps dest: g s)
  show "take_bit 2 (mailbox_state gen st) = st"
    by (rule bit_word_eqI) (auto simp: mailbox_state_def kStateBits_def bit_simps dest: g s)
qed

lemma mailbox_state_inj:
  assumes "gen \<le> kMaxGeneration" "st < 4" "gen' \<le> kMaxGeneration" "st' < 4"
  shows "mailbox_state gen st = mailbox_state gen' st' \<longleftrightarrow> gen = gen' \<and> st = st'"
  using mailbox_state_parts [OF assms(1,2)] mailbox_state_parts [OF assms(3,4)] by metis

lemma mailbox_state_nonzero: "gen \<le> kMaxGeneration \<Longrightarrow> st < 4 \<Longrightarrow> st \<noteq> 0 \<Longrightarrow> mailbox_state gen st \<noteq> 0"
  using mailbox_state_parts(2) [of gen st] by auto

section \<open>The invariant\<close>

text \<open>A busy tag: its mailbox slot follows the phase of its handler.\<close>

definition busy_ok :: "TagState \<Rightarrow> MailSlot \<Rightarrow> bool" where
  "busy_ok s m \<longleftrightarrow> (let g = ts_generation s in
     g \<noteq> 0 \<and> ts_active_generation s = g \<and> ts_started s \<and> ts_request s \<noteq> None \<and> ts_handler_failed s = (ts_phase s = Gone) \<and>
     (case ts_phase s of
        Absent \<Rightarrow> False
      | Serving rq gen \<Rightarrow> gen = g \<and> ms_state m = mailbox_state g kArmed
      | Returned gen r \<Rightarrow> gen = g \<and> ms_state m = mailbox_state g kArmed
      | GuardClaim gen \<Rightarrow> gen = g \<and> ms_state m = mailbox_state g kArmed
      | GuardStore gen \<Rightarrow> gen = g \<and> ms_state m = mailbox_state g kWriting
      | GuardRelease gen \<Rightarrow> gen = g \<and> ms_state m = mailbox_state g kWriting
      | GuardFlag \<Rightarrow> ms_state m = mailbox_state g kReady
      | Gone \<Rightarrow> ms_state m = mailbox_state g kReady
      | _ \<Rightarrow> ms_state m = mailbox_state g kArmed))"

text \<open>An idle tag; before the close only a parked handler or none.\<close>

definition idle_ok :: "bool \<Rightarrow> TagState \<Rightarrow> MailSlot \<Rightarrow> bool" where
  "idle_ok closed s m \<longleftrightarrow> ts_active_generation s = 0 \<and> ms_state m = 0 \<and>
     (case ts_phase s of
        Absent \<Rightarrow> \<not> ts_started s \<and> \<not> ts_handler_failed s
      | Waiting \<Rightarrow> ts_started s \<and> \<not> ts_handler_failed s
      | Woken \<Rightarrow> closed \<and> ts_started s \<and> \<not> ts_handler_failed s
      | GuardLoad \<Rightarrow> closed \<and> ts_started s \<and> \<not> ts_handler_failed s
      | GuardFlag \<Rightarrow> closed \<and> ts_started s \<and> \<not> ts_handler_failed s
      | Gone \<Rightarrow> (ts_started s \<or> ts_handler_failed s \<longrightarrow> closed)
      | _ \<Rightarrow> False)"

definition may_retry :: "Phase \<Rightarrow> bool" where
  "may_retry p \<longleftrightarrow> (case p of Woken \<Rightarrow> False | Serving _ _ \<Rightarrow> False | Returned _ _ \<Rightarrow> False | _ \<Rightarrow> True)"

definition tag_inv :: "bool \<Rightarrow> bool \<Rightarrow> TagState \<Rightarrow> MailSlot \<Rightarrow> bool" where
  "tag_inv closed retry s m \<longleftrightarrow>
     unat (ts_next_generation s) = unat (ts_generation s) + 1 \<and> ts_generation s \<le> kMaxGeneration \<and> ts_closing s = closed \<and>
     (if ts_busy s then busy_ok s m else idle_ok closed s m) \<and>
     (ts_ready s \<and> \<not> closed \<longrightarrow> ts_busy s \<and> (\<forall>rq g. ts_phase s \<noteq> Serving rq g) \<and> (\<forall>g r. ts_phase s \<noteq> Returned g r)) \<and>
     (retry \<longrightarrow> \<not> closed \<and> ts_busy s \<and> \<not> ts_ready s \<and> may_retry (ts_phase s)) \<and>
     (ts_busy s \<and> (ts_phase s = Start \<or> ts_phase s = Waiting) \<and> \<not> closed \<longrightarrow> ts_ready s = (\<not> retry))"

definition answered :: "Engine \<Rightarrow> nat \<Rightarrow> nat list" where
  "answered e t = map (\<lambda>r. unat (or_generation r)) (filter (\<lambda>r. or_tag r = t) (eg_published e))"

text \<open>The generations that have been answered or lost with a recorded failure are those below \<open>settled\<close>.\<close>

definition settled :: "TagState \<Rightarrow> nat" where
  "settled s = (if ts_busy s then unat (ts_generation s) else unat (ts_next_generation s))"

definition pub_inv :: "bool \<Rightarrow> nat list \<Rightarrow> nat \<Rightarrow> bool" where
  "pub_inv clean as k \<longleftrightarrow> sorted_wrt (<) as \<and> set as \<subseteq> {1..<k} \<and> (clean \<longrightarrow> as = [1..<k])"

definition engine_inv :: "Engine \<Rightarrow> bool" where
  "engine_inv e \<longleftrightarrow> length (eg_mailbox e) = length (eg_tags e) \<and> EPROTO \<notin> set (eg_failures e) \<and>
     (\<forall>t. eg_retry e = Some t \<longrightarrow> t < length (eg_tags e)) \<and>
     (\<forall>t < length (eg_tags e). tag_inv (eg_closed e) (eg_retry e = Some t) (eg_tags e ! t) (eg_mailbox e ! t) \<and>
        pub_inv (eg_failures e = []) (answered e t) (settled (eg_tags e ! t)))"

lemma pub_inv_clean: "pub_inv c as k \<Longrightarrow> (c' \<Longrightarrow> c) \<Longrightarrow> pub_inv c' as k"
  by (auto simp: pub_inv_def)

text \<open>A step that changes one tag and its mailbox slot.\<close>

lemma engine_inv_update:
  assumes inv: "engine_inv e" and t: "t < length (eg_tags e)"
    and tags: "eg_tags e' = (eg_tags e)[t := s']" and mb: "eg_mailbox e' = (eg_mailbox e)[t := m']"
    and same: "eg_closed e' = eg_closed e" "EPROTO \<notin> set (eg_failures e')" "eg_failures e' = [] \<Longrightarrow> eg_failures e = []"
    and retry: "\<And>u. u \<noteq> t \<Longrightarrow> eg_retry e' = Some u \<longleftrightarrow> eg_retry e = Some u"
    and s': "tag_inv (eg_closed e) (eg_retry e' = Some t) s' m'"
    and pub: "\<And>u. u \<noteq> t \<Longrightarrow> answered e' u = answered e u" "pub_inv (eg_failures e' = []) (answered e' t) (settled s')"
  shows "engine_inv e'"
proof -
  have "tag_inv (eg_closed e') (eg_retry e' = Some u) (eg_tags e' ! u) (eg_mailbox e' ! u) \<and>
      pub_inv (eg_failures e' = []) (answered e' u) (settled (eg_tags e' ! u))" if u: "u < length (eg_tags e')" for u
  proof (cases "u = t")
    case True
    then show ?thesis using inv t tags mb same s' pub(2) by (simp add: engine_inv_def)
  next
    case False
    then have old: "tag_inv (eg_closed e) (eg_retry e = Some u) (eg_tags e ! u) (eg_mailbox e ! u)"
      "pub_inv (eg_failures e = []) (answered e u) (settled (eg_tags e ! u))" using inv u tags by (auto simp: engine_inv_def)
    then show ?thesis
      using False tags mb same(1,3) retry pub(1) pub_inv_clean [OF old(2)] by simp
  qed
  moreover have "\<forall>u. eg_retry e' = Some u \<longrightarrow> u < length (eg_tags e')"
    using inv retry t tags by (metis (no_types, lifting) engine_inv_def length_list_update)
  ultimately show ?thesis using inv tags mb same(2) by (simp add: engine_inv_def)
qed

lemmas engine_defs = upd_tag_def set_phase_def sink_fail_def sink_publish_def

lemma engine_inv_tag: "engine_inv e \<Longrightarrow> t < length (eg_tags e) \<Longrightarrow>
    tag_inv (eg_closed e) (eg_retry e = Some t) (eg_tags e ! t) (eg_mailbox e ! t) \<and>
    pub_inv (eg_failures e = []) (answered e t) (settled (eg_tags e ! t)) \<and> EPROTO \<notin> set (eg_failures e) \<and>
    length (eg_mailbox e) = length (eg_tags e)"
  by (simp add: engine_inv_def)

text \<open>Steps that only move the phase.\<close>

lemma set_phase_inv:
  assumes inv: "engine_inv e" and t: "t < length (eg_tags e)"
    and p: "tag_inv (eg_closed e) (eg_retry e = Some t) ((eg_tags e ! t)\<lparr>ts_phase := p\<rparr>) (eg_mailbox e ! t)"
  shows "engine_inv (set_phase t p e)"
  by (rule engine_inv_update [OF inv t, where m' = "eg_mailbox e ! t"])
    (use p engine_inv_tag [OF inv t] in \<open>auto simp: engine_defs answered_def settled_def\<close>)

lemmas tag_inv_defs = tag_inv_def busy_ok_def idle_ok_def may_retry_def

lemma tag_phase_inv:
  "tag_inv c r s m \<Longrightarrow> ts_phase s = Waiting \<Longrightarrow> ts_ready s \<Longrightarrow> tag_inv c r (s\<lparr>ts_phase := Woken\<rparr>) m"
  "tag_inv c r s m \<Longrightarrow> ts_phase s = Serving rq gen \<Longrightarrow> tag_inv c r (s\<lparr>ts_phase := Returned gen res\<rparr>) m"
  "tag_inv c r s m \<Longrightarrow> ts_phase s = Start \<Longrightarrow> tag_inv c r (s\<lparr>ts_phase := GuardLoad\<rparr>) m"
  "tag_inv c r s m \<Longrightarrow> ts_phase s = Woken \<Longrightarrow> tag_inv c r (s\<lparr>ts_phase := GuardLoad\<rparr>) m"
  "tag_inv c r s m \<Longrightarrow> ts_phase s = Serving rq gen \<Longrightarrow> tag_inv c r (s\<lparr>ts_phase := GuardLoad\<rparr>) m"
  "tag_inv c r s m \<Longrightarrow> ts_phase s = Returned gen res \<Longrightarrow> tag_inv c r (s\<lparr>ts_phase := GuardLoad\<rparr>) m"
  "tag_inv c r s m \<Longrightarrow> ts_phase s = GuardLoad \<Longrightarrow>
     tag_inv c r (s\<lparr>ts_phase := (if ts_active_generation s \<noteq> 0 then GuardClaim (ts_active_generation s) else GuardFlag)\<rparr>) m"
  by (cases "ts_busy s"; cases c; simp add: tag_inv_defs Let_def)+

lemma phase_steps_inv:
  assumes inv: "engine_inv e" and t: "t < length (eg_tags e)"
  shows "phase_of e t = Waiting \<Longrightarrow> ts_ready (eg_tags e ! t) \<Longrightarrow> engine_inv (set_phase t Woken e)"
    "phase_of e t = Serving rq gen \<Longrightarrow> engine_inv (set_phase t (Returned gen r) e)"
    "phase_of e t = Start \<or> phase_of e t = Woken \<or> (\<exists>rq gen. phase_of e t = Serving rq gen) \<or> (\<exists>gen r. phase_of e t = Returned gen r) \<Longrightarrow>
      engine_inv (set_phase t GuardLoad e)"
    "phase_of e t = GuardLoad \<Longrightarrow> engine_inv (guard_load t e)"
proof -
  note i = engine_inv_tag [OF inv t, THEN conjunct1]
  show "phase_of e t = Waiting \<Longrightarrow> ts_ready (eg_tags e ! t) \<Longrightarrow> engine_inv (set_phase t Woken e)"
    "phase_of e t = Serving rq gen \<Longrightarrow> engine_inv (set_phase t (Returned gen r) e)"
    by (intro set_phase_inv [OF inv t] tag_phase_inv [OF i]; assumption)+
  show "engine_inv (set_phase t GuardLoad e)"
    if "phase_of e t = Start \<or> phase_of e t = Woken \<or> (\<exists>rq gen. phase_of e t = Serving rq gen) \<or> (\<exists>gen r. phase_of e t = Returned gen r)"
    using that tag_phase_inv(3-6) [OF i] by (intro set_phase_inv [OF inv t]) blast
  show "phase_of e t = GuardLoad \<Longrightarrow> engine_inv (guard_load t e)"
    unfolding guard_load_def Let_def by (intro set_phase_inv [OF inv t] tag_phase_inv(7) [OF i])
qed

lemma loop_top_inv:
  assumes inv: "engine_inv e" and t: "t < length (eg_tags e)" and p: "phase_of e t = Start"
  shows "engine_inv (loop_top t e)"
proof -
  have "loop_top t e = set_phase t (if ts_closing (eg_tags e ! t) \<and> \<not> ts_busy (eg_tags e ! t) then Gone else Waiting) e"
    by (simp add: loop_top_def set_phase_def upd_tag_def)
  then show ?thesis
    using engine_inv_tag [OF inv t] p by (auto intro!: set_phase_inv [OF inv t] simp: tag_inv_defs Let_def split: if_splits)
qed

lemma mail_valid_inv: "length mb = n \<Longrightarrow> t < n \<Longrightarrow> gen \<noteq> 0 \<Longrightarrow> gen \<le> kMaxGeneration \<Longrightarrow> mail_valid mb t gen"
  by (simp add: mail_valid_def)

lemma guard_claim_eq:
  assumes inv: "engine_inv e" and t: "t < length (eg_tags e)" and p: "phase_of e t = GuardClaim gen"
  shows "guard_claim t gen e = set_phase t (GuardStore gen)
      (e\<lparr>eg_mailbox := (eg_mailbox e)[t := (eg_mailbox e ! t)\<lparr>ms_state := mailbox_state gen kWriting\<rparr>]\<rparr>)"
proof -
  have i: "tag_inv (eg_closed e) (eg_retry e = Some t) (eg_tags e ! t) (eg_mailbox e ! t)" "length (eg_mailbox e) = length (eg_tags e)"
    using engine_inv_tag [OF inv t] by auto
  have b: "gen \<noteq> 0" "gen \<le> kMaxGeneration" "ms_state (eg_mailbox e ! t) = mailbox_state gen kArmed"
    using i p by (auto simp: tag_inv_defs Let_def split: if_splits)
  have "publish_claim t gen (eg_mailbox e) = (True, (eg_mailbox e)[t := (eg_mailbox e ! t)\<lparr>ms_state := mailbox_state gen kWriting\<rparr>])"
    using mail_valid_inv [OF i(2) t b(1,2)] b(3) by (simp add: publish_claim_def mail_cas_def)
  then show ?thesis by (simp add: guard_claim_def)
qed

lemma guard_claim_inv:
  assumes inv: "engine_inv e" and t: "t < length (eg_tags e)" and p: "phase_of e t = GuardClaim gen"
  shows "engine_inv (guard_claim t gen e)"
  unfolding guard_claim_eq [OF assms]
  by (rule engine_inv_update [OF inv t, where m' = "(eg_mailbox e ! t)\<lparr>ms_state := mailbox_state gen kWriting\<rparr>" and
        s' = "(eg_tags e ! t)\<lparr>ts_phase := GuardStore gen\<rparr>"])
    (use engine_inv_tag [OF inv t] p in \<open>auto simp: engine_defs answered_def settled_def tag_inv_defs Let_def split: if_splits\<close>)

lemma guard_publish_inv:
  assumes inv: "engine_inv e" and t: "t < length (eg_tags e)"
  shows "phase_of e t = GuardStore gen \<Longrightarrow> engine_inv (guard_store t gen e)"
    "phase_of e t = GuardRelease gen \<Longrightarrow> engine_inv (guard_release t gen e)"
    "phase_of e t = GuardFlag \<Longrightarrow> engine_inv (guard_flag t e)"
proof -
  let ?s = "eg_tags e ! t" and ?m = "eg_mailbox e ! t"
  note i = engine_inv_tag [OF inv t]
  show "engine_inv (guard_store t gen e)" if "phase_of e t = GuardStore gen"
    by (rule engine_inv_update [OF inv t, where m' = "?m\<lparr>ms_result := - 5\<rparr>" and s' = "?s\<lparr>ts_phase := GuardRelease gen\<rparr>"])
      (use i that in \<open>auto simp: guard_store_def publish_store_def engine_defs answered_def settled_def tag_inv_defs Let_def split: if_splits\<close>)
  show "engine_inv (guard_release t gen e)" if "phase_of e t = GuardRelease gen"
    by (rule engine_inv_update [OF inv t, where m' = "?m\<lparr>ms_state := mailbox_state gen kReady\<rparr>" and s' = "?s\<lparr>ts_phase := GuardFlag\<rparr>"])
      (use i that in \<open>auto simp: guard_release_def publish_release_def engine_defs answered_def settled_def tag_inv_defs Let_def split: if_splits\<close>)
  show "engine_inv (guard_flag t e)" if "phase_of e t = GuardFlag"
    by (rule engine_inv_update [OF inv t, where m' = "?m" and s' = "?s\<lparr>ts_handler_failed := True, ts_phase := Gone\<rparr>"])
      (use i that in \<open>auto simp: guard_flag_def engine_defs answered_def settled_def tag_inv_defs Let_def split: if_splits\<close>)
qed

lemma run_woken_busy:
  assumes inv: "engine_inv e" and t: "t < length (eg_tags e)" and busy: "ts_busy (eg_tags e ! t)"
  obtains rq where "run_woken t e = e\<lparr>eg_tags := (eg_tags e)[t := (eg_tags e ! t)\<lparr>ts_ready := False,
      ts_phase := Serving rq (ts_generation (eg_tags e ! t))\<rparr>]\<rparr>"
proof -
  obtain rq where "ts_request (eg_tags e ! t) = Some rq" using engine_inv_tag [OF inv t] busy by (auto simp: tag_inv_defs Let_def)
  then show ?thesis using that busy t by (simp add: run_woken_def Let_def upd_tag_def)
qed

lemma run_woken_inv:
  assumes inv: "engine_inv e" and t: "t < length (eg_tags e)" and p: "phase_of e t = Woken"
  shows "engine_inv (run_woken t e)"
proof -
  let ?s = "eg_tags e ! t"
  note i = engine_inv_tag [OF inv t]
  show ?thesis
  proof (cases "ts_busy ?s")
    case False
    have c: "eg_closed e" "ts_closing ?s" using i p False by (auto simp: tag_inv_defs)
    have "run_woken t e = e\<lparr>eg_tags := (eg_tags e)[t := ?s\<lparr>ts_ready := False, ts_phase := Gone\<rparr>]\<rparr>"
      using False c t by (simp add: run_woken_def Let_def upd_tag_def)
    then show ?thesis
      using i p False c by (intro engine_inv_update [OF inv t, where m' = "eg_mailbox e ! t" and s' = "?s\<lparr>ts_ready := False, ts_phase := Gone\<rparr>"])
        (auto simp: answered_def settled_def tag_inv_defs)
  next
    case True
    obtain rq where "run_woken t e = e\<lparr>eg_tags := (eg_tags e)[t := ?s\<lparr>ts_ready := False, ts_phase := Serving rq (ts_generation ?s)\<rparr>]\<rparr>"
      using run_woken_busy [OF inv t True] .
    then show ?thesis
      using i p True by (intro engine_inv_update [OF inv t, where m' = "eg_mailbox e ! t" and s' = "?s\<lparr>ts_ready := False, ts_phase := Serving rq (ts_generation ?s)\<rparr>"])
        (auto simp: answered_def settled_def tag_inv_defs Let_def)
  qed
qed

text \<open>Answering the current generation.\<close>

lemma pub_inv_answer: "pub_inv c as g \<Longrightarrow> 0 < g \<Longrightarrow> pub_inv c (as @ [g]) (g + 1)"
  by (auto simp: pub_inv_def sorted_wrt_append upt_Suc_append)

lemma pub_inv_lost: "pub_inv c as g \<Longrightarrow> pub_inv False as (g + 1)"
  by (auto simp: pub_inv_def)

lemma answered_publish: "eg_published e' = eg_published e @ [r] \<Longrightarrow> answered e' u = answered e u @ (if or_tag r = u then [unat (or_generation r)] else [])"
  by (simp add: answered_def)

lemma unat_pos: "(g :: 64 word) \<noteq> 0 \<Longrightarrow> 0 < unat g"
  by (simp add: unat_gt_0)

lemma returned_facts:
  assumes inv: "engine_inv e" and t: "t < length (eg_tags e)" and p: "phase_of e t = Returned gen r"
  shows "ts_busy (eg_tags e ! t)" "gen = ts_generation (eg_tags e ! t)" "gen \<noteq> 0" "gen \<le> kMaxGeneration"
    "ms_state (eg_mailbox e ! t) = mailbox_state gen kArmed"
  using engine_inv_tag [OF inv t] p by (auto simp: tag_inv_defs Let_def split: if_splits)

lemma run_returned_eq:
  assumes inv: "engine_inv e" and t: "t < length (eg_tags e)" and p: "phase_of e t = Returned gen r"
  shows "run_returned t gen r e = e\<lparr>eg_published := eg_published e @ [\<lparr>or_tag = t, or_generation = gen, or_result = r\<rparr>],
      eg_mailbox := (eg_mailbox e)[t := (eg_mailbox e ! t)\<lparr>ms_state := 0\<rparr>],
      eg_tags := (eg_tags e)[t := (eg_tags e ! t)\<lparr>ts_active_generation := 0, ts_busy := False,
        ts_phase := (if ts_closing (eg_tags e ! t) then Gone else Waiting)\<rparr>]\<rparr>"
proof -
  have "mail_retire t gen (eg_mailbox e) = (True, (eg_mailbox e)[t := (eg_mailbox e ! t)\<lparr>ms_state := 0\<rparr>])"
    using engine_inv_tag [OF inv t] t returned_facts [OF assms] by (simp add: mail_retire_def mail_cas_def mail_valid_def)
  then show ?thesis using t by (simp add: run_returned_def Let_def engine_defs loop_top_def)
qed

lemma run_returned_inv:
  assumes inv: "engine_inv e" and t: "t < length (eg_tags e)" and p: "phase_of e t = Returned gen r"
  shows "engine_inv (run_returned t gen r e)"
proof -
  let ?s = "eg_tags e ! t" and ?m = "eg_mailbox e ! t"
  let ?s' = "?s\<lparr>ts_active_generation := 0, ts_busy := False, ts_phase := (if ts_closing ?s then Gone else Waiting)\<rparr>"
  note i = engine_inv_tag [OF inv t] and b = returned_facts [OF assms]
  have pub: "pub_inv (eg_failures e = []) (answered e t @ [unat gen]) (settled ?s')"
    using pub_inv_answer [of _ "answered e t" "unat gen"] i b unat_pos [OF b(3)] by (simp add: settled_def tag_inv_def)
  show ?thesis unfolding run_returned_eq [OF assms]
    by (rule engine_inv_update [OF inv t, where m' = "?m\<lparr>ms_state := 0\<rparr>" and s' = ?s'])
      (use i p b pub in \<open>auto simp: answered_def tag_inv_defs Let_def\<close>)
qed

abbreviation collected :: "TagState \<Rightarrow> TagState" where
  "collected s \<equiv> s\<lparr>ts_handler_failed := False, ts_active_generation := 0, ts_started := False, ts_busy := False, ts_ready := False\<rparr>"

lemma collect_busy_eq:
  assumes inv: "engine_inv e" and t: "t < length (eg_tags e)" and busy: "ts_busy (eg_tags e ! t)" and p: "phase_of e t = Gone"
  shows "collect_tag throws t e = (if throws t then sink_fail EIO
      else sink_publish \<lparr>or_tag = t, or_generation = ts_generation (eg_tags e ! t), or_result = ms_result (eg_mailbox e ! t)\<rparr>)
      (e\<lparr>eg_mailbox := (eg_mailbox e)[t := (eg_mailbox e ! t)\<lparr>ms_state := 0\<rparr>], eg_tags := (eg_tags e)[t := collected (eg_tags e ! t)]\<rparr>)"
proof -
  let ?s = "eg_tags e ! t" and ?m = "eg_mailbox e ! t"
  let ?g = "ts_generation ?s"
  note i = engine_inv_tag [OF inv t]
  have b: "?g \<noteq> 0" "?g \<le> kMaxGeneration" "ms_state ?m = mailbox_state ?g kReady" "ts_handler_failed ?s"
    using i p busy by (auto simp: tag_inv_defs Let_def)
  have "mail_take t ?g (eg_mailbox e) = (Some \<lparr>or_tag = t, or_generation = ?g, or_result = ms_result ?m\<rparr>, (eg_mailbox e)[t := ?m\<lparr>ms_state := 0\<rparr>])"
    using b i t by (simp add: mail_take_def mail_valid_def mail_cas_def Let_def)
  then show ?thesis using busy b t by (simp add: collect_tag_def Let_def upd_tag_def)
qed

lemma collect_tag_inv:
  assumes inv: "engine_inv e" and t: "t < length (eg_tags e)" and retry: "eg_retry e = None"
  shows "engine_inv (collect_tag throws t e)"
proof (cases "ts_handler_failed (eg_tags e ! t)")
  case False
  then show ?thesis using inv by (simp add: collect_tag_def Let_def)
next
  case True
  let ?s = "eg_tags e ! t" and ?m = "eg_mailbox e ! t"
  let ?s' = "?s\<lparr>ts_handler_failed := False, ts_active_generation := 0, ts_started := False, ts_busy := False, ts_ready := False\<rparr>"
  note i = engine_inv_tag [OF inv t]
  have p: "ts_phase ?s = Gone" using i True by (auto simp: tag_inv_defs Let_def split: if_splits Phase.splits)
  show ?thesis
  proof (cases "ts_busy ?s")
    case False
    have st: "ms_state ?m = 0" using i False by (simp add: tag_inv_defs)
    have "mail_take t (ts_generation ?s) (eg_mailbox e) = (None, eg_mailbox e)"
      using st i mailbox_state_nonzero [of "ts_generation ?s" kReady]
      by (auto simp: mail_take_def Let_def tag_inv_def kReady_def mail_valid_def)
    then have "collect_tag throws t e = e\<lparr>eg_tags := (eg_tags e)[t := ?s']\<rparr>"
      using True False t by (simp add: collect_tag_def Let_def upd_tag_def)
    then show ?thesis using i p False
      by (intro engine_inv_update [OF inv t, where m' = ?m and s' = ?s']) (auto simp: answered_def settled_def tag_inv_defs)
  next
    case True
    note busy = this
    let ?g = "ts_generation ?s" and ?m' = "?m\<lparr>ms_state := 0\<rparr>"
    let ?r = "\<lparr>or_tag = t, or_generation = ?g, or_result = ms_result ?m\<rparr>"
    have b: "?g \<noteq> 0" using i p True by (auto simp: tag_inv_defs Let_def)
    note eq = collect_busy_eq [OF inv t True p, of throws]
    have k: "settled ?s' = unat ?g + 1" "settled ?s = unat ?g" using i busy by (simp_all add: settled_def tag_inv_def)
    have ti: "tag_inv (eg_closed e) False ?s' ?m'" using i p busy by (simp add: tag_inv_defs)
    show ?thesis
    proof (cases "throws t")
      case True
      have "pub_inv False (answered e t) (settled ?s')" using pub_inv_lost i k by metis
      then show ?thesis unfolding eq using True ti i retry
        by (intro engine_inv_update [OF inv t, where m' = ?m' and s' = ?s']) (auto simp: sink_fail_def answered_def EPROTO_def)
    next
      case False
      have "pub_inv (eg_failures e = []) (answered e t @ [unat ?g]) (settled ?s')"
        using pub_inv_answer [of _ "answered e t" "unat ?g"] i k unat_pos [OF b] by simp
      then show ?thesis unfolding eq using False ti i retry
        by (intro engine_inv_update [OF inv t, where m' = ?m' and s' = ?s']) (auto simp: sink_publish_def answered_def)
    qed
  qed
qed

lemma engine_inv_fail:
  assumes "engine_inv e" "err \<noteq> EPROTO" shows "engine_inv (sink_fail err e)"
  using assms by (auto simp: engine_inv_def sink_fail_def answered_def intro: pub_inv_clean)

lemma admit_request_inv:
  assumes inv: "engine_inv e" and open': "\<not> eg_closed e" and retry: "eg_retry e = None"
  shows "engine_inv (snd (admit_request spawned ok rq e))"
proof -
  let ?t = "rq_tag rq"
  let ?s = "eg_tags e ! ?t" and ?m = "eg_mailbox e ! ?t"
  let ?n = "ts_next_generation ?s"
  show ?thesis
  proof (cases "?t \<ge> length (eg_tags e) \<or> ts_busy ?s")
    case True
    then show ?thesis using engine_inv_fail [OF inv] by (auto simp: admit_request_def Let_def EPROTO_def)
  next
    case False
    then have t: "?t < length (eg_tags e)" and idle: "\<not> ts_busy ?s" by auto
    note i = engine_inv_tag [OF inv t]
    show ?thesis
    proof (cases "?n = 0 \<or> ?n > kMaxGeneration")
      case True
      then show ?thesis using engine_inv_fail [OF inv, of EOVERFLOW] False by (auto simp: admit_request_def Let_def EPROTO_def)
    next
      case fits: False
      let ?m' = "?m\<lparr>ms_state := mailbox_state ?n kArmed\<rparr>"
      let ?a = "?s\<lparr>ts_next_generation := ?n + 1, ts_request := Some rq, ts_generation := ?n, ts_busy := True, ts_active_generation := ?n\<rparr>"
      let ?b = "if ts_started ?s then ?a else ?a\<lparr>ts_started := True, ts_phase := (if spawned then Start else GuardLoad)\<rparr>"
      let ?live = "ts_started ?s \<or> spawned"
      let ?s' = "if ok \<and> ?live then ?b\<lparr>ts_ready := True\<rparr> else ?b"
      have z: "ms_state ?m = 0" "\<not> ts_ready ?s" "ts_started ?s \<longrightarrow> ts_phase ?s = Waiting" "\<not> ts_handler_failed ?s"
        using i idle open' by (auto simp: tag_inv_defs split: Phase.splits)
      have arm: "mail_arm ?t ?n (eg_mailbox e) = (True, (eg_mailbox e)[?t := ?m'])"
        using fits t i z(1) by (simp add: mail_arm_def mail_valid_def mail_cas_def)
      have eq: "snd (admit_request spawned ok rq e) = e\<lparr>eg_mailbox := (eg_mailbox e)[?t := ?m'], eg_tags := (eg_tags e)[?t := ?s'],
          eg_retry := (if ok \<or> \<not> ?live then None else Some ?t)\<rparr>"
        using False fits arm t z(2) retry
        by (cases "ts_started ?s"; cases spawned; cases ok) (auto simp: admit_request_def Let_def upd_tag_def signal_def)
      have "unat (?n + 1) = unat ?n + 1"
        using fits gen_bits [of ?n] by (intro unat_plus_one_u64) auto
      then have ti: "tag_inv (eg_closed e) (\<not> (ok \<or> \<not> ?live)) ?s' ?m'"
        using i z fits open' by (cases "ts_started ?s"; cases spawned) (auto simp: tag_inv_defs Let_def)
      define s' where "s' = ?s'"
      have "settled s' = settled ?s" using idle by (simp add: settled_def s'_def)
      then show ?thesis unfolding eq using ti i retry unfolding s'_def [symmetric]
        by (intro engine_inv_update [OF inv t, where m' = ?m' and s' = s']) (auto simp: answered_def split: if_splits)
    qed
  qed
qed

lemma retry_signal_inv:
  assumes inv: "engine_inv e" and retry: "eg_retry e = Some t"
  shows "engine_inv (snd (retry_signal ok t e))"
proof -
  have t: "t < length (eg_tags e)" using inv retry by (simp add: engine_inv_def)
  note i = engine_inv_tag [OF inv t]
  let ?s = "eg_tags e ! t"
  show ?thesis
  proof (cases ok)
    case True
    have "snd (retry_signal ok t e) = e\<lparr>eg_tags := (eg_tags e)[t := ?s\<lparr>ts_ready := True\<rparr>], eg_retry := None\<rparr>"
      using True t by (simp add: retry_signal_def signal_def upd_tag_def)
    then show ?thesis using i retry
      by (intro engine_inv_update [OF inv t, where m' = "eg_mailbox e ! t" and s' = "?s\<lparr>ts_ready := True\<rparr>"])
        (auto simp: answered_def settled_def tag_inv_defs Let_def)
  qed (use inv t in \<open>simp add: retry_signal_def signal_def\<close>)
qed

lemma tag_inv_ready: "tag_inv True r s m \<Longrightarrow> tag_inv True r (s\<lparr>ts_ready := True\<rparr>) m"
  by (cases "ts_busy s"; cases "ts_phase s") (simp_all add: tag_inv_defs Let_def)

lemma close_signal_inv:
  assumes inv: "engine_inv e" and t: "t < length (eg_tags e)" and closed: "eg_closed e"
  shows "engine_inv (snd (retry_close_signal ok t e))"
proof -
  note i = engine_inv_tag [OF inv t]
  let ?s = "eg_tags e ! t"
  show ?thesis
  proof (cases "ok \<and> ts_started ?s")
    case True
    have "snd (retry_close_signal ok t e) = e\<lparr>eg_tags := (eg_tags e)[t := ?s\<lparr>ts_ready := True\<rparr>]\<rparr>"
      using True t by (simp add: retry_close_signal_def signal_def upd_tag_def)
    then show ?thesis using i closed tag_inv_ready
      by (intro engine_inv_update [OF inv t, where m' = "eg_mailbox e ! t" and s' = "?s\<lparr>ts_ready := True\<rparr>"])
        (auto simp: answered_def settled_def)
  qed (use inv t in \<open>auto simp: retry_close_signal_def signal_def\<close>)
qed

lemma tag_inv_close: "tag_inv c r s m \<Longrightarrow> tag_inv True False (s\<lparr>ts_closing := True\<rparr>) m"
  by (cases "ts_busy s"; cases "ts_phase s") (simp_all add: tag_inv_defs Let_def)

lemma begin_close_inv: "engine_inv e \<Longrightarrow> engine_inv (begin_close e)"
  using tag_inv_close by (fastforce simp: engine_inv_def begin_close_def answered_def settled_def)

text \<open>
  A failed handler is never forgotten: as long as its flag is set the owner has been told, is about to be told, or is in a
  sweep that has yet to come to the tag. During a sweep no signal is outstanding.
\<close>

definition wake_inv :: "Engine \<Rightarrow> bool" where
  "wake_inv e \<longleftrightarrow> (eg_sweep e \<noteq> None \<longrightarrow> eg_retry e = None) \<and>
     (\<forall>t < length (eg_tags e). ts_handler_failed (eg_tags e ! t) \<longrightarrow>
        eg_foreign_pending e \<or> 0 < eg_wakes e \<or> (\<exists>c \<le> t. eg_sweep e = Some c))"

definition live_inv :: "Engine \<Rightarrow> bool" where
  "live_inv e \<longleftrightarrow> engine_inv e \<and> wake_inv e"

lemma live_engine: "live_inv e \<Longrightarrow> engine_inv e"
  by (simp add: live_inv_def)

lemma engine_inv_sweep [simp]: "engine_inv (e\<lparr>eg_sweep := c\<rparr>) \<longleftrightarrow> engine_inv e" "engine_inv (e\<lparr>eg_foreign_pending := b\<rparr>) \<longleftrightarrow> engine_inv e"
  by (simp_all add: engine_inv_def answered_def)

text \<open>A step that tells the owner nothing and raises no failure flag.\<close>

definition quiet :: "Engine \<Rightarrow> Engine \<Rightarrow> bool" where
  "quiet e e' \<longleftrightarrow> eg_sweep e' = eg_sweep e \<and> eg_foreign_pending e' = eg_foreign_pending e \<and> eg_wakes e' = eg_wakes e \<and>
     length (eg_tags e') = length (eg_tags e) \<and>
     (\<forall>t < length (eg_tags e). ts_handler_failed (eg_tags e' ! t) \<longrightarrow> ts_handler_failed (eg_tags e ! t))"

lemma quiet_refl [simp]: "quiet e e"
  by (simp add: quiet_def)

lemma quiet_trans: "quiet e e1 \<Longrightarrow> quiet e1 e2 \<Longrightarrow> quiet e e2"
  by (auto simp: quiet_def)

lemma quiet_upd:
  assumes "\<And>s. ts_handler_failed (f s) = ts_handler_failed s"
  shows "quiet e (upd_tag t f e') \<longleftrightarrow> quiet e e'"
proof -
  have "ts_handler_failed (eg_tags (upd_tag t f e') ! u) = ts_handler_failed (eg_tags e' ! u)" if "u < length (eg_tags e')" for u
    using that assms by (cases "u = t") (simp_all add: upd_tag_def)
  moreover have "length (eg_tags (upd_tag t f e')) = length (eg_tags e')" "eg_sweep (upd_tag t f e') = eg_sweep e'"
    "eg_foreign_pending (upd_tag t f e') = eg_foreign_pending e'" "eg_wakes (upd_tag t f e') = eg_wakes e'"
    by (simp_all add: upd_tag_def)
  ultimately show ?thesis unfolding quiet_def by auto
qed

lemma quiet_fields [simp]: "quiet e (sink_fail err e')  = quiet e e'" "quiet e (sink_publish r e') = quiet e e'"
  "quiet e (e'\<lparr>eg_mailbox := mb\<rparr>) = quiet e e'" "quiet e (e'\<lparr>eg_retry := u\<rparr>) = quiet e e'"
  by (simp_all add: quiet_def sink_fail_def sink_publish_def)

lemma quiet_phase [simp]: "quiet e (set_phase t p e') \<longleftrightarrow> quiet e e'" "quiet e (loop_top t e') \<longleftrightarrow> quiet e e'"
  by (simp_all add: set_phase_def loop_top_def quiet_upd)

lemma quiet_signal: "signal ok t e = (b, e') \<Longrightarrow> quiet e e'"
  by (auto simp: signal_def quiet_upd split: if_splits)

lemma quiet_signals: "quiet e (snd (retry_signal ok t e))" "quiet e (snd (retry_close_signal ok t e))"
  by (auto simp: retry_signal_def retry_close_signal_def dest: quiet_signal split: prod.splits)

lemma quiet_close: "quiet e (begin_close e)"
  by (simp add: begin_close_def quiet_def)

lemma quiet_run: "quiet e (run_woken t e)" "quiet e (run_returned t gen r e)"
  by (simp_all add: run_woken_def run_returned_def Let_def quiet_upd split: prod.splits option.splits)

lemma quiet_guard: "quiet e (guard_load t e)" "quiet e (guard_claim t gen e)" "quiet e (guard_store t gen e)" "quiet e (guard_release t gen e)"
  by (simp_all add: guard_load_def guard_claim_def guard_store_def guard_release_def Let_def split: prod.splits bool.splits)

lemma wake_inv_quiet:
  assumes "wake_inv e" "quiet e e'" "eg_retry e' = eg_retry e \<or> eg_sweep e = None"
  shows "wake_inv e'"
  using assms unfolding wake_inv_def quiet_def by auto

lemma engine_step_inv:
  assumes "engine_step e e'" "live_inv e" shows "engine_inv e'"
  using assms
proof (induction rule: engine_step.induct)
  case (collect e t throws)
  then have "eg_retry e = None" by (auto simp: live_inv_def wake_inv_def)
  then show ?case using collect collect_tag_inv [of e t throws] by (simp add: live_inv_def)
next
  case (admit_closed e)
  then show ?case by (intro engine_inv_fail) (simp_all add: EPROTO_def ESHUTDOWN_def live_inv_def)
next
  case (notify e)
  then show ?case by (simp add: live_inv_def engine_inv_def answered_def guard_wake_def)
qed (auto simp: live_inv_def intro: admit_request_inv retry_signal_inv begin_close_inv close_signal_inv loop_top_inv phase_steps_inv run_woken_inv
  run_returned_inv guard_claim_inv guard_publish_inv)

lemma collect_tag_keeps [simp]: "length (eg_tags (collect_tag throws t e)) = length (eg_tags e)" "eg_retry (collect_tag throws t e) = eg_retry e"
  "eg_closed (collect_tag throws t e) = eg_closed e" "eg_sweep (collect_tag throws t e) = eg_sweep e" "eg_wakes (collect_tag throws t e) = eg_wakes e"
  "eg_foreign_pending (collect_tag throws t e) = eg_foreign_pending e"
  by (auto simp: collect_tag_def Let_def engine_defs split: prod.splits option.splits)

lemma collect_tag_other:
  assumes "u \<noteq> t" shows "eg_tags (collect_tag throws t e) ! u = eg_tags e ! u" "answered (collect_tag throws t e) u = answered e u"
proof -
  have "mail_take t g mb = (Some r, mb') \<Longrightarrow> or_tag r = t" for g mb r mb'
    by (auto simp: mail_take_def Let_def split: if_splits prod.splits bool.splits)
  then show "eg_tags (collect_tag throws t e) ! u = eg_tags e ! u" "answered (collect_tag throws t e) u = answered e u"
    using assms by (auto simp: collect_tag_def Let_def engine_defs answered_def split: prod.splits option.splits if_splits)
qed

lemma collect_tag_clears: "t < length (eg_tags e) \<Longrightarrow> \<not> ts_handler_failed (eg_tags (collect_tag throws t e) ! t)"
  by (auto simp: collect_tag_def Let_def engine_defs split: prod.splits option.splits)

lemma quiet_admit: "quiet e (snd (admit_request spawned ok rq e))"
  by (simp add: admit_request_def Let_def signal_def quiet_upd split: prod.splits bool.splits)

lemma retry_guard: "eg_retry (set_phase t p e) = eg_retry e" "eg_retry (guard_load t e) = eg_retry e" "eg_retry (guard_claim t gen e) = eg_retry e"
  "eg_retry (guard_store t gen e) = eg_retry e" "eg_retry (guard_release t gen e) = eg_retry e"
  by (simp_all add: guard_load_def guard_claim_def guard_store_def guard_release_def engine_defs Let_def split: prod.splits bool.splits)

lemma wake_step_inv:
  assumes "engine_step e e'" "live_inv e" shows "wake_inv e'"
proof -
  have inv: "wake_inv e" using assms(2) by (simp add: live_inv_def)
  show ?thesis
    using assms(1)
  proof cases
    case (collect t throws)
    have "ts_handler_failed (eg_tags (collect_tag throws t e) ! u) \<Longrightarrow> u \<noteq> t \<and> ts_handler_failed (eg_tags e ! u)" for u
      using collect_tag_clears [OF collect(3)] collect_tag_other(1) [of u t throws e] by (cases "u = t") auto
    then have "eg_foreign_pending e \<or> 0 < eg_wakes e \<or> t + 1 \<le> u"
      if "u < length (eg_tags e)" "ts_handler_failed (eg_tags (collect_tag throws t e) ! u)" for u
      using inv collect(2) that unfolding wake_inv_def by (metis Suc_eq_plus1 not_less_eq_eq le_antisym option.inject)
    then show ?thesis using inv collect(1,2) unfolding wake_inv_def by simp
  next
    case (flag t)
    then show ?thesis using inv by (simp add: wake_inv_def guard_flag_def upd_tag_def)
  next
    case sweep
    then show ?thesis using inv by (simp add: wake_inv_def)
  next
    case (swept t)
    then show ?thesis using inv by (auto simp: wake_inv_def)
  next
    case notify
    then show ?thesis using inv by (simp add: wake_inv_def guard_wake_def)
  qed (auto intro!: wake_inv_quiet [OF inv] simp: quiet_admit quiet_signals quiet_close quiet_run quiet_guard retry_guard)
qed

lemma live_step: "engine_step e e' \<Longrightarrow> live_inv e \<Longrightarrow> live_inv e'"
  using engine_step_inv wake_step_inv by (simp add: live_inv_def)

lemma engine_new_inv: "engine_new depth = Inr e \<Longrightarrow> live_inv e"
  by (auto simp: engine_new_def mailbox_new_def live_inv_def wake_inv_def engine_inv_def tag_new_def answered_def settled_def pub_inv_def tag_inv_defs
      split: if_splits)

lemma reachable_live: "engine_reachable e \<Longrightarrow> live_inv e"
proof -
  assume "engine_reachable e"
  then obtain depth e0 where "engine_new depth = Inr e0" "engine_step\<^sup>*\<^sup>* e0 e" by (auto simp: engine_reachable_def)
  then show ?thesis using rtranclp_induct [of engine_step e0 e live_inv] by (auto intro: engine_new_inv live_step)
qed

lemmas reachable_inv = reachable_live [THEN live_engine]

section \<open>The owner's calls are sequences of steps\<close>

lemma collect_tag_sweep: "collect_tag throws t (e\<lparr>eg_sweep := c\<rparr>) = (collect_tag throws t e)\<lparr>eg_sweep := c\<rparr>"
  by (auto simp: collect_tag_def Let_def engine_defs split: prod.splits option.splits)

lemma collect_fold_sweep:
  "fold (collect_tag throws) ts (e\<lparr>eg_sweep := c\<rparr>) = (fold (collect_tag throws) ts e)\<lparr>eg_sweep := c\<rparr>"
  by (induction ts arbitrary: e) (simp_all add: collect_tag_sweep)

lemma sweep_steps:
  "eg_sweep e = Some c \<Longrightarrow> c \<le> n \<Longrightarrow> n \<le> length (eg_tags e) \<Longrightarrow>
     engine_step\<^sup>*\<^sup>* e ((fold (collect_tag throws) [c..<n] e)\<lparr>eg_sweep := Some n\<rparr>)"
proof (induction "n - c" arbitrary: c e)
  case 0
  then have "n = c" "e\<lparr>eg_sweep := Some c\<rparr> = e" by simp_all
  then show ?case by simp
next
  case (Suc k)
  let ?e = "(collect_tag throws c e)\<lparr>eg_sweep := Some (c + 1)\<rparr>"
  have "engine_step e ?e" using Suc by (intro engine_step.collect) auto
  moreover have "engine_step\<^sup>*\<^sup>* ?e ((fold (collect_tag throws) [c + 1..<n] ?e)\<lparr>eg_sweep := Some n\<rparr>)"
    using Suc by (intro Suc.hyps(1)) auto
  moreover have "[c..<n] = c # [c + 1..<n]" using Suc by (simp add: upt_conv_Cons)
  ultimately show ?case unfolding collect_fold_sweep by (simp add: converse_rtranclp_into_rtranclp)
qed

lemma collect_fold_keeps: "eg_retry (fold (collect_tag throws) ts e) = eg_retry e" "eg_closed (fold (collect_tag throws) ts e) = eg_closed e"
  "eg_sweep (fold (collect_tag throws) ts e) = eg_sweep e" "length (eg_tags (fold (collect_tag throws) ts e)) = length (eg_tags e)"
  by (induction ts arbitrary: e) simp_all

lemma collect_steps:
  assumes "eg_retry e = None" "eg_sweep e = None" shows "engine_step\<^sup>*\<^sup>* e (collect_foreign_results throws e)"
proof (cases "eg_foreign_pending e")
  case True
  let ?n = "length (eg_tags e)" and ?a = "e\<lparr>eg_foreign_pending := False, eg_sweep := Some 0\<rparr>"
  let ?b = "fold (collect_tag throws) [0..<?n] ?a"
  have "engine_step e ?a" using assms True by (intro engine_step.sweep)
  moreover have "engine_step\<^sup>*\<^sup>* ?a (?b\<lparr>eg_sweep := Some ?n\<rparr>)" by (rule sweep_steps) simp_all
  moreover have "engine_step (?b\<lparr>eg_sweep := Some ?n\<rparr>) (?b\<lparr>eg_sweep := Some ?n\<rparr>\<lparr>eg_sweep := None\<rparr>)"
    by (rule engine_step.swept [where t = ?n]) (simp_all add: collect_fold_keeps)
  moreover have "?b\<lparr>eg_sweep := Some ?n\<rparr>\<lparr>eg_sweep := None\<rparr> = collect_foreign_results throws e"
  proof -
    let ?c = "fold (collect_tag throws) [0..<?n] (e\<lparr>eg_foreign_pending := False\<rparr>)"
    have "eg_sweep ?c = None" using assms by (simp add: collect_fold_keeps)
    then have "?c\<lparr>eg_sweep := None\<rparr> = ?c" by simp
    then show ?thesis using True collect_fold_sweep [of throws "[0..<?n]" _ "e\<lparr>eg_foreign_pending := False\<rparr>"] by (simp add: collect_foreign_results_def)
  qed
  ultimately show ?thesis by (metis converse_rtranclp_into_rtranclp rtranclp.rtrancl_into_rtrancl)
qed (simp add: collect_foreign_results_def)

lemma admit_steps:
  assumes "eg_retry e = None" "eg_sweep e = None" shows "engine_step\<^sup>*\<^sup>* e (snd (admit throws spawned ok rq e))"
proof (cases "eg_closed e")
  case True
  then show ?thesis using assms by (auto simp: admit_def intro: engine_step.admit_closed)
next
  case False
  let ?e = "collect_foreign_results throws e"
  have "eg_sweep ?e = None" "\<not> eg_closed ?e" "eg_retry ?e = None"
    using False assms by (auto simp: collect_foreign_results_def collect_fold_keeps)
  then have "engine_step ?e (snd (admit_request spawned ok rq ?e))" by (rule engine_step.admit)
  then show ?thesis using False collect_steps [OF assms, of throws] by (simp add: admit_def rtranclp.rtrancl_into_rtrancl)
qed

section \<open>Every admitted request can be answered\<close>

definition answerable :: "Engine \<Rightarrow> nat \<Rightarrow> bool" where
  "answerable e t \<longleftrightarrow> (\<exists>e'. engine_step\<^sup>*\<^sup>* e e' \<and> length (eg_tags e') = length (eg_tags e) \<and> \<not> ts_busy (eg_tags e' ! t) \<and>
     answered e' t = answered e t @ [unat (ts_generation (eg_tags e ! t))])"

lemma answerable_step:
  assumes "engine_step e e'" "answerable e' t" "answered e' t = answered e t" "length (eg_tags e') = length (eg_tags e)"
    "ts_generation (eg_tags e' ! t) = ts_generation (eg_tags e ! t)"
  shows "answerable e t"
  using assms by (metis answerable_def converse_rtranclp_into_rtranclp)

lemma answerable_phase:
  assumes "engine_step e (set_phase t p e)" "answerable (set_phase t p e) t" "t < length (eg_tags e)"
  shows "answerable e t"
  by (rule answerable_step [OF assms(1,2)]) (use assms(3) in \<open>simp_all add: engine_defs answered_def\<close>)

lemma answerable_returned:
  assumes inv: "live_inv e" and sw: "eg_sweep e = None" and t: "t < length (eg_tags e)" and p: "phase_of e t = Returned gen r"
  shows "answerable e t"
proof -
  have "engine_step e (run_returned t gen r e)" using sw t p by (rule engine_step.returned)
  moreover have "\<not> ts_busy (eg_tags (run_returned t gen r e) ! t) \<and> length (eg_tags (run_returned t gen r e)) = length (eg_tags e) \<and>
      answered (run_returned t gen r e) t = answered e t @ [unat (ts_generation (eg_tags e ! t))]"
    using t returned_facts(2) [OF live_engine [OF inv] t p] unfolding run_returned_eq [OF live_engine [OF inv] t p] by (simp add: answered_def)
  ultimately show ?thesis unfolding answerable_def by blast
qed

lemma answerable_serving:
  assumes inv: "live_inv e" and sw: "eg_sweep e = None" and t: "t < length (eg_tags e)" and p: "phase_of e t = Serving rq gen"
  shows "answerable e t"
proof -
  have s: "engine_step e (set_phase t (Returned gen 0) e)" using t p by (rule engine_step.served)
  have "answerable (set_phase t (Returned gen 0) e) t"
    using sw t by (intro answerable_returned [OF live_step [OF s inv]]) (simp_all add: engine_defs)
  then show ?thesis using t by (rule answerable_phase [OF s])
qed

lemma answerable_woken:
  assumes inv: "live_inv e" and sw: "eg_sweep e = None" and t: "t < length (eg_tags e)" and busy: "ts_busy (eg_tags e ! t)" and p: "phase_of e t = Woken"
  shows "answerable e t"
proof -
  have s: "engine_step e (run_woken t e)" using sw t p by (rule engine_step.woken)
  obtain rq where eq: "run_woken t e = e\<lparr>eg_tags := (eg_tags e)[t := (eg_tags e ! t)\<lparr>ts_ready := False,
      ts_phase := Serving rq (ts_generation (eg_tags e ! t))\<rparr>]\<rparr>" using run_woken_busy [OF live_engine [OF inv] t busy] .
  have "answerable (run_woken t e) t"
    by (rule answerable_serving [OF live_step [OF s inv]]) (use sw eq t in simp_all)
  then show ?thesis by (rule answerable_step [OF s]) (use sw eq t in \<open>simp_all add: answered_def\<close>)
qed

lemma answerable_ready:
  assumes inv: "live_inv e" and sw: "eg_sweep e = None" and t: "t < length (eg_tags e)" and busy: "ts_busy (eg_tags e ! t)" and p: "phase_of e t = Waiting"
    and ready: "ts_ready (eg_tags e ! t)"
  shows "answerable e t"
proof -
  have s: "engine_step e (set_phase t Woken e)" using t p ready by (rule engine_step.wake)
  have "answerable (set_phase t Woken e) t"
    using sw t busy by (intro answerable_woken [OF live_step [OF s inv]]) (simp_all add: engine_defs)
  then show ?thesis using t by (rule answerable_phase [OF s])
qed

lemma answerable_waiting:
  assumes inv: "live_inv e" and sw: "eg_sweep e = None" and t: "t < length (eg_tags e)" and busy: "ts_busy (eg_tags e ! t)" and p: "phase_of e t = Waiting"
  shows "answerable e t"
proof (cases "ts_ready (eg_tags e ! t)")
  case True
  then show ?thesis using assms by (intro answerable_ready)
next
  case False
  note i = engine_inv_tag [OF live_engine [OF inv] t]
  define e' where "e' = (if eg_closed e then snd (retry_close_signal True t e) else snd (retry_signal True t e))"
  have "eg_retry e = Some t" if "\<not> eg_closed e" using i busy p False that by (simp add: tag_inv_def)
  then have s: "engine_step e e'" using sw t by (auto simp: e'_def intro: engine_step.retry engine_step.close_signal)
  have "ts_started (eg_tags e ! t)" using i busy by (simp add: tag_inv_def busy_ok_def Let_def)
  then have eq: "eg_tags e' = (eg_tags e)[t := (eg_tags e ! t)\<lparr>ts_ready := True\<rparr>]" "eg_published e' = eg_published e" "eg_sweep e' = None"
    using sw t by (simp_all add: e'_def retry_close_signal_def retry_signal_def signal_def upd_tag_def)
  have "answerable e' t" by (rule answerable_ready [OF live_step [OF s inv]]) (use sw eq t busy p in simp_all)
  then show ?thesis by (rule answerable_step [OF s]) (use sw eq t in \<open>simp_all add: answered_def\<close>)
qed

lemma answerable_start:
  assumes inv: "live_inv e" and sw: "eg_sweep e = None" and t: "t < length (eg_tags e)" and busy: "ts_busy (eg_tags e ! t)" and p: "phase_of e t = Start"
  shows "answerable e t"
proof -
  have s: "engine_step e (loop_top t e)" using sw t p by (rule engine_step.start)
  have eq: "loop_top t e = set_phase t Waiting e" using busy by (simp add: loop_top_def engine_defs)
  have "answerable (set_phase t Waiting e) t"
    by (rule answerable_waiting [OF live_step [OF s [unfolded eq] inv]]) (use sw t busy in \<open>simp_all add: engine_defs\<close>)
  then show ?thesis using t by (rule answerable_phase [OF s [unfolded eq]])
qed

text \<open>A sweep that has not passed a failed tag answers it.\<close>

lemma answerable_sweep:
  assumes "live_inv e" "eg_sweep e = Some c" "c \<le> t" "t < length (eg_tags e)" "ts_busy (eg_tags e ! t)" "phase_of e t = Gone"
  shows "answerable e t"
  using assms
proof (induction "t - c" arbitrary: c e)
  case 0
  let ?e = "(collect_tag (\<lambda>_. False) t e)\<lparr>eg_sweep := Some (t + 1)\<rparr>"
  have "engine_step e ?e" using 0 by (intro engine_step.collect) auto
  moreover have "\<not> ts_busy (eg_tags ?e ! t) \<and> length (eg_tags ?e) = length (eg_tags e) \<and>
      answered ?e t = answered e t @ [unat (ts_generation (eg_tags e ! t))]"
    using 0 collect_busy_eq [OF live_engine [OF 0(2)] 0(5-7), of "\<lambda>_. False"] by (simp add: answered_def sink_publish_def)
  ultimately show ?case unfolding answerable_def by blast
next
  case (Suc k)
  let ?e = "(collect_tag (\<lambda>_. False) c e)\<lparr>eg_sweep := Some (c + 1)\<rparr>"
  have s: "engine_step e ?e" using Suc by (intro engine_step.collect) auto
  have ne: "t \<noteq> c" using Suc by auto
  have "answerable ?e t"
    using Suc.prems collect_tag_other(1) [OF ne] Suc.hyps(2) by (intro Suc.hyps(1) [of "c + 1" ?e] live_step [OF s]) auto
  then show ?case by (rule answerable_step [OF s]) (simp_all add: collect_tag_other [OF ne] answered_def [of "_\<lparr>eg_sweep := _\<rparr>"] answered_def [symmetric])
qed

lemma answerable_told:
  assumes inv: "live_inv e" and sw: "eg_sweep e = None" and t: "t < length (eg_tags e)" and busy: "ts_busy (eg_tags e ! t)" and p: "phase_of e t = Gone"
    and retry: "eg_retry e = None" and told: "eg_foreign_pending e"
  shows "answerable e t"
proof -
  let ?e = "e\<lparr>eg_foreign_pending := False, eg_sweep := Some 0\<rparr>"
  have s: "engine_step e ?e" using sw retry told by (rule engine_step.sweep)
  have "answerable ?e t" by (rule answerable_sweep [OF live_step [OF s inv], of 0]) (use t busy p in simp_all)
  then show ?thesis by (rule answerable_step [OF s]) (simp_all add: answered_def)
qed

lemma answerable_collect:
  assumes inv: "live_inv e" and sw: "eg_sweep e = None" and t: "t < length (eg_tags e)" and busy: "ts_busy (eg_tags e ! t)" and p: "phase_of e t = Gone"
    and retry: "eg_retry e = None"
  shows "answerable e t"
proof (cases "eg_foreign_pending e")
  case True
  then show ?thesis using assms by (intro answerable_told)
next
  case False
  have "ts_handler_failed (eg_tags e ! t)"
    using engine_inv_tag [OF live_engine [OF inv] t] busy p by (simp add: tag_inv_def busy_ok_def Let_def)
  then have s: "engine_step e (guard_wake e)" using inv t sw False by (intro engine_step.notify) (auto simp: live_inv_def wake_inv_def)
  have "answerable (guard_wake e) t"
    by (rule answerable_told [OF live_step [OF s inv]]) (use sw t busy p retry in \<open>simp_all add: guard_wake_def\<close>)
  then show ?thesis by (rule answerable_step [OF s]) (simp_all add: guard_wake_def answered_def)
qed

lemma answerable_gone:
  assumes inv: "live_inv e" and sw: "eg_sweep e = None" and t: "t < length (eg_tags e)" and busy: "ts_busy (eg_tags e ! t)" and p: "phase_of e t = Gone"
  shows "answerable e t"
proof (cases "eg_retry e")
  case None
  then show ?thesis using assms by (intro answerable_collect)
next
  case (Some u)
  let ?e = "snd (retry_signal True u e)"
  have s: "engine_step e ?e" using sw Some by (rule engine_step.retry)
  have u: "u < length (eg_tags e)" using live_engine [OF inv] Some by (simp add: engine_inv_def)
  have eq: "eg_tags ?e = (eg_tags e)[u := (eg_tags e ! u)\<lparr>ts_ready := True\<rparr>]" "eg_published ?e = eg_published e" "eg_retry ?e = None" "eg_sweep ?e = None"
    using u sw by (simp_all add: retry_signal_def signal_def upd_tag_def)
  have "answerable ?e t"
    by (rule answerable_collect [OF live_step [OF s inv]]) (use eq t busy p in \<open>cases "u = t"; simp\<close>)+
  then show ?thesis by (rule answerable_step [OF s]) (use eq t in \<open>cases "u = t"; simp add: answered_def\<close>)+
qed

lemma answerable_flag:
  assumes inv: "live_inv e" and sw: "eg_sweep e = None" and t: "t < length (eg_tags e)" and busy: "ts_busy (eg_tags e ! t)" and p: "phase_of e t = GuardFlag"
  shows "answerable e t"
proof -
  have s: "engine_step e (guard_flag t e)" using t p by (rule engine_step.flag)
  have "answerable (guard_flag t e) t"
    by (rule answerable_gone [OF live_step [OF s inv]]) (use sw t busy in \<open>simp_all add: guard_flag_def engine_defs\<close>)
  then show ?thesis by (rule answerable_step [OF s]) (use sw t in \<open>simp_all add: guard_flag_def engine_defs answered_def\<close>)
qed

lemma answerable_release:
  assumes inv: "live_inv e" and sw: "eg_sweep e = None" and t: "t < length (eg_tags e)" and busy: "ts_busy (eg_tags e ! t)" and p: "phase_of e t = GuardRelease gen"
  shows "answerable e t"
proof -
  have s: "engine_step e (guard_release t gen e)" using t p by (rule engine_step.release)
  have "answerable (guard_release t gen e) t"
    by (rule answerable_flag [OF live_step [OF s inv]]) (use sw t busy in \<open>simp_all add: guard_release_def engine_defs\<close>)
  then show ?thesis by (rule answerable_step [OF s]) (use sw t in \<open>simp_all add: guard_release_def engine_defs answered_def\<close>)
qed

lemma answerable_store:
  assumes inv: "live_inv e" and sw: "eg_sweep e = None" and t: "t < length (eg_tags e)" and busy: "ts_busy (eg_tags e ! t)" and p: "phase_of e t = GuardStore gen"
  shows "answerable e t"
proof -
  have s: "engine_step e (guard_store t gen e)" using t p by (rule engine_step.store)
  have "answerable (guard_store t gen e) t"
    by (rule answerable_release [OF live_step [OF s inv]]) (use sw t busy in \<open>simp_all add: guard_store_def engine_defs\<close>)
  then show ?thesis by (rule answerable_step [OF s]) (use sw t in \<open>simp_all add: guard_store_def engine_defs answered_def\<close>)
qed

lemma answerable_claim:
  assumes inv: "live_inv e" and sw: "eg_sweep e = None" and t: "t < length (eg_tags e)" and busy: "ts_busy (eg_tags e ! t)" and p: "phase_of e t = GuardClaim gen"
  shows "answerable e t"
proof -
  have s: "engine_step e (guard_claim t gen e)" using t p by (rule engine_step.claim)
  have "answerable (guard_claim t gen e) t"
    by (rule answerable_store [OF live_step [OF s inv]]) (use sw t busy in \<open>simp_all add: guard_claim_eq [OF live_engine [OF inv] t p] engine_defs\<close>)
  then show ?thesis by (rule answerable_step [OF s]) (use sw t in \<open>simp_all add: guard_claim_eq [OF live_engine [OF inv] t p] engine_defs answered_def\<close>)
qed

lemma answerable_load:
  assumes inv: "live_inv e" and sw: "eg_sweep e = None" and t: "t < length (eg_tags e)" and busy: "ts_busy (eg_tags e ! t)" and p: "phase_of e t = GuardLoad"
  shows "answerable e t"
proof -
  have s: "engine_step e (guard_load t e)" using t p by (rule engine_step.load)
  have "ts_active_generation (eg_tags e ! t) \<noteq> 0" using engine_inv_tag [OF live_engine [OF inv] t] busy by (simp add: tag_inv_def busy_ok_def Let_def)
  then have eq: "guard_load t e = set_phase t (GuardClaim (ts_active_generation (eg_tags e ! t))) e" by (simp add: guard_load_def)
  have "answerable (guard_load t e) t"
    by (rule answerable_claim [OF live_step [OF s inv]]) (use sw t busy eq in \<open>simp_all add: engine_defs\<close>)
  then show ?thesis by (rule answerable_step [OF s]) (use t eq in \<open>simp_all add: engine_defs answered_def\<close>)
qed

text \<open>The owner can finish the sweep it is in; the sweep leaves a tag alone unless its handler has failed.\<close>

lemma finish_sweep:
  assumes "live_inv e" "eg_sweep e = Some c" "t < length (eg_tags e)" "\<not> ts_handler_failed (eg_tags e ! t) \<or> t < c"
  shows "\<exists>e'. engine_step\<^sup>*\<^sup>* e e' \<and> live_inv e' \<and> eg_sweep e' = None \<and> length (eg_tags e') = length (eg_tags e) \<and>
    eg_tags e' ! t = eg_tags e ! t \<and> answered e' t = answered e t"
  using assms
proof (induction "length (eg_tags e) - c" arbitrary: c e)
  case 0
  then have "engine_step e (e\<lparr>eg_sweep := None\<rparr>)" by (intro engine_step.swept) auto
  then show ?case using live_step 0(2) by (intro exI [of _ "e\<lparr>eg_sweep := None\<rparr>"]) (auto simp: answered_def)
next
  case (Suc k)
  let ?e = "(collect_tag (\<lambda>_. False) c e)\<lparr>eg_sweep := Some (c + 1)\<rparr>"
  have s: "engine_step e ?e" using Suc by (intro engine_step.collect) auto
  have same: "eg_tags ?e ! t = eg_tags e ! t \<and> answered ?e t = answered e t"
  proof (cases "t = c")
    case True
    then have "collect_tag (\<lambda>_. False) c e = e" using Suc.prems by (auto simp: collect_tag_def Let_def)
    then show ?thesis by (simp add: answered_def)
  next
    case False
    then show ?thesis using collect_tag_other [OF False] by (simp add: answered_def)
  qed
  have "\<exists>e'. engine_step\<^sup>*\<^sup>* ?e e' \<and> live_inv e' \<and> eg_sweep e' = None \<and> length (eg_tags e') = length (eg_tags ?e) \<and>
      eg_tags e' ! t = eg_tags ?e ! t \<and> answered e' t = answered ?e t"
    using Suc.prems Suc.hyps(2) same by (intro Suc.hyps(1) [of ?e "c + 1"] live_step [OF s]) auto
  then obtain e' where e': "engine_step\<^sup>*\<^sup>* ?e e'" "live_inv e'" "eg_sweep e' = None" "length (eg_tags e') = length (eg_tags ?e)"
      "eg_tags e' ! t = eg_tags ?e ! t" "answered e' t = answered ?e t" by blast
  have "engine_step\<^sup>*\<^sup>* e e'" using s e'(1) by (rule converse_rtranclp_into_rtranclp)
  then show ?case using e' same by auto
qed

lemma answerable_idle_owner:
  assumes inv: "live_inv e" and sw: "eg_sweep e = None" and t: "t < length (eg_tags e)" and busy: "ts_busy (eg_tags e ! t)"
  shows "answerable e t"
proof (cases "phase_of e t")
  case Absent
  then show ?thesis using engine_inv_tag [OF live_engine [OF inv] t] busy by (simp add: tag_inv_def busy_ok_def Let_def)
qed (use assms in \<open>auto intro: answerable_start answerable_waiting answerable_woken answerable_serving answerable_returned answerable_load
  answerable_claim answerable_store answerable_release answerable_flag answerable_gone\<close>)

lemma answerable_busy:
  assumes inv: "live_inv e" and t: "t < length (eg_tags e)" and busy: "ts_busy (eg_tags e ! t)"
  shows "answerable e t"
proof (cases "eg_sweep e")
  case None
  then show ?thesis using assms by (intro answerable_idle_owner)
next
  case (Some c)
  show ?thesis
  proof (cases "\<not> ts_handler_failed (eg_tags e ! t) \<or> t < c")
    case True
    then obtain e' where e': "engine_step\<^sup>*\<^sup>* e e'" "live_inv e'" "eg_sweep e' = None" "length (eg_tags e') = length (eg_tags e)"
      "eg_tags e' ! t = eg_tags e ! t" "answered e' t = answered e t"
      using finish_sweep [OF inv Some t] by blast
    then have "answerable e' t" using t busy by (intro answerable_idle_owner) simp_all
    then show ?thesis using e' rtranclp_trans [OF e'(1)] unfolding answerable_def by auto
  next
    case False
    then have "phase_of e t = Gone"
      using engine_inv_tag [OF live_engine [OF inv] t] busy by (auto simp: tag_inv_def busy_ok_def Let_def)
    then show ?thesis using False assms Some by (intro answerable_sweep) auto
  qed
qed

section \<open>The mailbox alone\<close>

lemma mail_validI: "mail_valid mb t g \<longleftrightarrow> t < length mb \<and> g \<noteq> 0 \<and> g \<le> kMaxGeneration"
  by (auto simp: mail_valid_def)

lemma mail_states: "kArmed < 4" "kWriting < 4" "kReady < 4" "kArmed \<noteq> kReady" "kArmed \<noteq> kWriting" "kReady \<noteq> kWriting"
  by (simp_all add: kArmed_def kWriting_def kReady_def)

lemma publish_ready:
  assumes "ms_state (mb ! tag) = mailbox_state g kReady" "g \<le> kMaxGeneration"
  shows "mail_publish \<lparr>or_tag = tag, or_generation = g', or_result = r\<rparr> mb = (False, mb)"
  using assms mailbox_state_inj [of g kReady g' kArmed] mail_states
  by (auto simp: mail_publish_def publish_claim_def mail_validI mail_cas_def)

lemma take_ready:
  assumes "ms_state (mb ! tag) = mailbox_state g kReady" "tag < length mb" "g \<noteq> 0" "g \<le> kMaxGeneration"
  shows "mail_take tag g' mb = (if g' = g then (Some \<lparr>or_tag = tag, or_generation = g, or_result = ms_result (mb ! tag)\<rparr>, mb[tag := (mb ! tag)\<lparr>ms_state := 0\<rparr>])
    else (None, mb))"
  using assms mailbox_state_inj [of g kReady g' kReady] mail_states
  by (auto simp: mail_take_def mail_validI mail_cas_def Let_def)

lemma mailbox_accepts_spec:
  assumes armed: "mail_arm t g mb = (True, mb1)" and pub: "mail_publish \<lparr>or_tag = t, or_generation = g', or_result = r\<rparr> mb1 = (accepted, mb2)"
  shows "accepted \<longleftrightarrow> g' = g" "\<not> accepted \<longrightarrow> mb2 = mb1"
    "accepted \<longrightarrow> (\<forall>g'' r'. mail_publish \<lparr>or_tag = t, or_generation = g'', or_result = r'\<rparr> mb2 = (False, mb2)) \<and>
       (\<forall>g''. mail_take t g'' mb2 = (if g'' = g
         then (Some \<lparr>or_tag = t, or_generation = g, or_result = r\<rparr>, mb[t := \<lparr>ms_state = 0, ms_result = r\<rparr>]) else (None, mb2)))"
proof -
  have v: "t < length mb" "g \<noteq> 0" "g \<le> kMaxGeneration" and mb1: "mb1 = mb[t := (mb ! t)\<lparr>ms_state := mailbox_state g kArmed\<rparr>]"
    using armed by (auto simp: mail_arm_def mail_validI mail_cas_def split: if_splits)
  have st: "ms_state (mb1 ! t) = mailbox_state g kArmed" using v mb1 by simp
  have eq: "(accepted, mb2) = (if g' = g then (True, mb[t := \<lparr>ms_state = mailbox_state g kReady, ms_result = r\<rparr>]) else (False, mb1))"
    using pub [symmetric] v st mb1 mailbox_state_inj [of g kArmed g' kArmed] mail_states
    by (cases "mb ! t") (auto simp: mail_publish_def publish_claim_def mail_validI mail_cas_def publish_release_def publish_store_def)
  then show "accepted \<longleftrightarrow> g' = g" "\<not> accepted \<longrightarrow> mb2 = mb1" by (auto split: if_splits)
  show "accepted \<longrightarrow> (\<forall>g'' r'. mail_publish \<lparr>or_tag = t, or_generation = g'', or_result = r'\<rparr> mb2 = (False, mb2)) \<and>
       (\<forall>g''. mail_take t g'' mb2 = (if g'' = g
         then (Some \<lparr>or_tag = t, or_generation = g, or_result = r\<rparr>, mb[t := \<lparr>ms_state = 0, ms_result = r\<rparr>]) else (None, mb2)))"
    using eq v by (auto simp: publish_ready take_ready split: if_splits)
qed

text \<open>C26: A slot armed for a generation accepts the publication of exactly that generation, and once: a publication for any
  other generation is rejected and changes nothing, so is every second publication, and the owner takes the published
  value under that generation and no other, which leaves the slot empty.
\<close>

theorem mailbox_accepts_once:
  assumes "mail_arm t g mb = (True, mb1)" "mail_publish \<lparr>or_tag = t, or_generation = g', or_result = r\<rparr> mb1 = (accepted, mb2)"
  shows "(accepted \<longleftrightarrow> g' = g) \<and> (\<not> accepted \<longrightarrow> mb2 = mb1) \<and>
    (accepted \<longrightarrow> (\<forall>g'' r'. mail_publish \<lparr>or_tag = t, or_generation = g'', or_result = r'\<rparr> mb2 = (False, mb2)) \<and>
       (\<forall>g''. mail_take t g'' mb2 = (if g'' = g
         then (Some \<lparr>or_tag = t, or_generation = g, or_result = r\<rparr>, mb[t := \<lparr>ms_state = 0, ms_result = r\<rparr>]) else (None, mb2))))"
  using mailbox_accepts_spec [OF assms] by blast

theorem mailbox_accepts_once_witness:
  "mail_take 0 7 (snd (mail_publish \<lparr>or_tag = 0, or_generation = 7, or_result = - 5\<rparr> (snd (mail_arm 0 7 [\<lparr>ms_state = 0, ms_result = 0\<rparr>])))) =
     (Some \<lparr>or_tag = 0, or_generation = 7, or_result = - 5\<rparr>, [\<lparr>ms_state = 0, ms_result = - 5\<rparr>])"
proof -
  let ?mb = "[\<lparr>ms_state = 0, ms_result = 0\<rparr>]" and ?r = "\<lparr>or_tag = 0, or_generation = 7, or_result = - 5\<rparr>"
  obtain mb1 where a: "mail_arm 0 7 ?mb = (True, mb1)" by (simp add: mail_arm_def mail_validI mail_cas_def gen_bits)
  obtain acc mb2 where p: "mail_publish ?r mb1 = (acc, mb2)" by (cases "mail_publish ?r mb1")
  show ?thesis using mailbox_accepts_once [OF a p] a p by simp
qed

section \<open>The engine\<close>

text \<open>C6: In every reachable state no protocol failure has been recorded, whatever the handlers, the source and the sink did:
  the generations answered for a tag are strictly increasing (none twice), each was admitted and is settled, and as long
  as the sink recorded no failure at all every settled generation has been answered, in order.
\<close>

theorem engine_answers_once:
  assumes "engine_reachable e" "t < length (eg_tags e)"
  shows "EPROTO \<notin> set (eg_failures e) \<and>
    sorted_wrt (<) (answered e t) \<and> set (answered e t) \<subseteq> {1..<settled (eg_tags e ! t)} \<and>
    (eg_failures e = [] \<longrightarrow> answered e t = [1..<settled (eg_tags e ! t)])"
  using engine_inv_tag [OF reachable_inv [OF assms(1)] assms(2)] by (simp add: pub_inv_def)

text \<open>C12: From every reachable state in which a tag is busy the engine can continue to a state that has answered the
  generation the tag is busy with and released the tag: no interleaving of a failing handler, a lost wake-up, a close
  or a rejected spawn leaves a request that can no longer be answered. The owner sweeps the mailboxes only when it
  finds \<open>foreign_pending\<close> set, so this rests on the order in which a handler's guard publishes and raises that flag.
\<close>

theorem busy_tag_can_be_answered:
  assumes "engine_reachable e" "t < length (eg_tags e)" "ts_busy (eg_tags e ! t)"
  shows "\<exists>e'. engine_step\<^sup>*\<^sup>* e e' \<and> length (eg_tags e') = length (eg_tags e) \<and> \<not> ts_busy (eg_tags e' ! t) \<and>
    answered e' t = answered e t @ [unat (ts_generation (eg_tags e ! t))]"
  using answerable_busy [OF reachable_live [OF assms(1)] assms(2,3)] by (simp add: answerable_def)

lemma generations_spec:
  assumes "engine_reachable e" "t < length (eg_tags e)"
  shows "unat (ts_next_generation (eg_tags e ! t)) = unat (ts_generation (eg_tags e ! t)) + 1"
    "1 \<le> unat (ts_next_generation (eg_tags e ! t)) \<and> unat (ts_next_generation (eg_tags e ! t)) \<le> 2 ^ 62"
    "ms_state (eg_mailbox e ! t) = 0 \<or> ts_busy (eg_tags e ! t) \<and> drop_bit kStateBits (ms_state (eg_mailbox e ! t)) = ts_generation (eg_tags e ! t)"
    "unat (ts_next_generation (eg_tags e ! t)) = 2 ^ 62 \<and> \<not> ts_busy (eg_tags e ! t) \<and> rq_tag rq = t \<longrightarrow>
       admit_request spawned ok rq e = (Inl EOVERFLOW, sink_fail EOVERFLOW e)"
proof -
  let ?s = "eg_tags e ! t" and ?m = "eg_mailbox e ! t"
  have i: "tag_inv (eg_closed e) (eg_retry e = Some t) ?s ?m" using engine_inv_tag [OF reachable_inv [OF assms(1)] assms(2)] by simp
  then show "unat (ts_next_generation ?s) = unat (ts_generation ?s) + 1"
    "1 \<le> unat (ts_next_generation ?s) \<and> unat (ts_next_generation ?s) \<le> 2 ^ 62"
    using gen_bits [of "ts_generation ?s"] by (auto simp: tag_inv_def)
  have g: "ts_generation ?s \<le> kMaxGeneration" using i by (simp add: tag_inv_def)
  show "ms_state ?m = 0 \<or> ts_busy ?s \<and> drop_bit kStateBits (ms_state ?m) = ts_generation ?s"
  proof (cases "ts_busy ?s")
    case True
    then have "\<exists>st \<in> {kArmed, kWriting, kReady}. ms_state ?m = mailbox_state (ts_generation ?s) st"
      using i by (auto simp: tag_inv_def busy_ok_def Let_def split: Phase.splits)
    then show ?thesis using True mailbox_state_parts(1) [OF g] mail_states by (auto simp: kStateBits_def)
  qed (use i in \<open>simp add: tag_inv_def idle_ok_def\<close>)
  show "unat (ts_next_generation ?s) = 2 ^ 62 \<and> \<not> ts_busy ?s \<and> rq_tag rq = t \<longrightarrow>
       admit_request spawned ok rq e = (Inl EOVERFLOW, sink_fail EOVERFLOW e)"
    using assms(2) gen_bits [of "ts_next_generation ?s"] by (auto simp: admit_request_def Let_def not_le)
qed

text \<open>C25: Generations never wrap: in every reachable state the next generation of a tag lies between 1 and \<open>2^62\<close>, one above
  the last one used, and the mailbox slot is empty or holds a state of exactly the generation the tag is busy with. At
  \<open>2^62\<close> an admission is refused with \<open>EOVERFLOW\<close> and leaves every tag and the mailbox unchanged.
\<close>

theorem generations_never_wrap:
  assumes "engine_reachable e" "t < length (eg_tags e)"
  shows "unat (ts_next_generation (eg_tags e ! t)) = unat (ts_generation (eg_tags e ! t)) + 1 \<and>
    1 \<le> unat (ts_next_generation (eg_tags e ! t)) \<and> unat (ts_next_generation (eg_tags e ! t)) \<le> 2 ^ 62 \<and>
    (ms_state (eg_mailbox e ! t) = 0 \<or>
       ts_busy (eg_tags e ! t) \<and> drop_bit kStateBits (ms_state (eg_mailbox e ! t)) = ts_generation (eg_tags e ! t)) \<and>
    (\<forall>rq spawned ok. unat (ts_next_generation (eg_tags e ! t)) = 2 ^ 62 \<and> \<not> ts_busy (eg_tags e ! t) \<and> rq_tag rq = t \<longrightarrow>
       admit_request spawned ok rq e = (Inl EOVERFLOW, sink_fail EOVERFLOW e))"
  using generations_spec [OF assms] by blast

text \<open>Two runs: a request is admitted, served and answered; a request is admitted and its handler fails before it starts.\<close>

definition sample_rq :: IoRequest where
  "sample_rq = \<lparr>rq_tag = 1, rq_op = 0, rq_flags = 0, rq_start_sector = 0, rq_nr_sectors = 8\<rparr>"

definition sample_busy :: "Engine \<Rightarrow> Engine" where "sample_busy e = snd (admit_request True True sample_rq e)"

definition sample_served :: "Engine \<Rightarrow> Engine" where
  "sample_served e = run_returned 1 1 4096 (set_phase 1 (Returned 1 4096) (run_woken 1 (set_phase 1 Woken (loop_top 1 (sample_busy e)))))"

definition sample_failed :: "Engine \<Rightarrow> Engine" where
  "sample_failed e = guard_flag 1 (guard_release 1 1 (guard_store 1 1 (guard_claim 1 1 (guard_load 1 (set_phase 1 GuardLoad (sample_busy e))))))"

definition sample_new :: Engine where
  "sample_new = \<lparr>eg_tags = [tag_new, tag_new], eg_mailbox = [\<lparr>ms_state = 0, ms_result = 0\<rparr>, \<lparr>ms_state = 0, ms_result = 0\<rparr>], eg_foreign_pending = False,
     eg_closed = False, eg_published = [], eg_failures = [], eg_wakes = 0, eg_retry = None, eg_sweep = None\<rparr>"

lemmas sample_defs = sample_failed_def guard_load_def guard_claim_def guard_store_def guard_release_def guard_flag_def publish_claim_def
  publish_store_def publish_release_def sample_busy_def sample_served_def sample_new_def sample_rq_def tag_new_def admit_request_def Let_def mail_arm_def mail_valid_def
  mail_cas_def engine_defs signal_def loop_top_def run_woken_def run_returned_def mail_retire_def kMaxGeneration_def kStateBits_def kArmed_def mailbox_state_def

lemma sample_reachable: "engine_reachable (sample_busy sample_new)" "engine_reachable (sample_served sample_new)"
proof -
  have n: "engine_new 2 = Inr sample_new" by (simp add: engine_new_def mailbox_new_def sample_new_def numeral_2_eq_2)
  have s1: "engine_step sample_new (sample_busy sample_new)"
    unfolding sample_busy_def by (rule engine_step.admit) (simp_all add: sample_new_def)
  then show "engine_reachable (sample_busy sample_new)" using n by (auto simp: engine_reachable_def)
  let ?a = "sample_busy sample_new" let ?b = "loop_top 1 ?a" let ?c = "set_phase 1 Woken ?b" let ?d = "run_woken 1 ?c"
  let ?f = "set_phase 1 (Returned 1 4096) ?d"
  have s2: "engine_step ?a ?b" by (rule engine_step.start) (simp_all add: sample_defs)
  have s3: "engine_step ?b ?c" by (rule engine_step.wake) (simp_all add: sample_defs)
  have s4: "engine_step ?c ?d" by (rule engine_step.woken) (simp_all add: sample_defs)
  have s5: "engine_step ?d ?f" by (rule engine_step.served [where rq = sample_rq]) (simp_all add: sample_defs)
  have s6: "engine_step ?f (sample_served sample_new)" unfolding sample_served_def by (rule engine_step.returned) (simp_all add: sample_defs)
  have "engine_step\<^sup>*\<^sup>* sample_new (sample_served sample_new)"
    using s1 s2 s3 s4 s5 s6 by (meson converse_rtranclp_into_rtranclp rtranclp.rtrancl_refl)
  then show "engine_reachable (sample_served sample_new)" using n by (auto simp: engine_reachable_def)
qed

lemma sample_failed_reachable: "engine_reachable (sample_failed sample_new)"
proof -
  let ?a = "set_phase 1 GuardLoad (sample_busy sample_new)" let ?b = "guard_load 1 ?a" let ?c = "guard_claim 1 1 ?b"
  let ?d = "guard_store 1 1 ?c" let ?f = "guard_release 1 1 ?d"
  have s1: "engine_step (sample_busy sample_new) ?a" by (rule engine_step.fail) (simp_all add: sample_defs)
  have s2: "engine_step ?a ?b" by (rule engine_step.load) (simp_all add: sample_defs)
  have s3: "engine_step ?b ?c" by (rule engine_step.claim) (simp_all add: sample_defs)
  have s4: "engine_step ?c ?d" by (rule engine_step.store) (simp_all add: sample_defs)
  have s5: "engine_step ?d ?f" by (rule engine_step.release) (simp_all add: sample_defs)
  have s6: "engine_step ?f (sample_failed sample_new)" unfolding sample_failed_def by (rule engine_step.flag) (simp_all add: sample_defs)
  have "engine_step\<^sup>*\<^sup>* (sample_busy sample_new) (sample_failed sample_new)"
    using s1 s2 s3 s4 s5 s6 by (meson converse_rtranclp_into_rtranclp rtranclp.rtrancl_refl)
  then show ?thesis using sample_reachable(1) unfolding engine_reachable_def by (meson rtranclp_trans)
qed

lemma sample_facts: "length (eg_tags (sample_busy sample_new)) = 2" "ts_busy (eg_tags (sample_busy sample_new) ! 1)"
  "length (eg_tags (sample_served sample_new)) = 2" "eg_failures (sample_served sample_new) = []"
  "settled (eg_tags (sample_served sample_new) ! 1) = 2" "ts_generation (eg_tags (sample_busy sample_new) ! 1) = 1" "answered (sample_busy sample_new) 1 = []"
  by (simp_all add: sample_defs settled_def answered_def)

lemma sample_failed_facts: "length (eg_tags (sample_failed sample_new)) = 2" "ts_busy (eg_tags (sample_failed sample_new) ! 1)"
  "phase_of (sample_failed sample_new) 1 = Gone" "ts_generation (eg_tags (sample_failed sample_new) ! 1) = 1" "answered (sample_failed sample_new) 1 = []"
  by (simp_all add: sample_defs answered_def)

lemmas sample_facts' = sample_facts sample_facts [simplified]

theorem engine_answers_once_witness: "answered (sample_served sample_new) 1 = [1]"
  using engine_answers_once [OF sample_reachable(2), of 1] by (simp add: sample_facts' upt_rec)

theorem busy_tag_can_be_answered_witness:
  "phase_of (sample_failed sample_new) 1 = Gone \<and>
   (\<exists>e'. engine_step\<^sup>*\<^sup>* (sample_failed sample_new) e' \<and> \<not> ts_busy (eg_tags e' ! 1) \<and> answered e' 1 = [1])"
  using busy_tag_can_be_answered [OF sample_failed_reachable, of 1] by (auto simp: sample_failed_facts sample_failed_facts [simplified])

theorem generations_never_wrap_witness:
  "unat (ts_next_generation (eg_tags (sample_busy sample_new) ! 1)) = 2"
  using generations_never_wrap [OF sample_reachable(1), of 1] by (simp add: sample_facts')

end
