(* ===== verification/Spec2Isabelle.thy ===== *)
theory Spec2Isabelle
  imports LsmtWrite ZFileWrite TagEngine
begin

text \<open>
  OverlayBD-Elio serves the layers of a container image as one block device. A read of the device goes through the
  ublk queue to a merged view of the image's layers; each layer is a sealed LSMT file, an index of mappings from
  logical sectors to payload sectors, possibly compressed as a ZFile and wrapped in a tar; a writable device has on top
  a layer that keeps payload and a journal in a pair of files and can later be sealed into a read-only layer. Writers
  produce the sealed files. This library models the formats, the readers, the writers, the writable layer and the tag
  engine of the queue, and proves that what is written is what is read, under every outcome of the I/O calls.

  \<^bold>\<open>Basis.\<close>
  \<^item> \<open>Prelude\<close>: bytes, error numbers, results (\<open>Inl e\<close> for a returned \<open>-e\<close> and for a thrown \<open>errno = e\<close>), positional
    reads and writes of buffers.
  \<^item> \<open>Bytes\<close> (\<open>common/bytes.hpp\<close>): little-endian words, the packed \<open>segment_mapping\<close>; their round trips.
  \<^item> \<open>Crc32c\<close> (\<open>common/crc32c.cpp\<close>): table, software and SSE4.2 routines compute the same bitwise division.
  \<^item> \<open>FileIo\<close>: files as bytes, and scripts of outcomes for the calls into the kernel and the runtime. A write that
    fails may have stored any prefix. A theorem over all scripts covers a failure at any call.
  \<^item> \<open>Segments\<close>: \<open>lookup\<close>, the meaning of an index, and the invariant \<open>wf_segs\<close> (sorted, disjoint, no empty mapping).

  \<^bold>\<open>Reading.\<close>
  \<^item> \<open>BlobSource\<close> (\<open>source/blob_source.hpp\<close>, \<open>local_file.cpp\<close>, \<open>tar_offset.cpp\<close>): the source interface as the locales
    \<open>blob_source\<close> and \<open>sized_source\<close>, interpreted on local files; the tar wrapper.
  \<^item> \<open>LsmtFormat\<close>, \<open>LsmtLayer\<close> (\<open>format/lsmt_format.cpp\<close>, \<open>format/lsmt.cpp\<close>): header and trailer; opening a plain or a warp
    layer. A layer that opens has a sorted index whose payload lies inside its source.
  \<^item> \<open>LsmtMerge\<close>, \<open>MergedLsmt\<close> (\<open>format/lsmt.cpp\<close>): the merge of the indexes refines a search through the layers from the
    top; reads of the merged view return the bytes of that stack; the lookup directory is equivalent to the plain
    search. The last section has the two inputs on which the code departs from its contract.
  \<^item> \<open>ZFileFormat\<close>, \<open>BlockCodec\<close>, \<open>ZFileRead\<close> (\<open>format/zfile_format.cpp\<close>, \<open>block_codec.cpp\<close>, \<open>zfile.cpp\<close>): the compressed
    container, its jump table, the codecs over LZ4 and ZSTD (parameters with their documented contract, \<open>lib_ok\<close>), and
    batched reads with the decoded-block cache.

  \<^bold>\<open>Writing.\<close>
  \<^item> \<open>ZFileWrite\<close>, \<open>LsmtWrite\<close> (\<open>format/writer.cpp\<close>): the ZFile writer, the single-layer writer with tail placement, the warp
    writer; each file opens with the reader above and shows its input.
  \<^item> \<open>LsmtRwIndex\<close>, \<open>LsmtRwFile\<close>, \<open>LsmtRwOpen\<close> (\<open>format/lsmt_rw_index.cpp\<close>, \<open>lsmt_rw_file.cpp\<close>): the journal of the
    writable layer, its replay, append, compaction, and the grow transaction with its recovery after a crash.
  \<^item> \<open>LsmtRwMap\<close>, \<open>LsmtRw\<close>, \<open>LsmtRwSeal\<close> (\<open>format/lsmt_rw.cpp\<close>): the in-memory index, \<open>pwrite\<close>, \<open>discard\<close>, \<open>pread\<close>, the
    gates of the life cycle, growing, flushing, checkpoint, seal, offline commit, empty layers. Live content and content
    after a replay of the journal change in the written sectors only, whatever call fails.

  \<^bold>\<open>Serving.\<close>
  \<^item> \<open>TagEngine\<close> (\<open>ublk/tag_engine.cpp\<close>, \<open>queue.hpp\<close>): owner, tag handlers and failure guards as one transition system,
    access by access on the shared mailbox. No protocol failure is reachable, every admitted generation is answered at
    most once, a busy tag can always be answered, generations do not wrap.

  \<^bold>\<open>Conventions.\<close> Definitions carry the names of the code; where two files share a name one has a prefix (\<open>z_\<close>, \<open>rw_\<close>,
  \<open>mail_\<close>). A \<open>unique_ptr\<close> that may be null is an option, \<open>std::vector\<close> and \<open>std::map\<close> are lists in their order.
  Coroutines run to completion; in \<open>TagEngine\<close> the points where they suspend are steps. Quantities that wrap in the code
  (flags, checksums, generations, header fields) are words; offsets and sizes that guards keep far below \<open>2 ^ 64\<close> are
  natural numbers, and the hypotheses that say so (\<open>U64\<close>, \<open>seg_fits\<close>) are in the statements. No definition uses fuel:
  the loops that are not structural have termination proofs, and an access the code makes outside a table is \<open>None\<close>.

  \<^bold>\<open>Not modelled.\<close> The merged view with a writable top (\<open>merged_writable.cpp\<close>) and the dispatch of a request to it inside
  \<open>run_tag\<close>; the Hybrid and sparse uppers, which have on-disk formats of their own; remote sources, the layer cache and
  traces, which are network and cache state; image assembly, supervisor, ublk control and the tools, which are process
  and kernel I/O. Inside the modelled files: descriptors, locks, test hooks, creation of a new pair and migration of old
  checkpoints, the ARM variant of the checksum loop, and failures of allocation outside the tag engine.
\<close>

end
